(* ===== verification/Qing_Prelude.thy ===== *)
theory Qing_Prelude
  imports Main "HOL-Library.Word"
begin

text \<open>
  Prelude of the qing development: the machine types of the C++ sources, the faults of the
  language (undefined behaviour and spinning are values here), the result type of fallible
  code with its bind, and generic lemmas on words and lists that several components share.
\<close>

unbundle bit_operations_syntax

section \<open>Machine types\<close>

type_synonym u8 = "8 word"
type_synonym u16 = "16 word"
type_synonym u32 = "32 word"
type_synonym u64 = "64 word"

text \<open>
  A C \<open>int\<close> whose arithmetic the code relies on not to overflow is an \<open>int\<close> with the
  overflow of the 32-bit type written as a fault.
\<close>

definition int_max :: int where
  "int_max = 2147483647"

section \<open>Faults and results\<close>

text \<open>
  \<open>Out_Of_Fuel\<close> is a loop that has not returned within its fuel; the other faults are
  undefined behaviour of C++ (or, for \<open>Bad_Alloc\<close> and \<open>Assert_Failed\<close>, an exception
  and an abort).
\<close>

datatype fault =
    Out_Of_Fuel
  | Signed_Overflow
  | Div_By_Zero
  | Out_Of_Bounds
  | Bad_Iterator
  | Null_Deref
  | Object_Overrun
  | Dead_Object
  | Assert_Failed
  | Bad_Alloc
  | Bad_Function_Call

type_synonym 'a res = "fault + 'a"

definition res_bind :: "'a res \<Rightarrow> ('a \<Rightarrow> 'b res) \<Rightarrow> 'b res" where
  "res_bind r f = (case r of Inl e \<Rightarrow> Inl e | Inr x \<Rightarrow> f x)"

lemma res_bind_simps [simp]:
  "res_bind (Inl e) f = Inl e"
  "res_bind (Inr x) f = f x"
  by (simp_all add: res_bind_def)

lemma res_bind_eq_Inr:
  "res_bind r f = Inr y \<longleftrightarrow> (\<exists>x. r = Inr x \<and> f x = Inr y)"
  by (cases r) simp_all

lemma res_bind_InrE [elim!]:
  assumes "res_bind r f = Inr y"
  obtains x where "r = Inr x" and "f x = Inr y"
  using assms by (auto simp: res_bind_eq_Inr)

lemma res_bind_cong [fundef_cong]:
  assumes "r = r'" and "\<And>x. r' = Inr x \<Longrightarrow> f x = g x"
  shows "res_bind r f = res_bind r' g"
  using assms by (cases r') simp_all

section \<open>Words\<close>

text \<open>Masking with one less than a power of two is the remainder.\<close>

lemma unat_and_pow2_minus_1:
  fixes x :: "'a::len word"
  shows "unat (x AND (2 ^ k - 1)) = unat x mod 2 ^ k"
proof -
  have "x AND (2 ^ k - 1) = take_bit k x"
    by (simp add: take_bit_eq_mask mask_eq_exp_minus_1)
  then have "unat (x AND (2 ^ k - 1)) = take_bit k (unat x)"
    by (simp only: unsigned_take_bit_eq)
  then show ?thesis
    by (simp only: take_bit_eq_mod)
qed

lemma unat_less_pow:
  fixes w :: "'a::len word"
  shows "unat w < 2 ^ LENGTH('a)"
  by (rule unsigned_less)

lemma unat_ucast_widen:
  fixes w :: "'a::len word"
  assumes "LENGTH('a) \<le> LENGTH('b::len)"
  shows "unat (ucast w :: 'b word) = unat w"
proof -
  have "unat w < 2 ^ LENGTH('b)"
    using unat_less_pow [of w] assms by (meson less_le_trans one_le_numeral power_increasing)
  then show ?thesis by (simp add: unsigned_ucast_eq take_bit_nat_eq_self)
qed

lemma unat_of_nat_small:
  assumes "n < 2 ^ LENGTH('a::len)"
  shows "unat (of_nat n :: 'a word) = n"
  using assms by (simp add: unsigned_of_nat take_bit_nat_eq_self)

lemma unat_of_int_small:
  assumes "0 \<le> i" and "i < 2 ^ LENGTH('a::len)"
  shows "unat (word_of_int i :: 'a word) = nat i"
proof -
  have "(word_of_int i :: 'a word) = of_nat (nat i)"
    using assms(1) by (simp add: of_nat_nat)
  moreover have "nat i < 2 ^ LENGTH('a)"
    using assms by (simp add: nat_less_iff)
  ultimately show ?thesis by (metis unat_of_nat_small)
qed

lemma unat_add_no_wrap:
  fixes a b :: "'a::len word"
  assumes "unat a + unat b < 2 ^ LENGTH('a)"
  shows "unat (a + b) = unat a + unat b"
  using assms by (simp add: unat_word_ariths)

lemma unat_mult_no_wrap:
  fixes a b :: "'a::len word"
  assumes "unat a * unat b < 2 ^ LENGTH('a)"
  shows "unat (a * b) = unat a * unat b"
  using assms by (simp add: unat_word_ariths)

lemma unat_sub_no_wrap:
  fixes a b :: "'a::len word"
  assumes "b \<le> a"
  shows "unat (a - b) = unat a - unat b"
  using assms by (rule unat_sub)

section \<open>Lists\<close>

lemma drop_ConsD:
  assumes "drop i xs = x # ys"
  shows "i < length xs" and "xs ! i = x" and "drop (Suc i) xs = ys"
proof -
  show "i < length xs" using assms by (metis drop_all list.discI not_le)
  then show "xs ! i = x" and "drop (Suc i) xs = ys"
    using assms Cons_nth_drop_Suc [of i xs] by simp_all
qed

lemma drop_NilD: "drop i xs = [] \<Longrightarrow> \<not> i < length xs" by simp

lemma sorted_wrt_less_distinct:
  fixes xs :: "'a::linorder list"
  assumes "sorted_wrt (<) xs"
  shows "distinct xs"
  using assms by (induction xs) auto

end
