(* ===== verification/Timer_Clock.thy ===== *)
theory Timer_Clock
  imports Qing_Prelude
begin

text \<open>
  The time arithmetic of \<open>src/util/time_engine.cpp\<close>: unit conversions of timer intervals,
  the elapsed time between two clock readings, the wall clock, the time zone computed by
  \<open>TimerThread::Init\<close> and the calendar test \<open>IfTriggerLocalTimer\<close>. Widths and
  conversions are the C++ ones: \<open>uint64_t\<close> is \<open>u64\<close>, \<open>uint32_t\<close> is \<open>u32\<close>, a C
  \<open>int\<close> parameter is an \<open>int\<close> converted with \<open>word_of_int\<close> where C++ converts it.
\<close>

section \<open>Intervals and elapsed time\<close>

text \<open>\<open>ETimer::open_sec\<close> and \<open>open_milsec\<close>: the interval in microseconds.\<close>

definition sec_to_us :: "u32 \<Rightarrow> u64" where
  "sec_to_us interval_sec = (ucast interval_sec :: u64) * 1000000"

definition milsec_to_us :: "u32 \<Rightarrow> u64" where
  "milsec_to_us interval_milsec = (ucast interval_milsec :: u64) * 1000"

text \<open>
  \<open>get_interval_macro_secs\<close>: \<open>freq\<close> is \<open>QueryPerformanceFrequency\<close> on Windows and
  \<open>sysconf(_SC_CLK_TCK)\<close> elsewhere, the one value both branches divide by.
\<close>

definition get_interval_macro_secs :: "u64 \<Rightarrow> u64 \<Rightarrow> u64 \<Rightarrow> u64 res" where
  "get_interval_macro_secs freq end_clock start_clock =
     (if freq = 0 then Inl Div_By_Zero
      else Inr ((end_clock - start_clock) * 1000000 div freq))"

lemma unat_sec_to_us: "unat (sec_to_us s) = unat s * 1000000"
proof -
  have u: "unat (ucast s :: u64) = unat s"
    by (rule unat_ucast_widen) simp
  have "unat s < 2 ^ 32" using unat_less_pow [of s] by simp
  then have "unat (ucast s :: u64) * unat (1000000 :: u64) < 2 ^ LENGTH(64)"
    using u by simp
  then have "unat (sec_to_us s) = unat (ucast s :: u64) * unat (1000000 :: u64)"
    unfolding sec_to_us_def by (rule unat_mult_no_wrap)
  then show ?thesis using u by simp
qed

lemma unat_milsec_to_us: "unat (milsec_to_us s) = unat s * 1000"
proof -
  have u: "unat (ucast s :: u64) = unat s"
    by (rule unat_ucast_widen) simp
  have "unat s < 2 ^ 32" using unat_less_pow [of s] by simp
  then have "unat (ucast s :: u64) * unat (1000 :: u64) < 2 ^ LENGTH(64)"
    using u by simp
  then have "unat (milsec_to_us s) = unat (ucast s :: u64) * unat (1000 :: u64)"
    unfolding milsec_to_us_def by (rule unat_mult_no_wrap)
  then show ?thesis using u by simp
qed

text \<open>The elapsed time is the exact quotient as long as the product fits 64 bits.\<close>

lemma interval_exact_aux:
  assumes "freq \<noteq> 0" and "s \<le> e" and "(unat e - unat s) * 1000000 < 2 ^ 64"
  shows "get_interval_macro_secs freq e s = Inr t \<Longrightarrow>
      unat t = (unat e - unat s) * 1000000 div unat freq"
proof -
  have d: "unat (e - s) = unat e - unat s" using assms(2) by (rule unat_sub_no_wrap)
  then have "unat ((e - s) * 1000000) = (unat e - unat s) * unat (1000000 :: u64)"
    using assms(3) by (subst unat_mult_no_wrap) simp_all
  moreover assume "get_interval_macro_secs freq e s = Inr t"
  ultimately show ?thesis
    using assms(1) by (auto simp: get_interval_macro_secs_def unat_div split: if_splits)
qed

text \<open>Whatever the readings, the result is below \<open>2 ^ 64 / freq\<close>.\<close>

lemma interval_bound_aux:
  assumes "get_interval_macro_secs freq e s = Inr t"
  shows "unat t \<le> (2 ^ 64 - 1) div unat freq"
proof -
  have "unat ((e - s) * 1000000) \<le> 2 ^ 64 - 1"
    using unat_less_pow [of "(e - s) * 1000000"] by simp
  then have "unat ((e - s) * 1000000) div unat freq \<le> (2 ^ 64 - 1) div unat freq"
    by (rule div_le_mono)
  then show ?thesis
    using assms by (auto simp: get_interval_macro_secs_def unat_div split: if_splits)
qed

section \<open>The wall clock\<close>

text \<open>
  \<open>get_systime_clock\<close> in microseconds. POSIX: \<open>gettimeofday\<close> gives seconds and
  microseconds; Windows: \<open>_ftime\<close> gives seconds and milliseconds. The arithmetic is signed
  64-bit there; the values are the non-negative ones of a clock after 1970.
\<close>

definition systime_posix :: "nat \<Rightarrow> nat \<Rightarrow> u64" where
  "systime_posix tv_sec tv_usec = of_nat (tv_sec * 1000 * 1000 + tv_usec)"

definition systime_windows :: "nat \<Rightarrow> nat \<Rightarrow> u64" where
  "systime_windows time millitm = of_nat ((time * 1000 + millitm) * 1000)"

definition time_millisec :: "u64 \<Rightarrow> u64" where
  "time_millisec systime = systime div 1000"

definition time_sec :: "u64 \<Rightarrow> u64" where
  "time_sec systime = time_millisec systime div 1000"

lemma unat_time_sec: "unat (time_sec w) = unat w div 1000000"
  by (simp add: time_sec_def time_millisec_def unat_div div_mult2_eq [symmetric])

lemma time_sec_of_nat: "unat w div 1000000 = N \<Longrightarrow> time_sec w = of_nat N"
  using unat_time_sec [of w] unat_less_pow [of "time_sec w"]
  by (simp add: word_unat_eq_iff unat_of_nat_small)

lemma systime_seconds:
  assumes "sec < 2 ^ 44"
  shows "us < 1000000 \<Longrightarrow> unat (systime_posix sec us) div 1000000 = sec"
    and "ms < 1000 \<Longrightarrow> unat (systime_windows sec ms) div 1000000 = sec"
proof -
  assume us: "us < 1000000"
  have "unat (systime_posix sec us) = sec * 1000 * 1000 + us"
    unfolding systime_posix_def using assms us by (intro unat_of_nat_small) simp
  then show "unat (systime_posix sec us) div 1000000 = sec" using us by simp
next
  assume ms: "ms < 1000"
  have "unat (systime_windows sec ms) = (sec * 1000 + ms) * 1000"
    unfolding systime_windows_def using assms ms by (intro unat_of_nat_small) simp
  then show "unat (systime_windows sec ms) div 1000000 = sec" using ms by simp
qed

section \<open>The time zone\<close>

text \<open>C division of signed integers truncates towards zero.\<close>

definition c_div :: "int \<Rightarrow> int \<Rightarrow> int" where
  "c_div a b = sgn a * sgn b * (\<bar>a\<bar> div \<bar>b\<bar>)"

text \<open>
  \<open>TimerThread::Init\<close>: \<open>ts_l\<close> and \<open>ts_g\<close> are what \<open>mktime\<close> returns for the local and
  the UTC broken-down time. \<open>static_cast<uint32_t>\<close> and the conversion back to \<open>int\<close> take
  the quotient modulo \<open>2 ^ 32\<close>; the product is converted to \<open>uint32_t\<close>.
\<close>

definition time_zone_of :: "int \<Rightarrow> int \<Rightarrow> int" where
  "time_zone_of ts_l ts_g = sint (word_of_int (c_div (ts_l - ts_g) 3600) :: u32)"

definition Init_time_zone_sec :: "int \<Rightarrow> int \<Rightarrow> u32" where
  "Init_time_zone_sec ts_l ts_g =
     (let time_zone = time_zone_of ts_l ts_g in
      if \<not> (time_zone > 15 \<or> time_zone < -12) then word_of_int (time_zone * 3600)
      else word_of_int (8 * 3600))"

section \<open>The calendar test\<close>

text \<open>
  \<open>IfTriggerLocalTimer\<close>. \<open>time_sec() + time_zone_sec()\<close> adds a \<open>uint32_t\<close> to a
  \<open>uint64_t\<close>; \<open>last_trigger_time + time_zone_sec()\<close> is computed in \<open>uint32_t\<close>, as is its
  quotient by \<open>timer_period\<close>; \<open>timer_trigger_at\<close> and \<open>timer_period\<close> are converted to
  the unsigned type of the other operand.
\<close>

definition IfTriggerLocalTimer :: "u64 \<Rightarrow> u32 \<Rightarrow> int \<Rightarrow> int \<Rightarrow> int \<Rightarrow> bool res" where
  "IfTriggerLocalTimer systime zone last_trigger_time timer_period timer_trigger_at =
     (if timer_period = 0 then Inl Div_By_Zero
      else let local_sec = time_sec systime + ucast zone;
               diff_count = local_sec div word_of_int timer_period
                 - ucast ((word_of_int last_trigger_time + zone) div
                          (word_of_int timer_period :: u32))
           in Inr (if diff_count \<le> 0 then False
                   else if diff_count = 1
                     then word_of_int timer_trigger_at \<le> local_sec mod word_of_int timer_period
                   else True))"

text \<open>The test over natural numbers: \<open>A\<close> and \<open>B\<close> are the two period numbers.\<close>

lemma word_diff_cases:
  fixes a b :: u64
  assumes "unat b < 2 ^ 32"
  shows "a - b \<le> 0 \<longleftrightarrow> unat a = unat b" and "a - b = 1 \<longleftrightarrow> unat a = unat b + 1"
proof -
  have "a - b \<le> 0 \<longleftrightarrow> a = b" by simp
  then show "a - b \<le> 0 \<longleftrightarrow> unat a = unat b" by (simp only: word_unat_eq_iff)
  have "unat (b + 1) = unat b + unat (1 :: u64)"
    using assms by (intro unat_add_no_wrap) simp
  moreover have "a - b = 1 \<longleftrightarrow> a = b + 1" by (auto simp: algebra_simps)
  ultimately show "a - b = 1 \<longleftrightarrow> unat a = unat b + 1"
    by (simp add: word_unat_eq_iff)
qed

lemma IfTriggerLocalTimer_nat:
  assumes P: "0 < timer_period" "timer_period < 2 ^ 31"
    and T: "0 \<le> timer_trigger_at" "timer_trigger_at < 2 ^ 31"
    and a: "a = unat (time_sec systime + ucast zone)"
    and b: "b = unat (word_of_int last_trigger_time + zone :: u32)"
  shows "IfTriggerLocalTimer systime zone last_trigger_time timer_period timer_trigger_at =
     Inr (let p = nat timer_period in
          if a div p = b div p then False
          else if a div p = b div p + 1 then nat timer_trigger_at \<le> a mod p
          else True)"
proof -
  let ?p = "nat timer_period"
  let ?B = "(word_of_int last_trigger_time + zone) div (word_of_int timer_period :: u32)"
  have p64: "unat (word_of_int timer_period :: u64) = ?p"
    and p32: "unat (word_of_int timer_period :: u32) = ?p"
    and t64: "unat (word_of_int timer_trigger_at :: u64) = nat timer_trigger_at"
    using P T by (simp_all add: unat_of_int_small)
  have A: "unat ((time_sec systime + ucast zone) div word_of_int timer_period) = a div ?p"
    by (simp add: unat_div p64 a)
  have B: "unat (ucast ?B :: u64) = b div ?p"
    by (subst unat_ucast_widen) (simp_all add: unat_div p32 b)
  have "unat ?B < 2 ^ 32" using unat_less_pow [of ?B] by simp
  then have "unat (ucast ?B :: u64) < 2 ^ 32"
    by (subst unat_ucast_widen) simp_all
  note cases = word_diff_cases [OF this]
  have M: "word_of_int timer_trigger_at \<le> (time_sec systime + ucast zone) mod word_of_int timer_period
      \<longleftrightarrow> nat timer_trigger_at \<le> a mod ?p"
    by (simp add: word_le_nat_alt unat_mod p64 t64 a)
  show ?thesis
    unfolding IfTriggerLocalTimer_def Let_def cases A B M using P(1) by simp
qed

definition LocalDayDiff :: "int \<Rightarrow> int \<Rightarrow> int" where
  "LocalDayDiff ts1 ts2 = c_div ts1 (24 * 60 * 60) - c_div ts2 (24 * 60 * 60)"

section \<open>Facts about the calendar test\<close>

lemma local_sec_nat:
  assumes "N + z < 2 ^ 32"
  shows "unat ((of_nat N :: u64) + ucast (of_nat z :: u32)) = N + z"
proof -
  have "unat (ucast (of_nat z :: u32) :: u64) = z"
    using assms by (simp add: unat_ucast_widen unat_of_nat_small)
  moreover have "unat (of_nat N :: u64) = N"
    using assms by (simp add: unat_of_nat_small)
  ultimately show ?thesis
    using assms by (subst unat_add_no_wrap) simp_all
qed

lemma local_last_nat:
  assumes "L + z < 2 ^ 32"
  shows "unat (word_of_int (int L) + (of_nat z :: u32)) = L + z"
proof -
  have "(word_of_int (int L) :: u32) + of_nat z = of_nat (L + z)" by simp
  moreover have "unat (of_nat (L + z) :: u32) = L + z"
    using assms by (intro unat_of_nat_small) simp
  ultimately show ?thesis by (simp only:)
qed

lemma local_sec_west:
  assumes "0 < h" and "h \<le> 12" and "N < 2 ^ 32"
  shows "unat ((of_nat N :: u64) + ucast (word_of_int (- (int h * 3600)) :: u32))
    = N + (2 ^ 32 - h * 3600)"
proof -
  have w: "(word_of_int (- (int h * 3600)) :: u32) = of_nat (2 ^ 32 - h * 3600)"
  proof -
    have "(of_nat (2 ^ 32 - h * 3600) :: u32) = of_int (2 ^ 32 - int h * 3600)"
      using assms by (simp add: of_nat_diff)
    then show ?thesis by simp
  qed
  have "unat (of_nat (2 ^ 32 - h * 3600) :: u32) = 2 ^ 32 - h * 3600"
    using assms by (intro unat_of_nat_small) simp
  then have "unat (ucast (word_of_int (- (int h * 3600)) :: u32) :: u64) = 2 ^ 32 - h * 3600"
    by (simp only: w unat_ucast_widen [where 'a = 32 and 'b = 64, simplified])
  moreover have "unat (of_nat N :: u64) = N"
    using assms by (simp add: unat_of_nat_small)
  ultimately show ?thesis
    using assms by (subst unat_add_no_wrap) simp_all
qed

lemma local_last_west:
  assumes "h * 3600 \<le> L" and "L < 2 ^ 31"
  shows "unat (word_of_int (int L) + (word_of_int (- (int h * 3600)) :: u32)) = L - h * 3600"
proof -
  have "(word_of_int (int L) :: u32) + word_of_int (- (int h * 3600)) = of_nat (L - h * 3600)"
    using assms(1) by (simp add: of_nat_diff)
  then show ?thesis using assms(2) by (simp add: unat_of_nat_small)
qed

text \<open>Two moments at least two periods apart are in period numbers at least two apart.\<close>

lemma div_two_apart:
  fixes a b p :: nat
  assumes "0 < p" and "b + 2 * p \<le> a"
  shows "b div p + 2 \<le> a div p"
proof -
  have "(b + 2 * p) div p \<le> a div p" using assms(2) by (rule div_le_mono)
  moreover have "(b + 2 * p) div p = b div p + 2" using assms(1) by simp
  ultimately show ?thesis by simp
qed

definition trigger_between :: "nat \<Rightarrow> nat \<Rightarrow> nat \<Rightarrow> nat \<Rightarrow> bool" where
  "trigger_between p at b a \<longleftrightarrow> (\<exists>k. b < k * p + at \<and> k * p + at \<le> a)"

lemma calendar_sound:
  fixes a b p at :: nat
  assumes "0 < p" and "at < p" and "b \<le> a"
    and "if a div p = b div p then False
         else if a div p = b div p + 1 then at \<le> a mod p else True"
  shows "trigger_between p at b a"
proof -
  have b: "b < (b div p + 1) * p"
    using assms(1) by (metis Suc_eq_plus1 dividend_less_div_times mult_Suc add.commute)
  have a: "a = a div p * p + a mod p" by simp
  have "b div p \<le> a div p" using assms(3) by (rule div_le_mono)
  show ?thesis
  proof (cases "a div p = b div p + 1")
    case True
    with assms(4) have "at \<le> a mod p" by simp
    then show ?thesis using True a b unfolding trigger_between_def
      by (intro exI [of _ "b div p + 1"]) simp
  next
    case False
    with assms(4) \<open>b div p \<le> a div p\<close> have "b div p + 2 \<le> a div p" by (simp split: if_splits)
    then have "(b div p + 2) * p \<le> a div p * p" by (rule mult_le_mono1)
    then have "(b div p + 2) * p \<le> a"
      using div_times_less_eq_dividend [of a p] by (rule le_trans)
    then show ?thesis using b assms(2) unfolding trigger_between_def
      by (intro exI [of _ "b div p + 1"]) simp
  qed
qed

lemma calendar_complete:
  fixes a b p at :: nat
  assumes "0 < p" and "at < p" and "at \<le> b mod p" and "trigger_between p at b a"
  shows "if a div p = b div p then False
         else if a div p = b div p + 1 then at \<le> a mod p else True"
proof -
  from assms(4) obtain k where k: "b < k * p + at" "k * p + at \<le> a"
    by (auto simp: trigger_between_def)
  have "b div p < k"
  proof (rule ccontr)
    assume "\<not> b div p < k"
    then have "k * p \<le> b div p * p" by simp
    moreover have "b div p * p + b mod p = b" by simp
    ultimately show False using k(1) assms(3) by linarith
  qed
  moreover have "k \<le> a div p"
    using k(2) assms(1) by (metis div_le_mono div_mult_self_is_m le_add1 le_trans)
  moreover have "at \<le> a mod p" if "a div p = k"
  proof -
    have "a div p * p + a mod p = a" by simp
    with that k(2) show ?thesis by simp
  qed
  ultimately show ?thesis by auto
qed

section \<open>Facts about the time zone\<close>

lemma sint_small:
  assumes "- (2 ^ 31) \<le> i" and "i < 2 ^ 31"
  shows "sint (word_of_int i :: u32) = i"
  using assms by (simp add: sint_sbintrunc' signed_take_bit_int_eq_self)

lemma c_div_hours:
  assumes "\<bar>d\<bar> < 2 ^ 31 * 3600"
  shows "- (2 ^ 31) \<le> c_div d 3600" and "c_div d 3600 < 2 ^ 31"
proof -
  have "\<bar>d\<bar> div 3600 < 2 ^ 31" using assms by simp
  moreover have "0 \<le> \<bar>d\<bar> div 3600" by simp
  moreover have "c_div d 3600 = sgn d * (\<bar>d\<bar> div 3600)" by (simp add: c_div_def)
  ultimately show "- (2 ^ 31) \<le> c_div d 3600" and "c_div d 3600 < 2 ^ 31"
    by (auto simp: sgn_if)
qed

lemma whole_hours_range:
  fixes d :: int
  shows "\<not> (c_div d 3600 > 15 \<or> c_div d 3600 < -12) \<longleftrightarrow> -13 * 3600 < d \<and> d < 16 * 3600"
proof (cases "0 \<le> d")
  case True
  then have "c_div d 3600 = d div 3600" by (auto simp: c_div_def sgn_if)
  moreover have "d div 3600 \<le> 15 \<longleftrightarrow> d < 57600" by linarith
  moreover have "0 \<le> d div 3600" using True by simp
  ultimately show ?thesis using True by auto
next
  case False
  define e where "e = - d"
  have "0 < e" using False by (simp add: e_def)
  have "c_div d 3600 = - (e div 3600)" using False by (simp add: c_div_def sgn_if e_def)
  moreover have "e div 3600 \<le> 12 \<longleftrightarrow> e < 46800" by linarith
  moreover have "0 \<le> e div 3600" using \<open>0 < e\<close> by simp
  ultimately show ?thesis using \<open>0 < e\<close> by (auto simp: e_def)
qed

lemma Init_time_zone_hours:
  assumes "\<bar>ts_l - ts_g\<bar> < 2 ^ 31 * 3600"
  shows "Init_time_zone_sec ts_l ts_g = word_of_int
     (if -13 * 3600 < ts_l - ts_g \<and> ts_l - ts_g < 16 * 3600
      then ts_l - ts_g - sgn (ts_l - ts_g) * (\<bar>ts_l - ts_g\<bar> mod 3600) else 8 * 3600)"
proof -
  let ?d = "ts_l - ts_g"
  have tz: "time_zone_of ts_l ts_g = c_div ?d 3600"
    unfolding time_zone_of_def by (rule sint_small) (rule c_div_hours [OF assms])+
  have cd: "c_div ?d 3600 = sgn ?d * (\<bar>?d\<bar> div 3600)" by (simp add: c_div_def)
  have "c_div ?d 3600 * 3600 = ?d - sgn ?d * (\<bar>?d\<bar> mod 3600)"
  proof -
    have "\<bar>?d\<bar> div 3600 * 3600 = \<bar>?d\<bar> - \<bar>?d\<bar> mod 3600" by (simp add: minus_mod_eq_div_mult)
    then have "sgn ?d * (\<bar>?d\<bar> div 3600) * 3600 = sgn ?d * \<bar>?d\<bar> - sgn ?d * (\<bar>?d\<bar> mod 3600)"
      by (simp add: mult.assoc right_diff_distrib)
    then show ?thesis unfolding cd by (simp add: sgn_mult_abs)
  qed
  then show ?thesis
    unfolding Init_time_zone_sec_def tz Let_def whole_hours_range by simp
qed

lemma Init_time_zone_west:
  assumes "0 < h" and "h \<le> 12"
  shows "Init_time_zone_sec (- (int h * 3600)) 0 = word_of_int (- (int h * 3600))"
  using assms Init_time_zone_hours [of "- (int h * 3600)" 0] by (simp add: sgn_if)

end
