(* ===== verification/Std_Map.thy ===== *)
theory Std_Map
  imports Qing_Prelude
begin

text \<open>
  The parts of \<open>std::map\<close> and \<open>std::unordered_map\<close> the sources use. A \<open>std::map\<close> is an
  association list with strictly ascending keys (its iteration order); an iterator is the key
  it points at, the end iterator is \<open>None\<close>. \<open>map_insert\<close> keeps an existing entry, as
  \<open>std::map::insert\<close> does; \<open>map_assign\<close> writes through an iterator or a reference;
  \<open>map_index\<close> is \<open>operator[]\<close> followed by the write of a whole value.

  The locales state what the clients (the timer engine, the poller, the function timings)
  rely on; they are interpreted below on the two models.
\<close>

section \<open>The ordered map\<close>

type_synonym ('k, 'v) smap = "('k \<times> 'v) list"

fun map_find :: "('k, 'v) smap \<Rightarrow> 'k \<Rightarrow> 'v option" where
  "map_find [] k = None"
| "map_find ((a, b) # m) k = (if a = k then Some b else map_find m k)"

fun map_insert :: "('k::linorder, 'v) smap \<Rightarrow> 'k \<Rightarrow> 'v \<Rightarrow> ('k, 'v) smap" where
  "map_insert [] k v = [(k, v)]"
| "map_insert ((a, b) # m) k v =
     (if k < a then (k, v) # (a, b) # m
      else if k = a then (a, b) # m
      else (a, b) # map_insert m k v)"

fun map_assign :: "('k, 'v) smap \<Rightarrow> 'k \<Rightarrow> 'v \<Rightarrow> ('k, 'v) smap" where
  "map_assign [] k v = []"
| "map_assign ((a, b) # m) k v =
     (if a = k then (a, v) # m else (a, b) # map_assign m k v)"

fun map_erase :: "('k, 'v) smap \<Rightarrow> 'k \<Rightarrow> ('k, 'v) smap" where
  "map_erase [] k = []"
| "map_erase ((a, b) # m) k = (if a = k then m else (a, b) # map_erase m k)"

fun map_begin :: "('k, 'v) smap \<Rightarrow> 'k option" where
  "map_begin [] = None"
| "map_begin ((a, b) # m) = Some a"

text \<open>\<open>++it\<close>: the least key above the iterator's key.\<close>

fun map_next :: "('k::linorder, 'v) smap \<Rightarrow> 'k \<Rightarrow> 'k option" where
  "map_next [] k = None"
| "map_next ((a, b) # m) k = (if k < a then Some a else map_next m k)"

definition map_keys :: "('k, 'v) smap \<Rightarrow> 'k list" where
  "map_keys m = map fst m"

definition map_wf :: "('k::linorder, 'v) smap \<Rightarrow> bool" where
  "map_wf m \<longleftrightarrow> sorted_wrt (<) (map_keys m)"

lemma map_keys_simps [simp]:
  "map_keys [] = []"
  "map_keys ((a, b) # m) = a # map_keys m"
  by (simp_all add: map_keys_def)

lemma map_wf_simps [simp]:
  "map_wf []"
  "map_wf ((a, b) # m) \<longleftrightarrow> (\<forall>k \<in> set (map_keys m). a < k) \<and> map_wf m"
  by (simp_all add: map_wf_def)

lemma map_find_None_iff: "map_find m k = None \<longleftrightarrow> k \<notin> set (map_keys m)"
  by (induction m k rule: map_find.induct) auto

lemma map_find_Some_key: "map_find m k = Some v \<Longrightarrow> k \<in> set (map_keys m)"
  by (induction m k rule: map_find.induct) (auto split: if_splits)

lemma map_find_in_set: "map_find m k = Some v \<Longrightarrow> (k, v) \<in> set m"
  by (induction m k rule: map_find.induct) (auto split: if_splits)

lemma map_find_of_set: "map_wf m \<Longrightarrow> (k, v) \<in> set m \<Longrightarrow> map_find m k = Some v"
  by (induction m) (force simp: map_keys_def)+

lemma map_keys_insert [simp]: "set (map_keys (map_insert m k v)) = insert k (set (map_keys m))"
  by (induction m k v rule: map_insert.induct) auto

lemma map_keys_assign [simp]: "map_keys (map_assign m k v) = map_keys m"
  by (induction m k v rule: map_assign.induct) auto

lemma map_keys_erase_subset: "set (map_keys (map_erase m k)) \<subseteq> set (map_keys m)"
  by (induction m k rule: map_erase.induct) auto

lemma map_wf_insert: "map_wf m \<Longrightarrow> map_wf (map_insert m k v)"
  by (induction m k v rule: map_insert.induct) (auto simp: not_less_iff_gr_or_eq)

lemma map_wf_assign: "map_wf m \<Longrightarrow> map_wf (map_assign m k v)"
  by (simp add: map_wf_def)

lemma map_wf_erase: "map_wf m \<Longrightarrow> map_wf (map_erase m k)"
  by (induction m k rule: map_erase.induct)
    (auto dest: map_keys_erase_subset [THEN subsetD])

lemma map_find_insert:
  "map_wf m \<Longrightarrow> map_find (map_insert m k v) j =
     (if j = k \<and> map_find m k = None then Some v else map_find m j)"
  by (induction m k v rule: map_insert.induct)
    (auto simp: map_find_None_iff dest: order.asym dest!: map_find_Some_key)

lemma map_find_assign:
  "map_find (map_assign m k v) j =
     (if j = k \<and> map_find m k \<noteq> None then Some v else map_find m j)"
  by (induction m k v rule: map_assign.induct) auto

lemma map_find_erase:
  "map_wf m \<Longrightarrow> map_find (map_erase m k) j = (if j = k then None else map_find m j)"
  by (induction m k rule: map_erase.induct) (auto simp: map_find_None_iff)

lemma map_find_erase_None: "map_find m j = None \<Longrightarrow> map_find (map_erase m k) j = None"
  using map_keys_erase_subset [of m k] by (auto simp: map_find_None_iff)

lemma map_erase_assign: "map_erase (map_assign m k v) k = map_erase m k"
  by (induction m k v rule: map_assign.induct) auto

lemma map_begin_Some:
  "map_wf m \<Longrightarrow> map_begin m = Some k \<longleftrightarrow>
     map_find m k \<noteq> None \<and> (\<forall>j < k. map_find m j = None)"
  by (cases m rule: map_begin.cases) (auto simp: map_find_None_iff dest: order.asym)

lemma map_begin_None: "map_begin m = None \<longleftrightarrow> (\<forall>j. map_find m j = None)"
  by (cases m rule: map_begin.cases) auto

lemma map_next_in_keys: "map_next m k = Some j \<Longrightarrow> k < j \<and> j \<in> set (map_keys m)"
  by (induction m k rule: map_next.induct) (auto split: if_splits)

lemma map_next_least:
  "map_wf m \<Longrightarrow> map_next m k = Some j \<Longrightarrow> i \<in> set (map_keys m) \<Longrightarrow> k < i \<Longrightarrow> j \<le> i"
  by (induction m k rule: map_next.induct) (auto split: if_splits)

lemma map_next_None_iff: "map_next m k = None \<longleftrightarrow> (\<forall>j \<in> set (map_keys m). \<not> k < j)"
  by (induction m k rule: map_next.induct) auto

lemma finite_map_dom: "finite {k. map_find m k \<noteq> None}"
  by (simp add: map_find_None_iff)

section \<open>The interfaces\<close>

text \<open>
  A keyed container: lookup after an insertion that keeps existing entries, a write through a
  reference, and an erasure. \<open>invar\<close> is the representation invariant.
\<close>

locale keyed_map =
  fixes find :: "'m \<Rightarrow> 'k \<Rightarrow> 'v option"
    and insert_new :: "'m \<Rightarrow> 'k \<Rightarrow> 'v \<Rightarrow> 'm"
    and assign :: "'m \<Rightarrow> 'k \<Rightarrow> 'v \<Rightarrow> 'm"
    and erase :: "'m \<Rightarrow> 'k \<Rightarrow> 'm"
    and invar :: "'m \<Rightarrow> bool"
  assumes find_insert: "invar m \<Longrightarrow> find (insert_new m k v) j =
        (if j = k \<and> find m k = None then Some v else find m j)"
    and find_assign: "invar m \<Longrightarrow> find (assign m k v) j =
        (if j = k \<and> find m k \<noteq> None then Some v else find m j)"
    and find_erase: "invar m \<Longrightarrow> find (erase m k) j = (if j = k then None else find m j)"
    and invar_insert: "invar m \<Longrightarrow> invar (insert_new m k v)"
    and invar_assign: "invar m \<Longrightarrow> invar (assign m k v)"
    and invar_erase: "invar m \<Longrightarrow> invar (erase m k)"
begin

lemma insert_keeps: "invar m \<Longrightarrow> find m k = Some v \<Longrightarrow> find (insert_new m j w) k = Some v"
  by (auto simp: find_insert)

lemma dom_insert: "invar m \<Longrightarrow> dom (find (insert_new m k v)) = insert k (dom (find m))"
  by (auto simp: find_insert split: if_splits)

lemma dom_assign: "invar m \<Longrightarrow> dom (find (assign m k v)) = dom (find m)"
  by (auto simp: find_assign split: if_splits)

lemma dom_erase: "invar m \<Longrightarrow> dom (find (erase m k)) = dom (find m) - {k}"
  by (auto simp: find_erase split: if_splits)

lemma pred_insert:
  assumes "invar m" and "\<And>j w. find m j = Some w \<Longrightarrow> P j w" and "P k v"
  shows "find (insert_new m k v) j = Some w \<Longrightarrow> P j w"
  using assms by (auto simp: find_insert split: if_splits)

lemma pred_assign:
  assumes "invar m" and "\<And>j w. find m j = Some w \<Longrightarrow> P j w" and "P k v"
  shows "find (assign m k v) j = Some w \<Longrightarrow> P j w"
  using assms by (auto simp: find_assign split: if_splits)

end

text \<open>
  An ordered container adds iteration: the first key and the next key above a given one.
\<close>

locale ordered_map = keyed_map find insert_new assign erase invar
  for find :: "'m \<Rightarrow> 'k::linorder \<Rightarrow> 'v option"
    and insert_new :: "'m \<Rightarrow> 'k \<Rightarrow> 'v \<Rightarrow> 'm"
    and assign :: "'m \<Rightarrow> 'k \<Rightarrow> 'v \<Rightarrow> 'm"
    and erase :: "'m \<Rightarrow> 'k \<Rightarrow> 'm"
    and invar :: "'m \<Rightarrow> bool" +
  fixes first :: "'m \<Rightarrow> 'k option"
    and succ :: "'m \<Rightarrow> 'k \<Rightarrow> 'k option"
  assumes first_Some: "invar m \<Longrightarrow> first m = Some k \<longleftrightarrow>
        find m k \<noteq> None \<and> (\<forall>j < k. find m j = None)"
    and succ_Some: "invar m \<Longrightarrow> succ m k = Some j \<longleftrightarrow>
        k < j \<and> find m j \<noteq> None \<and> (\<forall>i. k < i \<and> i < j \<longrightarrow> find m i = None)"
    and first_None: "invar m \<Longrightarrow> first m = None \<longleftrightarrow> (\<forall>j. find m j = None)"
    and succ_None: "invar m \<Longrightarrow> succ m k = None \<longleftrightarrow> (\<forall>j > k. find m j = None)"
    and finite_dom: "invar m \<Longrightarrow> finite {k. find m k \<noteq> None}"
begin

text \<open>Entries at or after an iterator position; the end iterator has none.\<close>

definition ahead :: "'m \<Rightarrow> 'k option \<Rightarrow> 'k set" where
  "ahead m it = {k. find m k \<noteq> None \<and> (\<exists>i. it = Some i \<and> i \<le> k)}"

lemma finite_ahead: "invar m \<Longrightarrow> finite (ahead m it)"
  using finite_dom [of m] by (rule rev_finite_subset) (auto simp: ahead_def)

lemma ahead_None [simp]: "ahead m None = {}"
  by (simp add: ahead_def)

lemma ahead_first: "invar m \<Longrightarrow> ahead m (first m) = {k. find m k \<noteq> None}"
  using first_None [of m] by (cases "first m") (auto simp: ahead_def first_Some not_less [symmetric])

lemma ahead_succ:
  assumes "invar m"
  shows "ahead m (succ m k) = {j. find m j \<noteq> None \<and> k < j}"
proof (cases "succ m k")
  case None
  then have "\<forall>j > k. find m j = None" using succ_None [OF assms, of k] by simp
  with None show ?thesis by (auto simp: ahead_def)
next
  case (Some i)
  then have "k < i" and "\<forall>j. k < j \<and> j < i \<longrightarrow> find m j = None"
    using succ_Some [OF assms] by auto
  with Some show ?thesis by (force simp: ahead_def not_less)
qed

text \<open>\<open>erase(it++)\<close>: stepping before the erasure reaches the same place as stepping after.\<close>

lemma succ_erase:
  assumes "invar m"
  shows "succ (erase m k) k = succ m k"
proof (cases "succ m k")
  case None
  then have "succ (erase m k) k = None"
    using assms succ_None [OF assms, of k] by (simp add: succ_None invar_erase find_erase)
  with None show ?thesis by simp
next
  case (Some j)
  then have "succ (erase m k) k = Some j"
    using assms succ_Some [OF assms, of k j] by (auto simp: succ_Some invar_erase find_erase)
  with Some show ?thesis by simp
qed

lemma succ_assign:
  assumes "invar m"
  shows "succ (assign m i v) k = succ m k"
proof (cases "succ m k")
  case None
  then have "succ (assign m i v) k = None"
    using assms succ_None [OF assms, of k] by (auto simp: succ_None invar_assign find_assign)
  with None show ?thesis by simp
next
  case (Some j)
  then have "succ (assign m i v) k = Some j"
    using assms succ_Some [OF assms, of k j] by (auto simp: succ_Some invar_assign find_assign)
  with Some show ?thesis by simp
qed

end

section \<open>Interpretations\<close>

interpretation sm: ordered_map map_find map_insert map_assign map_erase map_wf map_begin map_next
proof unfold_locales
  fix m :: "('a::linorder, 'b) smap" and k j
  assume wf: "map_wf m"
  show "map_next m k = Some j \<longleftrightarrow>
      k < j \<and> map_find m j \<noteq> None \<and> (\<forall>i. k < i \<and> i < j \<longrightarrow> map_find m i = None)"
  proof
    assume nx: "map_next m k = Some j"
    then show "k < j \<and> map_find m j \<noteq> None \<and> (\<forall>i. k < i \<and> i < j \<longrightarrow> map_find m i = None)"
      using map_next_in_keys [OF nx] map_next_least [OF wf nx]
      by (auto simp: map_find_None_iff not_less [symmetric])
  next
    assume j: "k < j \<and> map_find m j \<noteq> None \<and> (\<forall>i. k < i \<and> i < j \<longrightarrow> map_find m i = None)"
    then have "map_next m k \<noteq> None"
      by (auto simp: map_next_None_iff map_find_None_iff)
    then obtain i where i: "map_next m k = Some i" by blast
    from j have "i \<le> j" using map_next_least [OF wf i] by (simp add: map_find_None_iff)
    moreover from j have "\<not> i < j" using map_next_in_keys [OF i] by (auto simp: map_find_None_iff)
    ultimately show "map_next m k = Some j" using i by simp
  qed
qed (auto simp: map_find_insert map_find_assign map_find_erase map_wf_insert map_wf_assign
    map_wf_erase map_begin_Some map_begin_None map_next_None_iff map_find_None_iff)

text \<open>
  An \<open>unordered_map\<close> has no iteration in the sources; it is a partial function.
\<close>

definition umap_insert :: "('k \<rightharpoonup> 'v) \<Rightarrow> 'k \<Rightarrow> 'v \<Rightarrow> ('k \<rightharpoonup> 'v)" where
  "umap_insert m k v = (case m k of None \<Rightarrow> m(k \<mapsto> v) | Some _ \<Rightarrow> m)"

definition umap_assign :: "('k \<rightharpoonup> 'v) \<Rightarrow> 'k \<Rightarrow> 'v \<Rightarrow> ('k \<rightharpoonup> 'v)" where
  "umap_assign m k v = (case m k of None \<Rightarrow> m | Some _ \<Rightarrow> m(k \<mapsto> v))"

definition umap_erase :: "('k \<rightharpoonup> 'v) \<Rightarrow> 'k \<Rightarrow> ('k \<rightharpoonup> 'v)" where
  "umap_erase m k = m(k := None)"

interpretation um: keyed_map "\<lambda>m. m" umap_insert umap_assign umap_erase "\<lambda>m. True"
  by unfold_locales
    (auto simp: umap_insert_def umap_assign_def umap_erase_def split: option.splits)

end
