(* ===== verification/Timer_Engine.thy ===== *)
theory Timer_Engine
  imports Timer_Clock Std_Map "HOL-Library.Char_ord" "HOL-Library.List_Lexorder"
begin

text \<open>
  The timer engine: \<open>ETimer\<close> and \<open>TimerThread\<close> of \<open>include/qing/util/time_engine.h\<close> and
  \<open>src/util/time_engine.cpp\<close>. The state is the record \<open>timer_thread\<close>; each member function
  that changes state is a function on it. A callback is the list of calls on the engine it
  makes (it runs on the thread that holds the recursive mutexes, so these calls nest); the
  clock, the clock frequency and the outcomes of \<open>try_lock\<close> come from an environment record.
\<close>

section \<open>State\<close>

text \<open>\<open>ETimer\<close>; \<open>_args\<close> and \<open>_callback\<close> are never read. An empty \<open>std::function\<close> is
  \<open>None\<close>.\<close>

record 'f etimer =
  t_interval :: u64
  t_leftsecs :: u64
  t_startclock :: u64
  t_timer_id :: int
  t_run_once :: bool
  t_need_delete :: bool
  t_fp :: "'f option"

record sfuntime =
  ft_begin :: u64
  ft_end :: u64
  ft_sum :: u64

text \<open>
  \<open>TimerThread\<close>. The last two fields are not members of the class: \<open>clock_reads\<close> counts the
  calls of \<open>get_clock\<close>, and \<open>fired\<close> lists the callbacks called so far, with their timer.
\<close>

record 'f timer_thread =
  timers1 :: "(int, 'f etimer) smap"
  timers2 :: "(int, 'f etimer) smap"
  cur_timer_id :: int
  time_zone_sec :: u32
  fun_time_test :: "(string, sfuntime) smap"
  clock_reads :: nat
  fired :: "(int \<times> 'f) list"

text \<open>The calls a callback can make on the engine.\<close>

datatype 'f api =
    Api_Register bool int "'f option"
  | Api_RegisterByMilSec bool int "'f option"
  | Api_UnRegister int

text \<open>
  The environment: the value of the n-th clock reading, the clock frequency, for the
  registration of a timer id the outcomes of \<open>try_lock\<close> on \<open>_timers2_mutex\<close> and
  \<open>_timers1_mutex\<close> in each round of the loop, and the behaviour of the callbacks.
\<close>

record 'f timer_env =
  clock_at :: "nat \<Rightarrow> u64"
  clock_freq :: u64
  try_locks :: "int \<Rightarrow> (bool \<times> bool) list"
  behaviour :: "'f \<Rightarrow> 'f timer_thread \<Rightarrow> 'f api list"

datatype which_map = Timers1 | Timers2

definition timers :: "which_map \<Rightarrow> 'f timer_thread \<Rightarrow> (int, 'f etimer) smap" where
  "timers w s = (case w of Timers1 \<Rightarrow> timers1 s | Timers2 \<Rightarrow> timers2 s)"

definition set_timers ::
    "which_map \<Rightarrow> (int, 'f etimer) smap \<Rightarrow> 'f timer_thread \<Rightarrow> 'f timer_thread" where
  "set_timers w m s = (case w of Timers1 \<Rightarrow> s\<lparr>timers1 := m\<rparr> | Timers2 \<Rightarrow> s\<lparr>timers2 := m\<rparr>)"

lemma timers_set_timers [simp]:
  "timers w (set_timers w' m s) = (if w = w' then m else timers w s)"
  by (cases w; cases w') (simp_all add: timers_def set_timers_def)

lemma set_timers_twice [simp]: "set_timers w m (set_timers w m' s) = set_timers w m s"
  by (cases w) (simp_all add: set_timers_def)

lemma set_timers_frame [simp]:
  "cur_timer_id (set_timers w m s) = cur_timer_id s"
  "clock_reads (set_timers w m s) = clock_reads s"
  "fired (set_timers w m s) = fired s"
  "time_zone_sec (set_timers w m s) = time_zone_sec s"
  "fun_time_test (set_timers w m s) = fun_time_test s"
  by (cases w; simp add: set_timers_def)+

lemma timers_frame [simp]:
  "timers w (s\<lparr>cur_timer_id := i\<rparr>) = timers w s"
  "timers w (s\<lparr>clock_reads := n\<rparr>) = timers w s"
  "timers w (s\<lparr>fired := l\<rparr>) = timers w s"
  "timers w (s\<lparr>fun_time_test := f\<rparr>) = timers w s"
  by (cases w; simp add: timers_def)+

section \<open>Operations\<close>

text \<open>\<open>TimerThread::TimerThread\<close> and \<open>Init\<close>.\<close>

definition TimerThread :: "int \<Rightarrow> int \<Rightarrow> 'f timer_thread" where
  "TimerThread ts_l ts_g =
     \<lparr>timers1 = [], timers2 = [], cur_timer_id = 0,
      time_zone_sec = Init_time_zone_sec ts_l ts_g, fun_time_test = [],
      clock_reads = 0, fired = []\<rparr>"

definition get_clock :: "'f timer_env \<Rightarrow> 'f timer_thread \<Rightarrow> u64 \<times> 'f timer_thread" where
  "get_clock E s = (clock_at E (clock_reads s), s\<lparr>clock_reads := Suc (clock_reads s)\<rparr>)"

text \<open>A fresh \<open>ETimer\<close>; the three words are uninitialised until \<open>open_sec\<close> sets them.\<close>

definition new_etimer :: "bool \<Rightarrow> int \<Rightarrow> 'f etimer" where
  "new_etimer run_once timer_id =
     \<lparr>t_interval = 0, t_leftsecs = 0, t_startclock = 0, t_timer_id = timer_id,
      t_run_once = run_once, t_need_delete = False, t_fp = None\<rparr>"

definition open_sec :: "'f etimer \<Rightarrow> u32 \<Rightarrow> 'f option \<Rightarrow> u64 \<Rightarrow> 'f etimer" where
  "open_sec t interval_sec fp now_clock =
     t\<lparr>t_interval := sec_to_us interval_sec, t_leftsecs := sec_to_us interval_sec,
       t_startclock := now_clock, t_fp := fp\<rparr>"

definition open_milsec :: "'f etimer \<Rightarrow> u32 \<Rightarrow> 'f option \<Rightarrow> u64 \<Rightarrow> 'f etimer" where
  "open_milsec t interval_milsec fp now_clock =
     t\<lparr>t_interval := milsec_to_us interval_milsec, t_leftsecs := milsec_to_us interval_milsec,
       t_startclock := now_clock, t_fp := fp\<rparr>"

text \<open>
  \<open>Register(ETimer&)\<close>: each round tries the second map's mutex, then the first's; a list of
  outcomes that is used up stands for a loop that is still spinning.
\<close>

fun Register_timer ::
    "'f etimer \<Rightarrow> (bool \<times> bool) list \<Rightarrow> 'f timer_thread \<Rightarrow> 'f timer_thread res" where
  "Register_timer t [] s = Inl Out_Of_Fuel"
| "Register_timer t ((lock2, lock1) # rounds) s =
     (if lock2 then Inr (s\<lparr>timers2 := map_insert (timers2 s) (t_timer_id t) t\<rparr>)
      else if lock1 then Inr (s\<lparr>timers1 := map_insert (timers1 s) (t_timer_id t) t\<rparr>)
      else Register_timer t rounds s)"

definition Register ::
    "'f timer_env \<Rightarrow> bool \<Rightarrow> int \<Rightarrow> 'f option \<Rightarrow> 'f timer_thread \<Rightarrow> (int \<times> 'f timer_thread) res" where
  "Register E run_once interval_time fp s =
     (if cur_timer_id s \<ge> int_max then Inl Signed_Overflow
      else let s1 = s\<lparr>cur_timer_id := cur_timer_id s + 1\<rparr>;
               timer = new_etimer run_once (cur_timer_id s1);
               (now_clock, s2) = get_clock E s1;
               timer = open_sec timer (word_of_int interval_time) fp now_clock
           in res_bind (Register_timer timer (try_locks E (t_timer_id timer)) s2)
                (\<lambda>s3. Inr (cur_timer_id s3, s3)))"

definition RegisterByMilSec ::
    "'f timer_env \<Rightarrow> bool \<Rightarrow> int \<Rightarrow> 'f option \<Rightarrow> 'f timer_thread \<Rightarrow> (int \<times> 'f timer_thread) res" where
  "RegisterByMilSec E run_once interval_time fp s =
     (if cur_timer_id s \<ge> int_max then Inl Signed_Overflow
      else let s1 = s\<lparr>cur_timer_id := cur_timer_id s + 1\<rparr>;
               timer = new_etimer run_once (cur_timer_id s1);
               (now_clock, s2) = get_clock E s1;
               timer = open_milsec timer (word_of_int interval_time) fp now_clock
           in res_bind (Register_timer timer (try_locks E (t_timer_id timer)) s2)
                (\<lambda>s3. Inr (cur_timer_id s3, s3)))"

definition UnRegister :: "int \<Rightarrow> 'f timer_thread \<Rightarrow> 'f timer_thread" where
  "UnRegister timer_id s =
     (case map_find (timers2 s) timer_id of
        Some t \<Rightarrow> s\<lparr>timers2 := map_assign (timers2 s) timer_id (t\<lparr>t_need_delete := True\<rparr>)\<rparr>
      | None \<Rightarrow>
          (case map_find (timers1 s) timer_id of
             Some t \<Rightarrow> s\<lparr>timers1 := map_assign (timers1 s) timer_id (t\<lparr>t_need_delete := True\<rparr>)\<rparr>
           | None \<Rightarrow> s))"

text \<open>The calls a callback makes, one after the other.\<close>

fun run_api :: "'f timer_env \<Rightarrow> 'f api list \<Rightarrow> 'f timer_thread \<Rightarrow> 'f timer_thread res" where
  "run_api E [] s = Inr s"
| "run_api E (Api_Register r i fp # cs) s =
     res_bind (Register E r i fp s) (\<lambda>(_, s'). run_api E cs s')"
| "run_api E (Api_RegisterByMilSec r i fp # cs) s =
     res_bind (RegisterByMilSec E r i fp s) (\<lambda>(_, s'). run_api E cs s')"
| "run_api E (Api_UnRegister i # cs) s = run_api E cs (UnRegister i s)"

text \<open>\<open>timer._fp()\<close>; calling an empty \<open>std::function\<close> throws.\<close>

definition call_fp :: "'f timer_env \<Rightarrow> int \<Rightarrow> 'f option \<Rightarrow> 'f timer_thread \<Rightarrow> 'f timer_thread res" where
  "call_fp E k fp s =
     (case fp of
        None \<Rightarrow> Inl Bad_Function_Call
      | Some f \<Rightarrow> run_api E (behaviour E f s) (s\<lparr>fired := fired s @ [(k, f)]\<rparr>))"

text \<open>
  One round of the loop of \<open>Update\<close> over one map, with the iterator at key \<open>k\<close>; the result
  is the next iterator. \<open>timer\<close> is a reference, so it is read again after the callback.
\<close>

definition Update_step ::
    "'f timer_env \<Rightarrow> which_map \<Rightarrow> int \<Rightarrow> 'f timer_thread \<Rightarrow> (int option \<times> 'f timer_thread) res" where
  "Update_step E w k s =
     (case map_find (timers w s) k of
        None \<Rightarrow> Inl Bad_Iterator
      | Some timer \<Rightarrow>
          if t_need_delete timer
          then Inr (map_next (timers w s) k, set_timers w (map_erase (timers w s) k) s)
          else let (now_clock, s1) = get_clock E s in
            res_bind (get_interval_macro_secs (clock_freq E) now_clock (t_startclock timer))
              (\<lambda>interval_time.
                 if t_leftsecs timer \<le> interval_time then
                   res_bind (call_fp E k (t_fp timer) s1) (\<lambda>s2.
                     case map_find (timers w s2) k of
                       None \<Rightarrow> Inl Bad_Iterator
                     | Some timer \<Rightarrow>
                         let (start, s3) = get_clock E s2;
                             timer = timer\<lparr>t_leftsecs := t_interval timer, t_startclock := start\<rparr>;
                             s4 = set_timers w (map_assign (timers w s3) k timer) s3
                         in if t_run_once timer
                            then Inr (map_next (timers w s4) k,
                                      set_timers w (map_erase (timers w s4) k) s4)
                            else Inr (map_next (timers w s4) k, s4))
                 else Inr (map_next (timers w s1) k, s1)))"

fun Update_loop ::
    "'f timer_env \<Rightarrow> which_map \<Rightarrow> nat \<Rightarrow> int option \<Rightarrow> 'f timer_thread \<Rightarrow> 'f timer_thread res" where
  "Update_loop E w fuel None s = Inr s"
| "Update_loop E w 0 (Some k) s = Inl Out_Of_Fuel"
| "Update_loop E w (Suc fuel) (Some k) s =
     res_bind (Update_step E w k s) (\<lambda>(it, s'). Update_loop E w fuel it s')"

text \<open>Callbacks that call \<open>Update\<close> themselves are in \<open>Timer_Nested\<close>, where this \<open>Update\<close> is a special case.\<close>

definition Update :: "'f timer_env \<Rightarrow> nat \<Rightarrow> 'f timer_thread \<Rightarrow> 'f timer_thread res" where
  "Update E fuel s =
     res_bind (Update_loop E Timers1 fuel (map_begin (timers Timers1 s)) s)
       (\<lambda>s1. Update_loop E Timers2 fuel (map_begin (timers Timers2 s1)) s1)"

text \<open>\<open>fun_time_test_begin\<close> and \<open>fun_time_test_end\<close>: \<open>operator[]\<close> inserts a zeroed entry.\<close>

definition fun_time_index :: "string \<Rightarrow> (string, sfuntime) smap \<Rightarrow> (string, sfuntime) smap" where
  "fun_time_index name m = map_insert m name \<lparr>ft_begin = 0, ft_end = 0, ft_sum = 0\<rparr>"

definition fun_time_update ::
    "string \<Rightarrow> (sfuntime \<Rightarrow> sfuntime) \<Rightarrow> (string, sfuntime) smap \<Rightarrow> (string, sfuntime) smap" where
  "fun_time_update name f m =
     (let m' = fun_time_index name m in
      case map_find m' name of None \<Rightarrow> m' | Some e \<Rightarrow> map_assign m' name (f e))"

definition fun_time_test_begin :: "'f timer_env \<Rightarrow> string \<Rightarrow> 'f timer_thread \<Rightarrow> 'f timer_thread" where
  "fun_time_test_begin E name s =
     (let (now, s1) = get_clock E s in
      s1\<lparr>fun_time_test :=
           fun_time_update name (\<lambda>e. e\<lparr>ft_begin := now\<rparr>) (fun_time_test s1)\<rparr>)"

definition fun_time_test_end :: "'f timer_env \<Rightarrow> string \<Rightarrow> 'f timer_thread \<Rightarrow> 'f timer_thread" where
  "fun_time_test_end E name s =
     (let (now, s1) = get_clock E s;
          m1 = fun_time_update name (\<lambda>e. e\<lparr>ft_end := now\<rparr>) (fun_time_test s1);
          m2 = fun_time_update name (\<lambda>e. e\<lparr>ft_sum := ft_sum e + (ft_end e - ft_begin e)\<rparr>) m1
      in s1\<lparr>fun_time_test := m2\<rparr>)"

section \<open>Invariant\<close>

text \<open>
  The representation invariant of the two maps: keys ascend, an entry sits under its own id,
  ids were handed out already, \<open>_leftsecs\<close> is always the whole interval, and no id is in both
  maps.
\<close>

definition entry_ok :: "'f timer_thread \<Rightarrow> int \<Rightarrow> 'f etimer \<Rightarrow> bool" where
  "entry_ok s k t \<longleftrightarrow> t_timer_id t = k \<and> 0 < k \<and> k \<le> cur_timer_id s \<and>
     t_leftsecs t = t_interval t"

definition tt_inv :: "'f timer_thread \<Rightarrow> bool" where
  "tt_inv s \<longleftrightarrow>
     (\<forall>w. map_wf (timers w s)) \<and>
     (\<forall>w k t. map_find (timers w s) k = Some t \<longrightarrow> entry_ok s k t) \<and>
     (\<forall>w w' k. w \<noteq> w' \<longrightarrow> map_find (timers w s) k \<noteq> None \<longrightarrow> map_find (timers w' s) k = None) \<and>
     0 \<le> cur_timer_id s"

lemma timers_unfold [simp]: "timers Timers1 s = timers1 s" "timers Timers2 s = timers2 s"
  by (simp_all add: timers_def)

lemma tt_inv_wf: "tt_inv s \<Longrightarrow> map_wf (timers w s)"
  by (simp add: tt_inv_def)

lemma tt_inv_entry: "tt_inv s \<Longrightarrow> map_find (timers w s) k = Some t \<Longrightarrow> entry_ok s k t"
  by (auto simp: tt_inv_def)

lemma tt_inv_disjoint:
  "tt_inv s \<Longrightarrow> map_find (timers w s) k = Some t \<Longrightarrow> w' \<noteq> w \<Longrightarrow> map_find (timers w' s) k = None"
  unfolding tt_inv_def by (metis option.distinct(1))

lemma tt_inv_cur: "tt_inv s \<Longrightarrow> 0 \<le> cur_timer_id s"
  by (simp add: tt_inv_def)

lemma entry_ok_mono: "entry_ok s k t \<Longrightarrow> cur_timer_id s \<le> cur_timer_id s' \<Longrightarrow> entry_ok s' k t"
  by (simp add: entry_ok_def)

text \<open>
  The one rule every operation uses: replacing one map by a well-formed one whose entries are
  in order and whose new keys were not handed out before.
\<close>

lemma tt_inv_replace:
  assumes "tt_inv s" and "map_wf m" and "\<And>k t. map_find m k = Some t \<Longrightarrow> entry_ok s' k t"
    and "\<And>k. map_find m k \<noteq> None \<Longrightarrow> map_find (timers w s) k \<noteq> None \<or> cur_timer_id s < k"
    and "cur_timer_id s \<le> cur_timer_id s'"
    and "\<And>v. timers v s' = (if v = w then m else timers v s)"
  shows "tt_inv s'"
  unfolding tt_inv_def
proof (intro conjI allI impI)
  fix v k t
  assume "map_find (timers v s') k = Some t"
  then show "entry_ok s' k t"
    using assms(1,3,5,6) by (auto split: if_splits dest: tt_inv_entry entry_ok_mono)
next
  have out: "cur_timer_id s < k \<Longrightarrow> map_find (timers v s) k = None" for v k
    using tt_inv_entry [OF assms(1), of v k] by (cases "map_find (timers v s) k") (auto simp: entry_ok_def)
  fix v v' :: which_map and k
  assume "v \<noteq> v'" and v: "map_find (timers v s') k \<noteq> None"
  have "map_find (timers v s) k \<noteq> None \<or> cur_timer_id s < k"
    using v assms(4) [of k] assms(6) [of v] by (auto split: if_splits)
  then have none: "map_find (timers v' s) k = None"
    using out [of k v'] tt_inv_disjoint [OF assms(1), of v k _ v'] \<open>v \<noteq> v'\<close> by auto
  show "map_find (timers v' s') k = None"
  proof (rule ccontr)
    assume c: "map_find (timers v' s') k \<noteq> None"
    then have "v' = w" using none assms(6) [of v'] by (auto split: if_splits)
    then have "cur_timer_id s < k" using c none assms(4) [of k] assms(6) [of v'] by auto
    moreover have "map_find (timers v s) k \<noteq> None"
      using v \<open>v' = w\<close> \<open>v \<noteq> v'\<close> assms(6) [of v] by auto
    ultimately show False using out [of k v] by simp
  qed
qed (use assms in \<open>auto simp: tt_inv_wf dest: tt_inv_cur\<close>)
text \<open>
  \<open>tt_ext s s'\<close>: what any sequence of API calls does to the maps. Existing timers stay and are
  at most flagged, new ones get new ids, nothing fires.
\<close>

definition flag_le :: "'f etimer \<Rightarrow> 'f etimer \<Rightarrow> bool" where
  "flag_le t u \<longleftrightarrow> t_interval u = t_interval t \<and> t_leftsecs u = t_leftsecs t \<and>
     t_startclock u = t_startclock t \<and> t_timer_id u = t_timer_id t \<and>
     t_run_once u = t_run_once t \<and> t_fp u = t_fp t \<and> (t_need_delete t \<longrightarrow> t_need_delete u)"

lemma flag_le_simps [simp]: "flag_le t t" "flag_le t (t\<lparr>t_need_delete := True\<rparr>)"
  by (simp_all add: flag_le_def)

lemma flag_le_trans: "flag_le t u \<Longrightarrow> flag_le u v \<Longrightarrow> flag_le t v"
  by (simp add: flag_le_def)

definition tt_ext :: "'f timer_thread \<Rightarrow> 'f timer_thread \<Rightarrow> bool" where
  "tt_ext s s' \<longleftrightarrow>
     cur_timer_id s \<le> cur_timer_id s' \<and> fired s' = fired s \<and>
     (\<forall>w k t. map_find (timers w s) k = Some t \<longrightarrow>
        (\<exists>u. map_find (timers w s') k = Some u \<and> flag_le t u)) \<and>
     (\<forall>w k. map_find (timers w s) k = None \<longrightarrow> map_find (timers w s') k \<noteq> None \<longrightarrow>
        cur_timer_id s < k)"

lemma tt_ext_refl [simp]: "tt_ext s s"
  by (auto simp: tt_ext_def)

lemma tt_ext_cur: "tt_ext s s' \<Longrightarrow> cur_timer_id s \<le> cur_timer_id s'"
  and tt_ext_fired: "tt_ext s s' \<Longrightarrow> fired s' = fired s"
  by (simp_all add: tt_ext_def)

lemma tt_ext_find:
  assumes "tt_ext s s'" and "map_find (timers w s) k = Some t"
  obtains u where "map_find (timers w s') k = Some u" and "flag_le t u"
  using assms unfolding tt_ext_def by blast

lemma tt_ext_new:
  "tt_ext s s' \<Longrightarrow> map_find (timers w s) k = None \<Longrightarrow> map_find (timers w s') k = Some u \<Longrightarrow>
     cur_timer_id s < k"
  unfolding tt_ext_def by (metis option.distinct(1))

lemma tt_ext_trans:
  assumes "tt_ext a b" and "tt_ext b c"
  shows "tt_ext a c"
  unfolding tt_ext_def
proof (intro conjI allI impI)
  fix w k t
  assume "map_find (timers w a) k = Some t"
  with assms(1) obtain u where u: "map_find (timers w b) k = Some u" "flag_le t u"
    by (rule tt_ext_find)
  from assms(2) u(1) obtain v where "map_find (timers w c) k = Some v" "flag_le u v"
    by (rule tt_ext_find)
  with u(2) show "\<exists>v. map_find (timers w c) k = Some v \<and> flag_le t v"
    by (blast intro: flag_le_trans)
next
  fix w k
  assume "map_find (timers w a) k = None" and "map_find (timers w c) k \<noteq> None"
  then show "cur_timer_id a < k"
    using tt_ext_new [OF assms(1), of w k] tt_ext_new [OF assms(2), of w k] tt_ext_cur [OF assms(1)]
    by (cases "map_find (timers w b) k") auto
qed (use tt_ext_cur [OF assms(1)] tt_ext_cur [OF assms(2)]
    tt_ext_fired [OF assms(1)] tt_ext_fired [OF assms(2)] in simp_all)

lemma Register_timer_cases:
  assumes "Register_timer t rounds s = Inr s'"
  obtains w where "s' = set_timers w (map_insert (timers w s) (t_timer_id t) t) s"
  using assms
proof (induction t rounds s rule: Register_timer.induct)
  case (2 t lock2 lock1 rounds s)
  show ?case
  proof (cases "lock2 \<or> lock1")
    case True
    then show ?thesis
      using 2(3) 2(2) [of "if lock2 then Timers2 else Timers1"]
      by (auto simp: set_timers_def split: if_splits)
  next
    case False
    with 2 show ?thesis by simp
  qed
qed simp

text \<open>Both registrations in one form: a timer with a fresh id goes into one of the maps.\<close>

definition fresh_timer :: "int \<Rightarrow> bool \<Rightarrow> u64 \<Rightarrow> 'f option \<Rightarrow> u64 \<Rightarrow> 'f etimer" where
  "fresh_timer i r us fp now =
     \<lparr>t_interval = us, t_leftsecs = us, t_startclock = now, t_timer_id = i,
      t_run_once = r, t_need_delete = False, t_fp = fp\<rparr>"

definition registered ::
    "'f timer_env \<Rightarrow> bool \<Rightarrow> u64 \<Rightarrow> 'f option \<Rightarrow> 'f timer_thread \<Rightarrow> which_map \<Rightarrow> 'f timer_thread" where
  "registered E r us fp s w =
     (let i = cur_timer_id s + 1;
          s2 = s\<lparr>cur_timer_id := i, clock_reads := Suc (clock_reads s)\<rparr>
      in set_timers w
           (map_insert (timers w s) i (fresh_timer i r us fp (clock_at E (clock_reads s)))) s2)"

lemma Register_cases:
  assumes "Register E r i fp s = Inr (tid, s')"
  obtains w where "tid = cur_timer_id s + 1" and "cur_timer_id s < int_max"
    and "s' = registered E r (sec_to_us (word_of_int i)) fp s w"
  using assms
  by (auto simp: Register_def get_clock_def Let_def open_sec_def new_etimer_def registered_def
      fresh_timer_def split: if_splits elim!: Register_timer_cases)

lemma RegisterByMilSec_cases:
  assumes "RegisterByMilSec E r i fp s = Inr (tid, s')"
  obtains w where "tid = cur_timer_id s + 1" and "cur_timer_id s < int_max"
    and "s' = registered E r (milsec_to_us (word_of_int i)) fp s w"
  using assms
  by (auto simp: RegisterByMilSec_def get_clock_def Let_def open_milsec_def new_etimer_def
      registered_def fresh_timer_def split: if_splits elim!: Register_timer_cases)

lemma registered_simps [simp]:
  "cur_timer_id (registered E r us fp s w) = cur_timer_id s + 1"
  "fired (registered E r us fp s w) = fired s"
  "timers w' (registered E r us fp s w) =
     (if w' = w then map_insert (timers w s) (cur_timer_id s + 1)
         (fresh_timer (cur_timer_id s + 1) r us fp (clock_at E (clock_reads s)))
      else timers w' s)"
  by (simp_all add: registered_def Let_def)

text \<open>The next id is in neither map.\<close>

lemma next_id_fresh: "tt_inv s \<Longrightarrow> map_find (timers w s) (cur_timer_id s + 1) = None"
  using tt_inv_entry [of s w "cur_timer_id s + 1"] by (force simp: entry_ok_def)

lemma registered_inv:
  assumes "tt_inv s"
  shows "tt_inv (registered E r us fp s w)"
proof (rule tt_inv_replace [OF assms, where w = w])
  let ?i = "cur_timer_id s + 1"
  let ?m = "map_insert (timers w s) ?i (fresh_timer ?i r us fp (clock_at E (clock_reads s)))"
  show "map_wf ?m" using assms by (simp add: sm.invar_insert tt_inv_wf)
  show "entry_ok (registered E r us fp s w) k t" if "map_find ?m k = Some t" for k t
    using that tt_inv_entry [OF assms, of w k t] tt_inv_cur [OF assms]
    by (auto simp: sm.find_insert tt_inv_wf [OF assms] entry_ok_def fresh_timer_def split: if_splits)
  show "map_find (timers w s) k \<noteq> None \<or> cur_timer_id s < k" if "map_find ?m k \<noteq> None" for k
    using that by (auto simp: sm.find_insert tt_inv_wf [OF assms] split: if_splits)
qed simp_all

lemma registered_ext:
  assumes "tt_inv s"
  shows "tt_ext s (registered E r us fp s w)"
  using assms by (auto simp: tt_ext_def sm.find_insert tt_inv_wf)

lemma UnRegister_cases:
  obtains (flag) w t where "map_find (timers w s) i = Some t"
      and "UnRegister i s =
        set_timers w (map_assign (timers w s) i (t\<lparr>t_need_delete := True\<rparr>)) s"
  | (absent) "UnRegister i s = s" and "\<And>w. map_find (timers w s) i = None"
proof (cases "map_find (timers2 s) i")
  case (Some t)
  then show ?thesis by (intro flag [of Timers2 t]) (simp_all add: UnRegister_def set_timers_def)
next
  case n2: None
  show ?thesis
  proof (cases "map_find (timers1 s) i")
    case (Some t)
    with n2 show ?thesis
      by (intro flag [of Timers1 t]) (simp_all add: UnRegister_def set_timers_def)
  next
    case None
    with n2 show ?thesis by (intro absent) (simp_all add: UnRegister_def timers_def split: which_map.split)
  qed
qed

text \<open>A write of an entry that keeps its id and its interval keeps the invariant.\<close>

lemma assign_inv:
  assumes "tt_inv s" and "entry_ok s k t"
  shows "tt_inv (set_timers w (map_assign (timers w s) k t) s)"
proof (rule tt_inv_replace [OF assms(1), where w = w and m = "map_assign (timers w s) k t"])
  show "entry_ok (set_timers w (map_assign (timers w s) k t) s) j u"
    if "map_find (map_assign (timers w s) k t) j = Some u" for j u
    using that assms tt_inv_entry [OF assms(1), of w j u]
    by (auto simp: map_find_assign entry_ok_def split: if_splits)
qed (use assms in \<open>auto simp: map_find_assign map_wf_assign tt_inv_wf split: if_splits\<close>)

lemma erase_inv:
  assumes "tt_inv s"
  shows "tt_inv (set_timers w (map_erase (timers w s) k) s)"
proof (rule tt_inv_replace [OF assms, where w = w and m = "map_erase (timers w s) k"])
  show "entry_ok (set_timers w (map_erase (timers w s) k) s) j u"
    if "map_find (map_erase (timers w s) k) j = Some u" for j u
    using that tt_inv_entry [OF assms, of w j u]
    by (auto simp: sm.find_erase tt_inv_wf [OF assms] entry_ok_def split: if_splits)
qed (use assms in \<open>auto simp: sm.find_erase map_wf_erase tt_inv_wf split: if_splits\<close>)

lemma UnRegister_inv:
  assumes "tt_inv s"
  shows "tt_inv (UnRegister i s)"
proof (cases i s rule: UnRegister_cases)
  case (flag w t)
  then have "entry_ok s i (t\<lparr>t_need_delete := True\<rparr>)"
    using tt_inv_entry [OF assms] by (fastforce simp: entry_ok_def)
  with flag assms show ?thesis by (simp add: assign_inv)
qed (use assms in simp)

lemma UnRegister_ext:
  assumes "tt_inv s"
  shows "tt_ext s (UnRegister i s)"
proof (cases i s rule: UnRegister_cases)
  case (flag w t)
  with flag assms show ?thesis
    by (auto simp: tt_ext_def sm.find_assign tt_inv_wf)
qed simp

lemma run_api_inv_ext:
  "run_api E cs s = Inr s' \<Longrightarrow> tt_inv s \<Longrightarrow> tt_inv s' \<and> tt_ext s s'"
proof (induction E cs s arbitrary: s' rule: run_api.induct)
  case (2 E r i fp cs s)
  from 2(2) obtain tid s1 where s1: "Register E r i fp s = Inr (tid, s1)" "run_api E cs s1 = Inr s'"
    by auto
  from s1(1) obtain w where "s1 = registered E r (sec_to_us (word_of_int i)) fp s w"
    by (rule Register_cases)
  then have "tt_inv s1" "tt_ext s s1" using 2(3) by (simp_all add: registered_inv registered_ext)
  then show ?case using 2(1) [OF s1(1) refl s1(2)] tt_ext_trans by blast
next
  case (3 E r i fp cs s)
  from 3(2) obtain tid s1 where
      s1: "RegisterByMilSec E r i fp s = Inr (tid, s1)" "run_api E cs s1 = Inr s'"
    by auto
  from s1(1) obtain w where "s1 = registered E r (milsec_to_us (word_of_int i)) fp s w"
    by (rule RegisterByMilSec_cases)
  then have "tt_inv s1" "tt_ext s s1" using 3(3) by (simp_all add: registered_inv registered_ext)
  then show ?case using 3(1) [OF s1(1) refl s1(2)] tt_ext_trans by blast
next
  case (4 E i cs s)
  then have "tt_inv (UnRegister i s)" "tt_ext s (UnRegister i s)"
    by (simp_all add: UnRegister_inv UnRegister_ext)
  then show ?case using 4 tt_ext_trans by fastforce
qed simp_all


section \<open>One round of Update\<close>

definition rearm :: "u64 \<Rightarrow> 'f etimer \<Rightarrow> 'f etimer" where
  "rearm start t = t\<lparr>t_leftsecs := t_interval t, t_startclock := start\<rparr>"

lemma Update_step_cases:
  assumes "Update_step E w k s = Inr (it, s')" and inv: "tt_inv s"
  obtains
    (deleted) t where "map_find (timers w s) k = Some t" and "t_need_delete t"
      and "s' = set_timers w (map_erase (timers w s) k) s" and "it = map_next (timers w s') k"
  | (waiting) t el where "map_find (timers w s) k = Some t" and "\<not> t_need_delete t"
      and "get_interval_macro_secs (clock_freq E) (clock_at E (clock_reads s)) (t_startclock t) = Inr el"
      and "el < t_leftsecs t" and "s' = s\<lparr>clock_reads := Suc (clock_reads s)\<rparr>"
      and "it = map_next (timers w s') k"
  | (firing) t el f s1 s2 u where "map_find (timers w s) k = Some t" and "\<not> t_need_delete t"
      and "get_interval_macro_secs (clock_freq E) (clock_at E (clock_reads s)) (t_startclock t) = Inr el"
      and "t_leftsecs t \<le> el" and "t_fp t = Some f"
      and "s1 = s\<lparr>clock_reads := Suc (clock_reads s)\<rparr>"
      and "run_api E (behaviour E f s1) (s1\<lparr>fired := fired s @ [(k, f)]\<rparr>) = Inr s2"
      and "tt_inv s2" and "tt_ext (s1\<lparr>fired := fired s @ [(k, f)]\<rparr>) s2"
      and "map_find (timers w s2) k = Some u" and "flag_le t u"
      and "s' = set_timers w
             (if t_run_once u then map_erase (timers w s2) k
              else map_assign (timers w s2) k (rearm (clock_at E (clock_reads s2)) u))
             (s2\<lparr>clock_reads := Suc (clock_reads s2)\<rparr>)"
      and "it = map_next (timers w s') k"
proof -
  from assms(1) obtain t where t: "map_find (timers w s) k = Some t"
    by (auto simp: Update_step_def split: option.splits)
  show ?thesis
  proof (cases "t_need_delete t")
    case True
    with assms(1) t deleted [of t] show ?thesis
      by (auto simp: Update_step_def sm.succ_erase tt_inv_wf [OF inv])
  next
    case nd: False
    let ?s1 = "s\<lparr>clock_reads := Suc (clock_reads s)\<rparr>"
    from assms(1) t nd obtain el where
      el: "get_interval_macro_secs (clock_freq E) (clock_at E (clock_reads s)) (t_startclock t) = Inr el"
      by (auto simp: Update_step_def get_clock_def)
    show ?thesis
    proof (cases "t_leftsecs t \<le> el")
      case False
      with assms(1) t nd el waiting [of t el] show ?thesis
        by (auto simp: Update_step_def get_clock_def)
    next
      case due: True
      with assms(1) t nd el obtain f s2 where f: "t_fp t = Some f"
        and s2: "run_api E (behaviour E f ?s1) (?s1\<lparr>fired := fired s @ [(k, f)]\<rparr>) = Inr s2"
        by (auto simp: Update_step_def get_clock_def call_fp_def split: option.splits)
      let ?s1' = "?s1\<lparr>fired := fired s @ [(k, f)]\<rparr>"
      have "tt_inv ?s1'" using inv by (rule tt_inv_replace [where w = w and m = "timers w s"])
          (use inv in \<open>auto simp: tt_inv_wf entry_ok_def dest: tt_inv_entry\<close>)
      with s2 have s2': "tt_inv s2" "tt_ext ?s1' s2"
        using run_api_inv_ext by blast+
      have "map_find (timers w ?s1') k = Some t" using t by simp
      with s2'(2) obtain u where u: "map_find (timers w s2) k = Some u" "flag_le t u"
        by (rule tt_ext_find)
      show ?thesis
        using assms(1) t nd el due f s2 u
        by (intro firing [OF t nd el due f refl s2 s2' u])
          (auto simp: Update_step_def get_clock_def call_fp_def rearm_def map_erase_assign Let_def
            sm.succ_erase sm.succ_assign tt_inv_wf [OF s2'(1)] split: option.splits if_splits)
    qed
  qed
qed

text \<open>The entry the iterator is at, and all the others.\<close>

lemma Update_step_inv:
  assumes "Update_step E w k s = Inr (it, s')" and "tt_inv s"
  shows "tt_inv s'"
  using assms
proof (cases rule: Update_step_cases)
  case (deleted t)
  with assms(2) show ?thesis by (simp add: erase_inv)
next
  case (waiting t el)
  with assms(2) show ?thesis
    by (intro tt_inv_replace [where w = w and m = "timers w s", OF assms(2)])
      (auto simp: tt_inv_wf entry_ok_def dest: tt_inv_entry)
next
  case (firing t el f s1 s2 u)
  let ?s3 = "s2\<lparr>clock_reads := Suc (clock_reads s2)\<rparr>"
  have "tt_inv ?s3" using firing(8)
    by (intro tt_inv_replace [where w = w and m = "timers w s2", OF firing(8)])
      (auto simp: tt_inv_wf entry_ok_def dest: tt_inv_entry)
  moreover have "entry_ok ?s3 k (rearm (clock_at E (clock_reads s2)) u)"
    using tt_inv_entry [OF firing(8,10)] by (simp add: entry_ok_def rearm_def)
  ultimately show ?thesis
    using erase_inv [of ?s3 w k] assign_inv [of ?s3 k _ w] firing(12) by simp
qed

lemma Update_step_next:
  assumes "Update_step E w k s = Inr (it, s')" and "tt_inv s"
  shows "it = map_next (timers w s') k"
  using assms by (cases rule: Update_step_cases) auto

lemma Update_step_cur:
  assumes "Update_step E w k s = Inr (it, s')" and "tt_inv s"
  shows "cur_timer_id s \<le> cur_timer_id s'"
  using assms by (cases rule: Update_step_cases) (auto dest: tt_ext_cur)

lemma Update_step_others:
  assumes "Update_step E w k s = Inr (it, s')" and inv: "tt_inv s"
    and "map_find (timers v s) j = Some t" and "(v, j) \<noteq> (w, k)"
  obtains u where "map_find (timers v s') j = Some u" and "flag_le t u"
  using assms(1,2)
proof (cases rule: Update_step_cases)
  case (deleted t0)
  with assms(3,4) have "map_find (timers v s') j = Some t"
    by (auto simp: sm.find_erase tt_inv_wf [OF inv])
  with that [of t] show ?thesis by simp
next
  case (waiting t0 el)
  with assms(3) that [of t] show ?thesis by simp
next
  case (firing t0 el f s1 s2 u0)
  have "map_find (timers v (s1\<lparr>fired := fired s @ [(k, f)]\<rparr>)) j = Some t"
    using assms(3) firing(6) by simp
  with firing(9) obtain u where "map_find (timers v s2) j = Some u" "flag_le t u"
    by (rule tt_ext_find)
  with firing(12) assms(4) have "map_find (timers v s') j = Some u"
    by (auto simp: sm.find_erase sm.find_assign tt_inv_wf [OF firing(8)])
  with \<open>flag_le t u\<close> that show ?thesis by blast
qed

lemma Update_step_new:
  assumes "Update_step E w k s = Inr (it, s')" and inv: "tt_inv s"
    and "map_find (timers v s) j = None" and "map_find (timers v s') j = Some u"
  shows "cur_timer_id s < j"
  using assms(1,2)
proof (cases rule: Update_step_cases)
  case (firing t0 el f s1 s2 u0)
  have "map_find (timers v s2) j \<noteq> None"
    using assms(4) firing(12)
    by (auto simp: sm.find_erase sm.find_assign tt_inv_wf [OF firing(8)] split: if_splits)
  then show ?thesis
    using tt_ext_new [OF firing(9), of v j] assms(3) firing(6) by auto
qed (use assms in \<open>auto simp: sm.find_erase tt_inv_wf split: if_splits\<close>)

lemma Update_step_fired:
  assumes "Update_step E w k s = Inr (it, s')" and "tt_inv s"
  obtains (none) "fired s' = fired s"
  | (one) t el f where "fired s' = fired s @ [(k, f)]" and "map_find (timers w s) k = Some t"
      and "\<not> t_need_delete t" and "t_fp t = Some f"
      and "get_interval_macro_secs (clock_freq E) (clock_at E (clock_reads s)) (t_startclock t) = Inr el"
      and "t_leftsecs t \<le> el"
  using assms by (cases rule: Update_step_cases) (auto dest!: tt_ext_fired)

lemma Update_step_flagged:
  assumes "Update_step E w k s = Inr (it, s')" and "tt_inv s"
    and "map_find (timers w s) k = Some t" and "t_need_delete t"
  shows "fired s' = fired s" and "map_find (timers w s') k = None"
  using assms by (cases rule: Update_step_cases; simp add: sm.find_erase tt_inv_wf)+

section \<open>The loop\<close>

lemma Update_loop_numeral [simp]:
  "Update_loop E w (numeral n) (Some k) s =
     res_bind (Update_step E w k s) (\<lambda>(it, s'). Update_loop E w (pred_numeral n) it s')"
  by (simp add: numeral_eq_Suc)

text \<open>The rule for the loop: a relation between the iterator and the state that every round
  keeps holds at the end, with the end iterator.\<close>

lemma Update_loop_rule:
  assumes "Update_loop E w fuel it s = Inr s'" and "I it s"
    and "\<And>k s it s'. I (Some k) s \<Longrightarrow> Update_step E w k s = Inr (it, s') \<Longrightarrow> I it s'"
  shows "I None s'"
  using assms(1,2)
proof (induction fuel arbitrary: it s)
  case 0
  then show ?case by (cases it) auto
next
  case (Suc fuel)
  show ?case
  proof (cases it)
    case None
    with Suc.prems show ?thesis by simp
  next
    case (Some k)
    with Suc.prems obtain it1 s1 where s1: "Update_step E w k s = Inr (it1, s1)"
        "Update_loop E w fuel it1 s1 = Inr s'"
      by auto
    then show ?thesis using Suc.IH assms(3) Suc.prems(2) Some by blast
  qed
qed

lemma Update_loop_inv:
  assumes "Update_loop E w fuel it s = Inr s'" and "tt_inv s"
  shows "tt_inv s' \<and> cur_timer_id s \<le> cur_timer_id s'"
  using assms
  by (intro Update_loop_rule [where I = "\<lambda>it s'. tt_inv s' \<and> cur_timer_id s \<le> cur_timer_id s'", OF assms(1)])
    (auto dest: Update_step_inv Update_step_cur)

end
