(* ===== verification/Timer_Update.thy ===== *)
theory Timer_Update
  imports Timer_Engine
begin

text \<open>
  Facts about a whole \<open>Update\<close>: which timers cannot fire, in which order they fire, when the
  loops return, the exact effect with silent callbacks, and a callback that keeps the loop
  going for ever.
\<close>

section \<open>Timers that cannot fire\<close>

text \<open>
  A class of timer ids is mute when every timer under such an id that is in a map satisfies a
  property that flags keep and that rules a firing out.
\<close>

lemma Update_step_absent:
  assumes "Update_step E w k s = Inr (it, s')" and "tt_inv s"
    and "map_find (timers v s) j = None" and "j \<le> cur_timer_id s"
  shows "map_find (timers v s') j = None"
  using Update_step_new [OF assms(1,2,3)] assms(4) by (cases "map_find (timers v s') j") auto

lemma Update_step_at:
  assumes "Update_step E w k s = Inr (it, s')"
  obtains t where "map_find (timers w s) k = Some t"
  using assms by (auto simp: Update_step_def split: option.splits)

definition mute :: "('f etimer \<Rightarrow> bool) \<Rightarrow> int \<Rightarrow> 'f timer_thread \<Rightarrow> bool" where
  "mute P j s \<longleftrightarrow> j \<le> cur_timer_id s \<and> (\<forall>v t. map_find (timers v s) j = Some t \<longrightarrow> P t)"

definition fired_of :: "int \<Rightarrow> 'f timer_thread \<Rightarrow> 'f list" where
  "fired_of j s = map snd (filter (\<lambda>e. fst e = j) (fired s))"

text \<open>Two such properties: being flagged, and an interval no elapsed time can reach.\<close>

definition never_due :: "'f timer_env \<Rightarrow> 'f etimer \<Rightarrow> bool" where
  "never_due E t \<longleftrightarrow> (2 ^ 64 - 1) div unat (clock_freq E) < unat (t_interval t)"

lemma Update_step_flagged_mute:
  assumes st: "Update_step E w k s = Inr (it, s')" and inv: "tt_inv s"
    and m: "mute t_need_delete j s"
  shows "mute t_need_delete j s' \<and> fired_of j s' = fired_of j s"
proof
  show "mute t_need_delete j s'"
    unfolding mute_def
  proof (intro conjI allI impI)
    show "j \<le> cur_timer_id s'" using Update_step_cur [OF st inv] m by (simp add: mute_def)
    fix v u
    assume u: "map_find (timers v s') j = Some u"
    then obtain t where t: "map_find (timers v s) j = Some t"
      using Update_step_absent [OF st inv, of v j] m by (cases "map_find (timers v s) j") (auto simp: mute_def)
    with m have "t_need_delete t" by (auto simp: mute_def)
    then have "(v, j) \<noteq> (w, k)"
      using Update_step_flagged(2) [OF st inv, of t] t u by auto
    from Update_step_others [OF st inv t this] obtain u'
      where "map_find (timers v s') j = Some u'" "flag_le t u'" .
    with u \<open>t_need_delete t\<close> show "t_need_delete u" by (simp add: flag_le_def)
  qed
  show "fired_of j s' = fired_of j s"
    using st inv
  proof (cases rule: Update_step_fired)
    case (one t el f)
    with m have "j \<noteq> k" by (auto simp: mute_def)
    with one(1) show ?thesis by (simp add: fired_of_def)
  qed (simp add: fired_of_def)
qed

lemma Update_loop_flagged_mute:
  assumes "Update_loop E w fuel it s = Inr s'" and "tt_inv s" and "mute t_need_delete j s"
  shows "mute t_need_delete j s' \<and> fired_of j s' = fired_of j s"
proof -
  have "tt_inv s' \<and> mute t_need_delete j s' \<and> fired_of j s' = fired_of j s"
    by (rule Update_loop_rule [OF assms(1)])
      (use assms in \<open>auto dest: Update_step_inv Update_step_flagged_mute\<close>)
  then show ?thesis by simp
qed

text \<open>A flagged timer of the map the loop runs over is gone afterwards.\<close>

lemma Update_loop_removes:
  assumes "Update_loop E w fuel (map_begin (timers w s)) s = Inr s'" and "tt_inv s"
    and "mute t_need_delete j s"
  shows "map_find (timers w s') j = None"
proof -
  let ?I = "\<lambda>it s. tt_inv s \<and> mute t_need_delete j s \<and>
    (map_find (timers w s) j \<noteq> None \<longrightarrow> j \<in> sm.ahead (timers w s) it)"
  have "?I None s'"
  proof (rule Update_loop_rule [OF assms(1)])
    show "?I (map_begin (timers w s)) s"
      using assms(2,3) by (simp add: sm.ahead_first tt_inv_wf)
  next
    fix k s it s'
    assume I: "?I (Some k) s" and st: "Update_step E w k s = Inr (it, s')"
    from I have inv: "tt_inv s" by simp
    have "j \<in> sm.ahead (timers w s') it" if "map_find (timers w s') j \<noteq> None"
    proof -
      from that obtain t where t: "map_find (timers w s) j = Some t"
        using Update_step_absent [OF st inv, of w j] I
        by (cases "map_find (timers w s) j") (auto simp: mute_def)
      with I have "t_need_delete t" "k \<le> j" by (auto simp: mute_def sm.ahead_def)
      then have "k < j"
        using Update_step_flagged(2) [OF st inv, of t] t that by (cases "k = j") auto
      with that show ?thesis
        by (simp add: Update_step_next [OF st inv] sm.ahead_succ tt_inv_wf [OF Update_step_inv [OF st inv]])
    qed
    then show "?I it s'"
      using I Update_step_inv [OF st inv] Update_step_flagged_mute [OF st inv] by simp
  qed
  then show ?thesis by auto
qed

lemma Update_loop_absent:
  assumes "Update_loop E w fuel it s = Inr s'" and "tt_inv s"
    and "map_find (timers v s) j = None" and "j \<le> cur_timer_id s"
  shows "map_find (timers v s') j = None"
proof -
  have "tt_inv s' \<and> map_find (timers v s') j = None \<and> j \<le> cur_timer_id s'"
    by (rule Update_loop_rule [OF assms(1)])
      (use assms in \<open>auto dest: Update_step_inv Update_step_absent Update_step_cur\<close>)
  then show ?thesis by simp
qed

lemma Update_cases:
  assumes "Update E fuel s = Inr s'" and "tt_inv s"
  obtains s1 where "Update_loop E Timers1 fuel (map_begin (timers Timers1 s)) s = Inr s1"
    and "Update_loop E Timers2 fuel (map_begin (timers Timers2 s1)) s1 = Inr s'"
    and "tt_inv s1" and "tt_inv s'" and "cur_timer_id s \<le> cur_timer_id s1"
proof -
  from assms(1) obtain s1 where
      s1: "Update_loop E Timers1 fuel (map_begin (timers Timers1 s)) s = Inr s1"
      "Update_loop E Timers2 fuel (map_begin (timers Timers2 s1)) s1 = Inr s'"
    unfolding Update_def by (rule res_bind_InrE)
  show ?thesis
    using that [OF s1] Update_loop_inv [OF s1(1) assms(2)] Update_loop_inv [OF s1(2)] by simp
qed

text \<open>The never-due version of the same argument.\<close>

lemma Update_step_never_due_mute:
  assumes st: "Update_step E w k s = Inr (it, s')" and inv: "tt_inv s"
    and m: "mute (never_due E) j s"
  shows "mute (never_due E) j s' \<and> fired_of j s' = fired_of j s"
proof
  have nf: "\<not> (\<exists>t el. map_find (timers w s) j = Some t \<and> t_leftsecs t \<le> el \<and>
      get_interval_macro_secs (clock_freq E) (clock_at E (clock_reads s)) (t_startclock t) = Inr el)"
  proof
    assume "\<exists>t el. map_find (timers w s) j = Some t \<and> t_leftsecs t \<le> el \<and>
      get_interval_macro_secs (clock_freq E) (clock_at E (clock_reads s)) (t_startclock t) = Inr el"
    then obtain t el where t: "map_find (timers w s) j = Some t" "t_leftsecs t \<le> el"
      "get_interval_macro_secs (clock_freq E) (clock_at E (clock_reads s)) (t_startclock t) = Inr el"
      by blast
    have "t_leftsecs t = t_interval t" using tt_inv_entry [OF inv t(1)] by (simp add: entry_ok_def)
    moreover have "never_due E t" using m t(1) by (auto simp: mute_def)
    ultimately show False
      using interval_bound_aux [OF t(3)] t(2) by (simp add: never_due_def word_le_nat_alt)
  qed
  show "mute (never_due E) j s'"
    unfolding mute_def
  proof (intro conjI allI impI)
    show "j \<le> cur_timer_id s'" using Update_step_cur [OF st inv] m by (simp add: mute_def)
    fix v u
    assume u: "map_find (timers v s') j = Some u"
    then obtain t where t: "map_find (timers v s) j = Some t"
      using Update_step_absent [OF st inv, of v j] m by (cases "map_find (timers v s) j") (auto simp: mute_def)
    with m have nd: "never_due E t" by (auto simp: mute_def)
    show "never_due E u"
    proof (cases "(v, j) = (w, k)")
      case False
      from Update_step_others [OF st inv t this] obtain u'
        where "map_find (timers v s') j = Some u'" "flag_le t u'" .
      with u nd show ?thesis by (simp add: flag_le_def never_due_def)
    next
      case True
      from st inv show ?thesis
        by (cases rule: Update_step_cases) (use True t u nf nd in \<open>auto simp: sm.find_erase tt_inv_wf [OF inv]\<close>)
    qed
  qed
  show "fired_of j s' = fired_of j s"
    using st inv
  proof (cases rule: Update_step_fired)
    case (one t el f)
    with nf have "j \<noteq> k" by auto
    with one(1) show ?thesis by (simp add: fired_of_def)
  qed (simp add: fired_of_def)
qed

lemma Update_loop_never_due_mute:
  assumes "Update_loop E w fuel it s = Inr s'" and "tt_inv s" and "mute (never_due E) j s"
  shows "mute (never_due E) j s' \<and> fired_of j s' = fired_of j s"
proof -
  have "tt_inv s' \<and> mute (never_due E) j s' \<and> fired_of j s' = fired_of j s"
    by (rule Update_loop_rule [OF assms(1)])
      (use assms in \<open>auto dest: Update_step_inv Update_step_never_due_mute\<close>)
  then show ?thesis by simp
qed


section \<open>Firing order\<close>

text \<open>
  One loop fires in strictly ascending id order, never an id of a given set \<open>J\<close> that its map
  does not hold, and only ids its map (and so not the other one) held.
\<close>

text \<open>
  Between the rounds: the timers fired so far are in ascending order, none of them is in \<open>J\<close>, and
  the iterator is past them.
\<close>

definition order_inv :: "which_map \<Rightarrow> 'f timer_thread \<Rightarrow> int set \<Rightarrow> int option \<Rightarrow> 'f timer_thread \<Rightarrow> bool" where
  "order_inv w s J it u \<longleftrightarrow> tt_inv u \<and> (\<forall>j \<in> J. j \<le> cur_timer_id u \<and> map_find (timers w u) j = None) \<and>
    (\<exists>new. fired u = fired s @ new \<and> sorted_wrt (<) (map fst new) \<and> fst ` set new \<inter> J = {} \<and>
       (\<forall>j \<in> fst ` set new. j \<le> cur_timer_id u \<and> (\<forall>i. it = Some i \<longrightarrow> j < i) \<and>
          (\<forall>v. v \<noteq> w \<longrightarrow> map_find (timers v u) j = None)))"

lemma order_inv_step:
  assumes "order_inv w s J (Some k) u" and st: "Update_step E w k u = Inr (it, u')"
  shows "order_inv w s J it u'"
proof -
  from assms(1) obtain new where inv: "tt_inv u"
    and J: "\<forall>j \<in> J. j \<le> cur_timer_id u \<and> map_find (timers w u) j = None"
    and new: "fired u = fired s @ new" "sorted_wrt (<) (map fst new)" "fst ` set new \<inter> J = {}"
      "\<forall>j \<in> fst ` set new. j \<le> cur_timer_id u \<and> j < k \<and>
         (\<forall>v. v \<noteq> w \<longrightarrow> map_find (timers v u) j = None)"
    by (auto simp: order_inv_def)
  note inv' = Update_step_inv [OF st inv] and cur = Update_step_cur [OF st inv]
  have gt: "k < i" if "it = Some i" for i
    using that Update_step_next [OF st inv] sm.succ_Some [OF tt_inv_wf [OF inv'], of w k i] by simp
  have absent: "j \<le> cur_timer_id u' \<and> map_find (timers v u') j = None"
    if "j \<le> cur_timer_id u" "map_find (timers v u) j = None" for v j
    using Update_step_absent [OF st inv that(2) that(1)] that(1) cur by simp
  obtain t where t: "map_find (timers w u) k = Some t" using st by (rule Update_step_at)
  have k: "k \<le> cur_timer_id u" "k \<notin> J" "\<forall>v. v \<noteq> w \<longrightarrow> map_find (timers v u) k = None"
    using tt_inv_entry [OF inv t] J t tt_inv_disjoint [OF inv t] by (auto simp: entry_ok_def)
  have old: "j \<le> cur_timer_id u' \<and> (\<forall>i. it = Some i \<longrightarrow> j < i) \<and>
      (\<forall>v. v \<noteq> w \<longrightarrow> map_find (timers v u') j = None)" if j: "j \<in> insert k (fst ` set new)" for j
  proof -
    have "j \<le> cur_timer_id u" "j \<le> k" "\<forall>v. v \<noteq> w \<longrightarrow> map_find (timers v u) j = None"
      using j new(4) k by auto
    moreover have "j < i" if "it = Some i" for i
      using gt [OF that] \<open>j \<le> k\<close> by simp
    ultimately show ?thesis using absent cur by (metis order_trans)
  qed
  from st inv show ?thesis
  proof (cases rule: Update_step_fired)
    case none
    then show ?thesis
      using inv' J absent new(1,2,3) old unfolding order_inv_def by (intro conjI exI [of _ new]) auto
  next
    case (one t0 el f)
    let ?new = "new @ [(k, f)]"
    have "sorted_wrt (<) (map fst ?new)"
      using new(2,4) by (auto simp: sorted_wrt_append)
    moreover have "fst ` set ?new \<inter> J = {}" using new(3) k(2) by auto
    moreover have "\<forall>j \<in> fst ` set ?new. j \<le> cur_timer_id u' \<and> (\<forall>i. it = Some i \<longrightarrow> j < i) \<and>
        (\<forall>v. v \<noteq> w \<longrightarrow> map_find (timers v u') j = None)"
      using old by simp
    ultimately show ?thesis
      using inv' J absent one(1) new(1) unfolding order_inv_def by (intro conjI exI [of _ ?new]) auto
  qed
qed

lemma Update_loop_order:
  assumes "Update_loop E w fuel (map_begin (timers w s)) s = Inr s'" and "tt_inv s"
    and "\<forall>j \<in> J. j \<le> cur_timer_id s \<and> map_find (timers w s) j = None"
  obtains new where "fired s' = fired s @ new" and "sorted_wrt (<) (map fst new)"
    and "fst ` set new \<inter> J = {}"
    and "\<forall>j \<in> fst ` set new. j \<le> cur_timer_id s' \<and> (\<forall>v. v \<noteq> w \<longrightarrow> map_find (timers v s') j = None)"
proof -
  have "order_inv w s J None s'"
  proof (rule Update_loop_rule [OF assms(1)])
    show "order_inv w s J (map_begin (timers w s)) s" using assms(2,3) by (auto simp: order_inv_def)
  qed (rule order_inv_step)
  then show ?thesis using that by (auto simp: order_inv_def)
qed

section \<open>Termination\<close>

text \<open>Callbacks that register nothing; callbacks that can be called.\<close>

definition is_unregister :: "'f api \<Rightarrow> bool" where
  "is_unregister c \<longleftrightarrow> (case c of Api_UnRegister _ \<Rightarrow> True | _ \<Rightarrow> False)"

definition no_registration :: "'f timer_env \<Rightarrow> bool" where
  "no_registration E \<longleftrightarrow> (\<forall>f s. list_all is_unregister (behaviour E f s))"

definition callable :: "'f timer_thread \<Rightarrow> bool" where
  "callable s \<longleftrightarrow> (\<forall>w k t. map_find (timers w s) k = Some t \<longrightarrow> t_fp t \<noteq> None)"

lemma callable_fp:
  assumes "callable s" and "map_find (timers w s) k = Some t"
  obtains f where "t_fp t = Some f"
  using assms unfolding callable_def by (cases "t_fp t") blast+

lemma UnRegister_dom: "map_find (timers v (UnRegister i s)) j = None \<longleftrightarrow> map_find (timers v s) j = None"
  by (cases i s rule: UnRegister_cases) (auto simp: map_find_assign)

lemma run_api_unregister:
  "list_all is_unregister cs \<Longrightarrow>
     \<exists>s'. run_api E cs s = Inr s' \<and>
       (\<forall>v j. map_find (timers v s') j = None \<longleftrightarrow> map_find (timers v s) j = None)"
proof (induction E cs s rule: run_api.induct)
  case (4 E i cs s)
  then show ?case by (simp add: UnRegister_dom)
qed (simp_all add: is_unregister_def)

lemma Update_step_total:
  assumes E: "no_registration E" "clock_freq E \<noteq> 0" and inv: "tt_inv s" and c: "callable s"
    and t: "map_find (timers w s) k = Some t"
  obtains it s' where "Update_step E w k s = Inr (it, s')"
    and "\<forall>v j. map_find (timers v s) j = None \<longrightarrow> map_find (timers v s') j = None"
    and "callable s'"
proof -
  let ?s1 = "s\<lparr>clock_reads := Suc (clock_reads s)\<rparr>"
  let ?el = "(clock_at E (clock_reads s) - t_startclock t) * 1000000 div clock_freq E"
  from c t obtain f where f: "t_fp t = Some f" by (rule callable_fp)
  have "list_all is_unregister (behaviour E f ?s1)" using E(1) by (simp add: no_registration_def)
  then obtain s2 where s2: "run_api E (behaviour E f ?s1) (?s1\<lparr>fired := fired s @ [(k, f)]\<rparr>) = Inr s2"
    and dom: "\<forall>v j. map_find (timers v s2) j = None \<longleftrightarrow> map_find (timers v s) j = None"
    using run_api_unregister [of "behaviour E f ?s1" E "?s1\<lparr>fired := fired s @ [(k, f)]\<rparr>"] by auto
  have "\<exists>it s'. Update_step E w k s = Inr (it, s')"
    using dom t f s2 E(2)
    by (auto simp: Update_step_def get_clock_def call_fp_def get_interval_macro_secs_def Let_def
        split: option.splits)
  then obtain it s' where st: "Update_step E w k s = Inr (it, s')" by blast
  have absent: "map_find (timers v s') j = None" if "map_find (timers v s) j = None" for v j
    using st inv
  proof (cases rule: Update_step_cases)
    case (firing t' el f' s1 s2' u)
    then have "s2' = s2" using s2 t f by simp
    with firing(12) that dom show ?thesis
      by (auto simp: map_find_assign map_find_erase_None)
  qed (use that in \<open>auto simp: map_find_erase_None\<close>)
  have "callable s'"
    unfolding callable_def
  proof (intro allI impI)
    fix v j u
    assume u: "map_find (timers v s') j = Some u"
    then obtain t0 where t0: "map_find (timers v s) j = Some t0" using absent by fastforce
    show "t_fp u \<noteq> None"
    proof (cases "(v, j) = (w, k)")
      case False
      from Update_step_others [OF st inv t0 this] obtain u'
        where "map_find (timers v s') j = Some u'" "flag_le t0 u'" .
      with u c t0 show ?thesis by (fastforce simp: flag_le_def callable_def)
    next
      case True
      from st inv show ?thesis
      proof (cases rule: Update_step_cases)
        case (firing t' el f' s1 s2' u0)
        with True t u show ?thesis
          by (auto simp: map_find_assign sm.find_erase tt_inv_wf [OF firing(8)] rearm_def
              flag_le_def split: if_splits)
      qed (use True u t0 c in \<open>auto simp: sm.find_erase tt_inv_wf [OF inv] callable_def\<close>)
    qed
  qed
  with st absent that show ?thesis by blast
qed

lemma Update_loop_total:
  assumes E: "no_registration E" "clock_freq E \<noteq> 0"
  shows "tt_inv s \<Longrightarrow> callable s \<Longrightarrow> (\<forall>k. it = Some k \<longrightarrow> map_find (timers w s) k \<noteq> None) \<Longrightarrow>
     card (sm.ahead (timers w s) it) \<le> fuel \<Longrightarrow>
     \<exists>s'. Update_loop E w fuel it s = Inr s' \<and> callable s' \<and>
       (\<forall>v j. map_find (timers v s) j = None \<longrightarrow> map_find (timers v s') j = None)"
proof (induction fuel arbitrary: it s)
  case 0
  then have "sm.ahead (timers w s) it = {}"
    using sm.finite_ahead [OF tt_inv_wf] by (metis card_eq_0_iff le_zero_eq)
  with 0(3) have "it = None" by (cases it) (force simp: sm.ahead_def)+
  with 0 show ?case by simp
next
  case (Suc fuel)
  show ?case
  proof (cases it)
    case None
    with Suc.prems show ?thesis by simp
  next
    case (Some k)
    with Suc.prems(3) obtain t where t: "map_find (timers w s) k = Some t" by auto
    obtain it' s1 where
      st: "Update_step E w k s = Inr (it', s1)"
      and dom: "\<forall>v j. map_find (timers v s) j = None \<longrightarrow> map_find (timers v s1) j = None"
      and c: "callable s1"
      by (rule Update_step_total [OF E Suc.prems(1,2) t])
    note inv1 = Update_step_inv [OF st Suc.prems(1)]
    note it' = Update_step_next [OF st Suc.prems(1)]
    have "sm.ahead (timers w s1) it' \<subset> sm.ahead (timers w s) it"
      using t dom unfolding it' sm.ahead_succ [OF tt_inv_wf [OF inv1]] Some
      by (fastforce simp: sm.ahead_def)
    then have "card (sm.ahead (timers w s1) it') \<le> fuel"
      using psubset_card_mono [OF sm.finite_ahead [OF tt_inv_wf [OF Suc.prems(1)]]] Suc.prems(4)
      by (meson Suc_leI le_trans less_Suc_eq_le order_less_le_trans)
    moreover have "\<forall>j. it' = Some j \<longrightarrow> map_find (timers w s1) j \<noteq> None"
      using sm.succ_Some [OF tt_inv_wf [OF inv1]] unfolding it' by blast
    ultimately obtain s' where "Update_loop E w fuel it' s1 = Inr s'" "callable s'"
      "\<forall>v j. map_find (timers v s1) j = None \<longrightarrow> map_find (timers v s') j = None"
      using Suc.IH [OF inv1 c] by blast
    then show ?thesis using st dom Some by auto
  qed
qed

lemma card_dom_length:
  assumes "map_wf m"
  shows "card {k. map_find m k \<noteq> None} = length m"
proof -
  have "distinct (map_keys m)" using assms by (simp add: map_wf_def sorted_wrt_less_distinct)
  then have "card (set (map_keys m)) = length (map_keys m)" by (rule distinct_card)
  moreover have "length (map_keys m) = length m" by (simp add: map_keys_def)
  moreover have "{k. map_find m k \<noteq> None} = set (map_keys m)" by (auto simp: map_find_None_iff)
  ultimately show ?thesis by (simp only:)
qed

lemma Update_total:
  assumes E: "no_registration E" "clock_freq E \<noteq> 0" and inv: "tt_inv s" and c: "callable s"
    and fuel: "length (timers1 s) \<le> fuel" "length (timers2 s) \<le> fuel"
  shows "\<exists>s'. Update E fuel s = Inr s' \<and> callable s'"
proof -
  have start: "\<forall>k. map_begin (timers w u) = Some k \<longrightarrow> map_find (timers w u) k \<noteq> None"
    if "tt_inv u" for w u
    using sm.first_Some [OF tt_inv_wf [OF that]] by blast
  have card1: "card (sm.ahead (timers Timers1 s) (map_begin (timers Timers1 s))) \<le> fuel"
    using fuel(1) by (simp only: sm.ahead_first [OF tt_inv_wf [OF inv]] card_dom_length [OF tt_inv_wf [OF inv]]) simp
  from Update_loop_total [OF E inv c start [OF inv] card1] obtain s1 where
    s1: "Update_loop E Timers1 fuel (map_begin (timers Timers1 s)) s = Inr s1" "callable s1"
    and dom: "\<forall>v j. map_find (timers v s) j = None \<longrightarrow> map_find (timers v s1) j = None"
    by blast
  have inv1: "tt_inv s1" using Update_loop_inv [OF s1(1) inv] by simp
  have "{k. map_find (timers Timers2 s1) k \<noteq> None} \<subseteq> {k. map_find (timers Timers2 s) k \<noteq> None}"
    by (intro Collect_mono impI notI) (drule dom [rule_format], simp)
  then have "card {k. map_find (timers Timers2 s1) k \<noteq> None} \<le> card {k. map_find (timers Timers2 s) k \<noteq> None}"
    by (rule card_mono [OF sm.finite_dom [OF tt_inv_wf [OF inv]]])
  then have card2: "card (sm.ahead (timers Timers2 s1) (map_begin (timers Timers2 s1))) \<le> fuel"
    using fuel(2)
    by (simp only: sm.ahead_first [OF tt_inv_wf [OF inv1]] card_dom_length [OF tt_inv_wf [OF inv]]) simp
  from Update_loop_total [OF E inv1 s1(2) start [OF inv1] card2] obtain s2 where
    "Update_loop E Timers2 fuel (map_begin (timers Timers2 s1)) s1 = Inr s2" "callable s2"
    by blast
  then show ?thesis unfolding Update_def using s1(1) by simp
qed


section \<open>What one Update does\<close>

text \<open>
  The specification of one \<open>Update\<close> at clock \<open>c\<close> when the callbacks leave the engine alone:
  flagged timers go, due ones fire in id order and are re-armed at \<open>c\<close> or, if they run once,
  go too.
\<close>

definition elapsed :: "u64 \<Rightarrow> u64 \<Rightarrow> 'f etimer \<Rightarrow> u64" where
  "elapsed freq c t = (c - t_startclock t) * 1000000 div freq"

definition due :: "u64 \<Rightarrow> u64 \<Rightarrow> 'f etimer \<Rightarrow> bool" where
  "due freq c t \<longleftrightarrow> \<not> t_need_delete t \<and> t_leftsecs t \<le> elapsed freq c t"

definition survives :: "u64 \<Rightarrow> u64 \<Rightarrow> 'f etimer \<Rightarrow> bool" where
  "survives freq c t \<longleftrightarrow> \<not> t_need_delete t \<and> \<not> (due freq c t \<and> t_run_once t)"

definition updated_map :: "u64 \<Rightarrow> u64 \<Rightarrow> (int, 'f etimer) smap \<Rightarrow> (int, 'f etimer) smap" where
  "updated_map freq c m =
     map (\<lambda>(k, t). (k, if due freq c t then rearm c t else t))
       (filter (\<lambda>(k, t). survives freq c t) m)"

definition firing_list :: "u64 \<Rightarrow> u64 \<Rightarrow> (int, 'f etimer) smap \<Rightarrow> (int \<times> 'f) list" where
  "firing_list freq c m = map (\<lambda>(k, t). (k, the (t_fp t))) (filter (\<lambda>(k, t). due freq c t) m)"

text \<open>A map split at the iterator.\<close>

lemma map_find_mid: "k \<notin> set (map_keys A) \<Longrightarrow> map_find (A @ (k, t) # B) k = Some t"
  by (induction A) auto

lemma map_erase_mid: "k \<notin> set (map_keys A) \<Longrightarrow> map_erase (A @ (k, t) # B) k = A @ B"
  by (induction A) auto

lemma map_assign_mid: "k \<notin> set (map_keys A) \<Longrightarrow> map_assign (A @ (k, t) # B) k u = A @ (k, u) # B"
  by (induction A) auto

lemma map_next_at_begin: "\<forall>i \<in> set (map_keys B). k < i \<Longrightarrow> map_next B k = map_begin B"
  by (cases B rule: map_begin.cases) auto

lemma map_keys_append [simp]: "map_keys (A @ B) = map_keys A @ map_keys B"
  by (simp add: map_keys_def)

lemma map_next_mid:
  "\<forall>i \<in> set (map_keys A). i \<le> k \<Longrightarrow> \<forall>i \<in> set (map_keys B). k < i \<Longrightarrow> map_next (A @ B) k = map_begin B"
  by (induction A) (auto intro: map_next_at_begin)

lemma updated_map_append: "updated_map freq c (A @ B) = updated_map freq c A @ updated_map freq c B"
  by (simp add: updated_map_def)

lemma updated_map_keys: "set (map_keys (updated_map freq c A)) \<subseteq> set (map_keys A)"
  by (induction A) (auto simp: updated_map_def)

lemma rearm_run_once [simp]: "t_run_once (rearm c t) = t_run_once t"
  by (simp add: rearm_def)

lemma updated_map_callable:
  assumes "\<forall>k t. map_find m k = Some t \<longrightarrow> t_fp t \<noteq> None" and "map_wf m"
  shows "\<forall>k u. map_find (updated_map freq c m) k = Some u \<longrightarrow> t_fp u \<noteq> None"
proof (intro allI impI)
  fix k u
  assume "map_find (updated_map freq c m) k = Some u"
  then have "(k, u) \<in> set (updated_map freq c m)" by (rule map_find_in_set)
  then obtain t where "(k, t) \<in> set m" "t_fp u = t_fp t"
    by (auto simp: updated_map_def rearm_def split: if_splits)
  then show "t_fp u \<noteq> None" using assms(1) map_find_of_set [OF assms(2)] by metis
qed

text \<open>One round at the split.\<close>

definition silent :: "'f timer_env \<Rightarrow> bool" where
  "silent E \<longleftrightarrow> (\<forall>f s. behaviour E f s = [])"

lemma Update_step_split:
  assumes E: "silent E" "\<forall>n \<ge> clock_reads s. clock_at E n = c" "clock_freq E \<noteq> 0"
    and m: "timers w s = A @ (k, t) # B" and A: "\<forall>i \<in> set (map_keys A). i < k"
    and B: "\<forall>i \<in> set (map_keys B). k < i" and f: "t_fp t \<noteq> None"
    and st: "Update_step E w k s = Inr (it, s')"
  shows "it = map_begin B"
    and "timers w s' = A @ updated_map (clock_freq E) c [(k, t)] @ B"
    and "fired s' = fired s @ firing_list (clock_freq E) c [(k, t)]"
    and "v \<noteq> w \<Longrightarrow> timers v s' = timers v s"
    and "clock_reads s \<le> clock_reads s'"
proof -
  have c: "clock_at E (clock_reads s) = c" "clock_at E (Suc (clock_reads s)) = c" using E(2) by simp_all
  have k: "k \<notin> set (map_keys A)" using A by auto
  have A': "\<forall>i \<in> set (map_keys A). i \<le> k" using A by auto
  have B': "map_next ((k, u) # B) k = map_begin B" for u using B by (simp add: map_next_at_begin)
  have n1: "map_next (A @ (k, u) # B) k = map_begin B" for u
    using map_next_mid [of "A @ [(k, u)]" k B] A' B by auto
  obtain g where g: "t_fp t = Some g" using f by auto
  note unfold = Update_step_def get_clock_def call_fp_def get_interval_macro_secs_def Let_def
    m g c E(3) silent_def [THEN iffD1, OF E(1), rule_format] map_find_mid [OF k] map_erase_mid [OF k]
    map_assign_mid [OF k] n1 rearm_def [symmetric] elapsed_def
  show "it = map_begin B"
    and "timers w s' = A @ updated_map (clock_freq E) c [(k, t)] @ B"
    and "fired s' = fired s @ firing_list (clock_freq E) c [(k, t)]"
    and "v \<noteq> w \<Longrightarrow> timers v s' = timers v s"
    and "clock_reads s \<le> clock_reads s'"
    using st
    by (auto simp: unfold updated_map_def firing_list_def survives_def due_def split: if_splits)
qed

lemma Update_loop_silent:
  assumes E: "silent E" "\<forall>n \<ge> clock_reads s. clock_at E n = c" "clock_freq E \<noteq> 0"
    and inv: "tt_inv s" and call: "callable s"
    and run: "Update_loop E w fuel (map_begin (timers w s)) s = Inr s'"
  shows "timers w s' = updated_map (clock_freq E) c (timers w s)"
    and "fired s' = fired s @ firing_list (clock_freq E) c (timers w s)"
    and "\<forall>v. v \<noteq> w \<longrightarrow> timers v s' = timers v s"
    and "clock_reads s \<le> clock_reads s'"
proof -
  let ?f = "clock_freq E"
  let ?I = "\<lambda>it u. \<exists>pre post. timers w s = pre @ post \<and> timers w u = updated_map ?f c pre @ post \<and>
    it = map_begin post \<and> fired u = fired s @ firing_list ?f c pre \<and> clock_reads s \<le> clock_reads u \<and>
    (\<forall>v. v \<noteq> w \<longrightarrow> timers v u = timers v s)"
  have "?I None s'"
  proof (rule Update_loop_rule [OF run])
    show "?I (map_begin (timers w s)) s"
      by (intro exI [of _ "[]"] exI [of _ "timers w s"]) (simp add: updated_map_def firing_list_def)
  next
    fix k u it u'
    assume "?I (Some k) u" and st: "Update_step E w k u = Inr (it, u')"
    then obtain pre post where I: "timers w s = pre @ post" "timers w u = updated_map ?f c pre @ post"
      "map_begin post = Some k" "fired u = fired s @ firing_list ?f c pre" "clock_reads s \<le> clock_reads u"
      "\<forall>v. v \<noteq> w \<longrightarrow> timers v u = timers v s"
      by auto
    then obtain t B where post: "post = (k, t) # B" by (cases post rule: map_begin.cases) auto
    have "map_wf (pre @ (k, t) # B)" using tt_inv_wf [OF inv, of w] I(1) post by simp
    then have pre: "\<forall>i \<in> set (map_keys pre). i < k" and B: "\<forall>i \<in> set (map_keys B). k < i"
      by (auto simp: map_wf_def sorted_wrt_append)
    have "map_find (timers w s) k = Some t"
      using pre I(1) post by (auto simp: map_find_mid)
    then have f: "t_fp t \<noteq> None" using call by (auto simp: callable_def)
    have A: "\<forall>i \<in> set (map_keys (updated_map ?f c pre)). i < k"
      using pre updated_map_keys by blast
    have m: "timers w u = updated_map ?f c pre @ (k, t) # B" using I(2) post by simp
    have "\<forall>n \<ge> clock_reads u. clock_at E n = c" using E(2) I(5) by simp
    note step = Update_step_split [OF E(1) this E(3) m A B f st]
    show "?I it u'"
      by (intro exI [of _ "pre @ [(k, t)]"] exI [of _ B])
        (use step I post in \<open>simp add: updated_map_append firing_list_def\<close>)
  qed
  then obtain pre post where "timers w s = pre @ post" "timers w s' = updated_map ?f c pre @ post"
      "map_begin post = None" "fired s' = fired s @ firing_list ?f c pre" "clock_reads s \<le> clock_reads s'"
      "\<forall>v. v \<noteq> w \<longrightarrow> timers v s' = timers v s"
    by auto
  moreover from this have "post = []" by (cases post rule: map_begin.cases) auto
  ultimately show "timers w s' = updated_map ?f c (timers w s)"
    and "fired s' = fired s @ firing_list ?f c (timers w s)"
    and "\<forall>v. v \<noteq> w \<longrightarrow> timers v s' = timers v s"
    and "clock_reads s \<le> clock_reads s'"
    by simp_all
qed

section \<open>Runaway registration\<close>

text \<open>A second map whose timers are all due at once, by their zero interval, and whose callback
  registers one more of the same kind.\<close>

definition runaway :: "'f \<Rightarrow> 'f timer_thread \<Rightarrow> bool" where
  "runaway f s \<longleftrightarrow> (\<forall>k t. map_find (timers2 s) k = Some t \<longrightarrow>
     \<not> t_need_delete t \<and> t_interval t = 0 \<and> t_fp t = Some f)"

lemma Register_lock2:
  assumes "Register E r i fp s = Inr (tid, s')" and "\<exists>l ls. try_locks E (cur_timer_id s + 1) = (True, l) # ls"
  shows "tid = cur_timer_id s + 1" and "s' = registered E r (sec_to_us (word_of_int i)) fp s Timers2"
  using assms
  by (auto simp: Register_def get_clock_def Let_def open_sec_def new_etimer_def registered_def
      fresh_timer_def set_timers_def split: if_splits)

lemma registered_runaway:
  assumes "runaway f s" and "tt_inv s"
  shows "runaway f (registered E r 0 (Some f) s Timers2)"
  using assms sm.invar_insert tt_inv_wf [OF assms(2), of Timers2]
  by (auto simp: runaway_def sm.find_insert fresh_timer_def
      simp flip: timers_unfold split: if_splits)

lemma Update_step_runaway:
  assumes E: "\<forall>s. behaviour E f s = [Api_Register r 0 (Some f)]"
    "\<forall>i. \<exists>l ls. try_locks E i = (True, l) # ls"
    and inv: "tt_inv s" and ra: "runaway f s"
    and st: "Update_step E Timers2 k s = Inr (it, s')"
  shows "runaway f s'" and "it \<noteq> None"
proof -
  have zero: "t_leftsecs t = 0" if "map_find (timers2 s) k = Some t" for t
    using ra tt_inv_entry [OF inv, of Timers2 k t] that by (auto simp: runaway_def entry_ok_def)
  have "runaway f s' \<and> it \<noteq> None"
    using st inv
  proof (cases rule: Update_step_cases)
    case (firing t el g s1 s2 u)
    let ?s1 = "s1\<lparr>fired := fired s @ [(k, g)]\<rparr>"
    from firing(1,5) ra have "g = f" by (auto simp: runaway_def)
    have inv1: "tt_inv ?s1"
      by (rule tt_inv_replace [OF inv, where w = Timers2 and m = "timers2 s"])
        (use inv firing(6) tt_inv_wf [OF inv, of Timers2] tt_inv_entry [OF inv, of Timers2]
         in \<open>auto simp: entry_ok_def\<close>)
    have ra1: "runaway f ?s1" using ra firing(6) by (simp add: runaway_def)
    obtain tid where "Register E r 0 (Some f) ?s1 = Inr (tid, s2)"
      using firing(7) E(1) \<open>g = f\<close> by auto
    then have s2: "s2 = registered E r 0 (Some f) ?s1 Timers2"
      using Register_lock2(2) [of E r 0 "Some f" ?s1 tid s2] E(2) by (simp add: sec_to_us_def)
    have ra2: "runaway f s2" unfolding s2 by (rule registered_runaway [OF ra1 inv1])
    have wf2: "map_wf (timers2 s2)" using tt_inv_wf [OF firing(8), of Timers2] by simp
    have "runaway f s'"
      using ra2 firing(10,12)
      by (auto simp: runaway_def rearm_def map_find_assign sm.find_erase [OF wf2]
          set_timers_def split: if_splits)
    moreover have "map_find (timers2 s') (cur_timer_id s + 1) \<noteq> None"
    proof -
      have "k \<le> cur_timer_id s" using tt_inv_entry [OF inv firing(1)] by (simp add: entry_ok_def)
      moreover have "map_find (timers2 s2) (cur_timer_id s + 1) \<noteq> None"
        unfolding s2 using firing(6) inv1 tt_inv_wf [OF inv1, of Timers2]
        by (simp add: sm.find_insert flip: timers_unfold)
      ultimately show ?thesis
        using firing(12) tt_inv_wf [OF firing(8), of Timers2]
        by (auto simp: map_find_assign sm.find_erase set_timers_def)
    qed
    moreover have "k \<le> cur_timer_id s" using tt_inv_entry [OF inv firing(1)] by (simp add: entry_ok_def)
    ultimately show ?thesis
      using firing(13) sm.succ_None [OF tt_inv_wf [OF Update_step_inv [OF st inv]], of Timers2 k]
      by (auto intro: exI [of _ "cur_timer_id s + 1"])
  qed (use ra zero in \<open>auto simp: runaway_def\<close>)
  then show "runaway f s'" and "it \<noteq> None" by simp_all
qed

lemma Update_loop_runaway:
  assumes E: "\<forall>s. behaviour E f s = [Api_Register r 0 (Some f)]"
    "\<forall>i. \<exists>l ls. try_locks E i = (True, l) # ls"
    and "tt_inv s" and "runaway f s" and "timers2 s \<noteq> []"
  shows "Update_loop E Timers2 fuel (map_begin (timers Timers2 s)) s \<noteq> Inr s'"
proof
  assume run: "Update_loop E Timers2 fuel (map_begin (timers Timers2 s)) s = Inr s'"
  have "tt_inv s' \<and> runaway f s' \<and> None \<noteq> (None :: int option)"
  proof (rule Update_loop_rule [OF run, where I = "\<lambda>it u. tt_inv u \<and> runaway f u \<and> it \<noteq> None"])
    show "tt_inv s \<and> runaway f s \<and> map_begin (timers Timers2 s) \<noteq> None"
      using assms(3-5) by (cases "timers2 s" rule: map_begin.cases) auto
  next
    fix k u it u'
    assume I: "tt_inv u \<and> runaway f u \<and> Some k \<noteq> None"
      and st: "Update_step E Timers2 k u = Inr (it, u')"
    show "tt_inv u' \<and> runaway f u' \<and> it \<noteq> None"
      using I Update_step_inv [OF st] Update_step_runaway [OF E _ _ st] by blast
  qed
  then show False by simp
qed

section \<open>Function timings\<close>

lemma fun_time_update_wf: "map_wf m \<Longrightarrow> map_wf (fun_time_update name f m)"
  by (auto simp: fun_time_update_def fun_time_index_def Let_def sm.invar_insert sm.invar_assign
      split: option.split)

lemma fun_time_update_find:
  assumes "map_wf m"
  shows "map_find (fun_time_update name f m) other =
    (if other = name
     then Some (f (case map_find m name of None \<Rightarrow> \<lparr>ft_begin = 0, ft_end = 0, ft_sum = 0\<rparr> | Some e \<Rightarrow> e))
     else map_find m other)"
  using assms
  by (auto simp: fun_time_update_def fun_time_index_def Let_def sm.find_insert map_find_assign
      split: option.split)

end
