(* ===== verification/Timer_Calls.thy ===== *)
theory Timer_Calls
  imports Timer_Update
begin

text \<open>
  \<open>Register\<close>, \<open>RegisterByMilSec\<close> and \<open>UnRegister\<close> in steps, for threads that run them side by side.
  A section under a mutex is one step, and so is a \<open>try_lock\<close> that fails. The increment of
  \<open>_cur_timer_id\<close>, a plain \<open>int\<close> that no mutex guards, is one step, or, as the machine does it,
  a read and a write (\<open>read_counter\<close> and the next step).
\<close>

section \<open>The steps of a call\<close>

text \<open>
  Outside; the counter has been read for the increment; the timer has its id; it is complete
  and tries the second map, or the first; it is in and the counter is about to be read again, to
  be returned; the call has returned, with the id of the timer and the value returned; in
  \<open>UnRegister\<close>, past the second map.
\<close>

datatype 'f call_pc =
    K_Out
  | K_Read int bool u64 "'f option"
  | K_Id int bool u64 "'f option"
  | K_Try2 "'f etimer"
  | K_Try1 "'f etimer"
  | K_Inserted int
  | K_Returned int int
  | K_UnRegister1 int

definition outside :: "'f call_pc \<Rightarrow> bool" where
  "outside p = (case p of K_Out \<Rightarrow> True | K_Returned _ _ \<Rightarrow> True | _ \<Rightarrow> False)"

definition count_up :: "int \<Rightarrow> bool \<Rightarrow> u64 \<Rightarrow> 'f option \<Rightarrow> 'f timer_thread \<Rightarrow> ('f call_pc \<times> 'f timer_thread) res" where
  "count_up n r us fp e =
     (if n \<ge> int_max then Inl Signed_Overflow
      else Inr (K_Id (n + 1) r us fp, e\<lparr>cur_timer_id := n + 1\<rparr>))"

definition try_insert :: "which_map \<Rightarrow> bool \<Rightarrow> 'f etimer \<Rightarrow> 'f call_pc \<Rightarrow> 'f timer_thread \<Rightarrow> 'f call_pc \<times> 'f timer_thread" where
  "try_insert w locked t otherwise e =
     (if locked
      then (K_Inserted (t_timer_id t), set_timers w (map_insert (timers w e) (t_timer_id t) t) e)
      else (otherwise, e))"

definition flag_in :: "which_map \<Rightarrow> int \<Rightarrow> 'f call_pc \<Rightarrow> 'f timer_thread \<Rightarrow> 'f call_pc \<times> 'f timer_thread" where
  "flag_in w i otherwise e =
     (case map_find (timers w e) i of
        None \<Rightarrow> (otherwise, e)
      | Some t \<Rightarrow> (K_Out, set_timers w (map_assign (timers w e) i (t\<lparr>t_need_delete := True\<rparr>)) e))"

text \<open>
  \<open>held w\<close> says that another thread holds the mutex of the map \<open>w\<close>. A thread that waits for it
  stays at its place \<open>p\<close>.
\<close>

definition begin_call :: "(which_map \<Rightarrow> bool) \<Rightarrow> 'f api \<Rightarrow> 'f call_pc \<Rightarrow> 'f timer_thread \<Rightarrow> ('f call_pc \<times> 'f timer_thread) res" where
  "begin_call held c p e =
     (case c of
        Api_Register r i fp \<Rightarrow> count_up (cur_timer_id e) r (sec_to_us (word_of_int i)) fp e
      | Api_RegisterByMilSec r i fp \<Rightarrow> count_up (cur_timer_id e) r (milsec_to_us (word_of_int i)) fp e
      | Api_UnRegister i \<Rightarrow> Inr (if held Timers2 then (p, e) else flag_in Timers2 i (K_UnRegister1 i) e))"

definition read_counter :: "'f api \<Rightarrow> 'f call_pc \<Rightarrow> 'f timer_thread \<Rightarrow> 'f call_pc" where
  "read_counter c p e =
     (case c of
        Api_Register r i fp \<Rightarrow> K_Read (cur_timer_id e) r (sec_to_us (word_of_int i)) fp
      | Api_RegisterByMilSec r i fp \<Rightarrow> K_Read (cur_timer_id e) r (milsec_to_us (word_of_int i)) fp
      | Api_UnRegister _ \<Rightarrow> p)"

text \<open>\<open>try_lock\<close> fails when the mutex is held, and may fail when it is not: \<open>lucky\<close> says which.\<close>

definition call_step :: "'f timer_env \<Rightarrow> (which_map \<Rightarrow> bool) \<Rightarrow> bool \<Rightarrow> 'f call_pc \<Rightarrow> 'f timer_thread
    \<Rightarrow> ('f call_pc \<times> 'f timer_thread) res" where
  "call_step E held lucky p e =
     (case p of
        K_Read n r us fp \<Rightarrow> count_up n r us fp e
      | K_Id i r us fp \<Rightarrow>
          let (now_clock, e) = get_clock E e in Inr (K_Try2 (fresh_timer i r us fp now_clock), e)
      | K_Try2 t \<Rightarrow> Inr (try_insert Timers2 (lucky \<and> \<not> held Timers2) t (K_Try1 t) e)
      | K_Try1 t \<Rightarrow> Inr (try_insert Timers1 (lucky \<and> \<not> held Timers1) t (K_Try2 t) e)
      | K_Inserted i \<Rightarrow> Inr (K_Returned i (cur_timer_id e), e)
      | K_UnRegister1 i \<Rightarrow> Inr (if held Timers1 then (p, e) else flag_in Timers1 i K_Out e)
      | _ \<Rightarrow> Inr (p, e))"

section \<open>Invariant of a family of calls\<close>

text \<open>The id of a timer that is being registered; no read of the counter is outstanding.\<close>

definition pending_id :: "'f call_pc \<Rightarrow> int option" where
  "pending_id p = (case p of K_Id i _ _ _ \<Rightarrow> Some i | K_Try2 t \<Rightarrow> Some (t_timer_id t) | K_Try1 t \<Rightarrow> Some (t_timer_id t)
     | _ \<Rightarrow> None)"

definition pending_ok :: "'f call_pc \<Rightarrow> bool" where
  "pending_ok p = (case p of K_Try2 t \<Rightarrow> t_leftsecs t = t_interval t | K_Try1 t \<Rightarrow> t_leftsecs t = t_interval t
     | K_Read _ _ _ _ \<Rightarrow> False | _ \<Rightarrow> True)"

text \<open>The engine \<open>e\<close> with the threads' calls at the places \<open>P\<close>.\<close>

definition calls_inv :: "'f timer_thread \<Rightarrow> ('i \<Rightarrow> 'f call_pc) \<Rightarrow> bool" where
  "calls_inv e P \<longleftrightarrow> tt_inv e \<and>
     (\<forall>c i. pending_id (P c) = Some i \<longrightarrow> 0 < i \<and> i \<le> cur_timer_id e \<and> (\<forall>w. map_find (timers w e) i = None)) \<and>
     (\<forall>c d i. pending_id (P c) = Some i \<longrightarrow> pending_id (P d) = Some i \<longrightarrow> c = d) \<and>
     (\<forall>c. pending_ok (P c))"

definition keeps_keys :: "'f timer_thread \<Rightarrow> 'f timer_thread \<Rightarrow> bool" where
  "keeps_keys e e' \<longleftrightarrow> (\<forall>w k. map_find (timers w e) k \<noteq> None \<longrightarrow> map_find (timers w e') k \<noteq> None)"

lemma keeps_keys_refl [simp]: "keeps_keys e e"
  by (simp add: keeps_keys_def)

lemma calls_invD:
  assumes "calls_inv e P"
  shows "tt_inv e" "pending_ok (P c)"
    "pending_id (P c) = Some i \<Longrightarrow> 0 < i \<and> i \<le> cur_timer_id e \<and> map_find (timers w e) i = None"
    "pending_id (P c) = Some i \<Longrightarrow> pending_id (P d) = Some i \<Longrightarrow> c = d"
  using assms unfolding calls_inv_def by blast+

lemma tt_inv_frame:
  assumes "tt_inv s" and "\<And>w. timers w s' = timers w s" and "cur_timer_id s \<le> cur_timer_id s'"
  shows "tt_inv s'"
  using assms(1,3) unfolding tt_inv_def entry_ok_def assms(2) by fastforce

lemma insert_inv:
  assumes "tt_inv s" and "\<And>v. map_find (timers v s) i = None" and "entry_ok s i t"
  shows "tt_inv (set_timers w (map_insert (timers w s) i t) s)"
proof -
  have wf: "map_wf (timers w s)" using assms(1) by (rule tt_inv_wf)
  have e: "entry_ok (set_timers w (map_insert (timers w s) i t) s) k u \<longleftrightarrow> entry_ok s k u" for k u
    by (simp add: entry_ok_def)
  show ?thesis
    using assms wf unfolding tt_inv_def e
    by (auto simp: sm.invar_insert map_find_insert split: if_splits)
qed

text \<open>A change of the engine that adds no key, and a call that goes on with its timer or with none.\<close>

lemma calls_inv_engine:
  assumes inv: "calls_inv e P" and e: "tt_inv e'" "cur_timer_id e \<le> cur_timer_id e'"
    and new: "\<And>w k. map_find (timers w e) k = None \<Longrightarrow> map_find (timers w e') k = None"
  shows "calls_inv e' P"
proof -
  have "0 < i \<and> i \<le> cur_timer_id e' \<and> (\<forall>w. map_find (timers w e') i = None)" if "pending_id (P c) = Some i" for c i
    using calls_invD(3) [OF inv that] e(2) new by fastforce
  then show ?thesis using inv e(1) by (auto simp: calls_inv_def)
qed

lemma calls_inv_place:
  assumes inv: "calls_inv e P" and p: "pending_ok p" "pending_id p = None \<or> pending_id p = pending_id (P c)"
  shows "calls_inv e (P(c := p))"
proof -
  have same: "pending_id ((P(c := p)) d) = Some i \<Longrightarrow> pending_id (P d) = Some i" for d i
    using p(2) by (auto split: if_splits)
  show ?thesis
    unfolding calls_inv_def
  proof (intro conjI allI impI)
    show "pending_ok ((P(c := p)) d)" for d using calls_invD(2) [OF inv] p(1) by simp
    show "a = b" if "pending_id ((P(c := p)) a) = Some i" "pending_id ((P(c := p)) b) = Some i" for a b i
      using calls_invD(4) [OF inv same [OF that(1)] same [OF that(2)]] .
  qed (use calls_invD(1,3) [OF inv] same in blast)+
qed

lemma try_insert_inv:
  assumes inv: "calls_inv e P" and p: "pending_id (P c) = Some (t_timer_id t)" "t_leftsecs t = t_interval t"
    and other: "pending_id other = Some (t_timer_id t)" "pending_ok other"
    and step: "try_insert w locked t other e = (p', e')"
  shows "calls_inv e' (P(c := p')) \<and> keeps_keys e e'"
proof (cases locked)
  case False
  then show ?thesis using step calls_inv_place [OF inv, of other c] p other by (simp add: try_insert_def)
next
  case True
  let ?i = "t_timer_id t"
  have e': "e' = set_timers w (map_insert (timers w e) ?i t) e" and p': "p' = K_Inserted ?i"
    using True step by (simp_all add: try_insert_def)
  have i: "0 < ?i" "?i \<le> cur_timer_id e" "\<And>v. map_find (timers v e) ?i = None"
    using calls_invD(3) [OF inv p(1)] by auto
  have wf: "map_wf (timers w e)" using calls_invD(1) [OF inv] by (rule tt_inv_wf)
  have tt: "tt_inv e'" unfolding e'
    using insert_inv [OF calls_invD(1) [OF inv] i(3)] i(1,2) p(2) by (simp add: entry_ok_def)
  have find: "map_find (timers v e') k = map_find (timers v e) k" if "k \<noteq> ?i" for v k
    using that wf by (simp add: e' map_find_insert)
  have "k \<noteq> ?i" if "pending_id (P d) = Some k" "d \<noteq> c" for d k
    using calls_invD(4) [OF inv _ p(1)] that by auto
  then have "calls_inv e' (P(c := p'))"
    using inv tt find unfolding calls_inv_def p' by (auto simp: e' pending_id_def pending_ok_def split: if_splits)
  then show ?thesis using wf by (auto simp: keeps_keys_def e' map_find_insert)
qed

lemma flag_in_dom:
  assumes "tt_inv e" and step: "flag_in w i other e = (p', e')"
  shows "tt_inv e' \<and> cur_timer_id e' = cur_timer_id e \<and>
    (map_find (timers v e') k = None \<longleftrightarrow> map_find (timers v e) k = None)"
proof (cases "map_find (timers w e) i")
  case (Some t)
  have "entry_ok e i t" using assms(1) Some by (rule tt_inv_entry)
  then have "tt_inv (set_timers w (map_assign (timers w e) i (t\<lparr>t_need_delete := True\<rparr>)) e)"
    by (intro assign_inv [OF assms(1)]) (simp add: entry_ok_def)
  then show ?thesis using step Some by (auto simp: flag_in_def map_find_assign split: if_splits)
qed (use assms in \<open>simp add: flag_in_def\<close>)

lemma flag_in_inv:
  assumes inv: "calls_inv e P" and other: "pending_id other = None" "pending_ok other"
    and step: "flag_in w i other e = (p', e')"
  shows "calls_inv e' (P(c := p')) \<and> keeps_keys e e'"
proof -
  note dom = flag_in_dom [OF calls_invD(1) [OF inv] step]
  have "p' = other \<or> p' = K_Out" using step by (auto simp: flag_in_def split: option.splits)
  then have "pending_id p' = None" "pending_ok p'" using other by (auto simp: pending_id_def pending_ok_def)
  moreover have "calls_inv e' P" by (rule calls_inv_engine [OF inv]) (use dom in auto)
  ultimately show ?thesis using calls_inv_place [of e' P p' c] dom by (auto simp: keeps_keys_def)
qed

lemma count_up_inv:
  assumes inv: "calls_inv e P" and step: "count_up (cur_timer_id e) r us fp e = Inr (p', e')"
  shows "calls_inv e' (P(c := p')) \<and> keeps_keys e e'"
proof -
  let ?n = "cur_timer_id e"
  have e': "e' = e\<lparr>cur_timer_id := ?n + 1\<rparr>" and p': "p' = K_Id (?n + 1) r us fp"
    using step by (auto simp: count_up_def split: if_splits)
  note tt = calls_invD(1) [OF inv]
  have tt': "tt_inv e'" unfolding e' by (rule tt_inv_frame [OF tt]) simp_all
  have old: "0 < j \<and> j \<le> ?n \<and> map_find (timers w e) j = None" if "pending_id (P d) = Some j" for d j w
    using calls_invD(3) [OF inv that] .
  then have ne: "pending_id (P d) \<noteq> Some (?n + 1)" for d by fastforce
  have new: "0 < ?n + 1" "\<And>w. map_find (timers w e) (?n + 1) = None"
    using tt_inv_cur [OF tt] next_id_fresh [OF tt] by auto
  have pend: "pending_id ((P(c := p')) d) = Some j \<longleftrightarrow> (if d = c then j = ?n + 1 else pending_id (P d) = Some j)" for d j
    by (auto simp: p' pending_id_def)
  have "calls_inv e' (P(c := p'))"
    unfolding calls_inv_def pend
  proof (intro conjI allI impI tt')
    show "0 < j" "j \<le> cur_timer_id e'" "map_find (timers w e') j = None"
      if "if d = c then j = ?n + 1 else pending_id (P d) = Some j" for d j w
      using that old new by (auto simp: e' split: if_splits) fastforce
    show "d = d'" if "if d = c then j = ?n + 1 else pending_id (P d) = Some j"
      "if d' = c then j = ?n + 1 else pending_id (P d') = Some j" for d d' j
      using that ne calls_invD(4) [OF inv] by (auto split: if_splits)
    show "pending_ok ((P(c := p')) d)" for d using calls_invD(2) [OF inv] by (simp add: p' pending_ok_def)
  qed
  then show ?thesis by (simp add: keeps_keys_def e')
qed

lemma begin_call_inv:
  assumes inv: "calls_inv e P" and "outside (P c)" and step: "begin_call held a (P c) e = Inr (p', e')"
  shows "calls_inv e' (P(c := p')) \<and> keeps_keys e e'"
proof (cases a)
  case (Api_UnRegister i)
  show ?thesis
  proof (cases "held Timers2")
    case False
    then have "flag_in Timers2 i (K_UnRegister1 i) e = (p', e')" using step Api_UnRegister by (simp add: begin_call_def)
    then show ?thesis by (rule flag_in_inv [OF inv, rotated 2]) (simp_all add: pending_id_def pending_ok_def)
  qed (use step Api_UnRegister inv in \<open>auto simp: begin_call_def\<close>)
qed (use step count_up_inv [OF inv] in \<open>auto simp: begin_call_def\<close>)

lemma call_step_inv:
  assumes inv: "calls_inv e P" and step: "call_step E held lucky (P c) e = Inr (p', e')"
  shows "calls_inv e' (P(c := p')) \<and> keeps_keys e e'"
proof (cases "P c")
  case (K_Read n r us fp)
  then show ?thesis using calls_invD(2) [OF inv, of c] by (simp add: pending_ok_def)
next
  case (K_Id i r us fp)
  have e': "e' = e\<lparr>clock_reads := Suc (clock_reads e)\<rparr>"
    and p': "p' = K_Try2 (fresh_timer i r us fp (clock_at E (clock_reads e)))"
    using step K_Id by (simp_all add: call_step_def get_clock_def)
  have "calls_inv e' P"
    unfolding e' by (rule calls_inv_engine [OF inv tt_inv_frame [OF calls_invD(1) [OF inv]]]) simp_all
  then have "calls_inv e' (P(c := p'))"
    by (rule calls_inv_place) (simp_all add: p' K_Id pending_id_def pending_ok_def fresh_timer_def)
  then show ?thesis by (simp add: keeps_keys_def e')
next
  case (K_Try2 t)
  then show ?thesis
    using step calls_invD(2) [OF inv, of c]
    by (intro try_insert_inv [OF inv, of c t "K_Try1 t" Timers2]) (simp_all add: call_step_def pending_id_def pending_ok_def)
next
  case (K_Try1 t)
  then show ?thesis
    using step calls_invD(2) [OF inv, of c]
    by (intro try_insert_inv [OF inv, of c t "K_Try2 t" Timers1]) (simp_all add: call_step_def pending_id_def pending_ok_def)
next
  case (K_Inserted i)
  then show ?thesis
    using step calls_inv_place [OF inv, of "K_Returned i (cur_timer_id e)" c]
    by (auto simp: call_step_def pending_id_def pending_ok_def)
next
  case (K_UnRegister1 i)
  show ?thesis
  proof (cases "held Timers1")
    case False
    then have "flag_in Timers1 i K_Out e = (p', e')" using step K_UnRegister1 by (simp add: call_step_def)
    then show ?thesis by (rule flag_in_inv [OF inv, rotated 2]) (simp_all add: pending_id_def pending_ok_def)
  qed (use step K_UnRegister1 inv in \<open>auto simp: call_step_def fun_upd_idem\<close>)
qed (use step inv in \<open>auto simp: call_step_def fun_upd_idem\<close>)

end
