(* ===== verification/Timer_Nested.thy ===== *)
theory Timer_Nested
  imports Timer_Calls
begin

text \<open>
  Callbacks that call \<open>Update\<close> themselves, which the recursive mutexes allow. The inner loops walk
  the maps while the outer one holds a reference to the timer whose callback is running, and an
  iterator at it: an inner loop that erases this timer leaves both dangling.
\<close>

section \<open>Update within Update\<close>

datatype 'f action = Call_Engine "'f api" | Call_Update

text \<open>The actions of a callback, \<open>up\<close> being \<open>Update\<close>; \<open>acts\<close> gives them.\<close>

fun run_actions :: "('f timer_thread \<Rightarrow> 'f timer_thread res) \<Rightarrow> 'f timer_env \<Rightarrow> 'f action list
    \<Rightarrow> 'f timer_thread \<Rightarrow> 'f timer_thread res" where
  "run_actions up E [] s = Inr s"
| "run_actions up E (Call_Engine c # as) s = res_bind (run_api E [c] s) (run_actions up E as)"
| "run_actions up E (Call_Update # as) s = res_bind (up s) (run_actions up E as)"

definition call_actions :: "('f timer_thread \<Rightarrow> 'f timer_thread res) \<Rightarrow> ('f \<Rightarrow> 'f timer_thread \<Rightarrow> 'f action list)
    \<Rightarrow> 'f timer_env \<Rightarrow> int \<Rightarrow> 'f option \<Rightarrow> 'f timer_thread \<Rightarrow> 'f timer_thread res" where
  "call_actions up acts E k fp s =
     (case fp of
        None \<Rightarrow> Inl Bad_Function_Call
      | Some f \<Rightarrow> run_actions up E (acts f s) (s\<lparr>fired := fired s @ [(k, f)]\<rparr>))"

text \<open>One round of a loop of \<open>Update\<close>, as \<open>Update_step\<close>, with such a callback.\<close>

definition nested_step :: "('f timer_thread \<Rightarrow> 'f timer_thread res) \<Rightarrow> ('f \<Rightarrow> 'f timer_thread \<Rightarrow> 'f action list)
    \<Rightarrow> 'f timer_env \<Rightarrow> which_map \<Rightarrow> int \<Rightarrow> 'f timer_thread \<Rightarrow> (int option \<times> 'f timer_thread) res" where
  "nested_step up acts E w k s =
     (case map_find (timers w s) k of
        None \<Rightarrow> Inl Bad_Iterator
      | Some timer \<Rightarrow>
          if t_need_delete timer
          then Inr (map_next (timers w s) k, set_timers w (map_erase (timers w s) k) s)
          else let (now_clock, s1) = get_clock E s in
            res_bind (get_interval_macro_secs (clock_freq E) now_clock (t_startclock timer))
              (\<lambda>interval_time.
                 if t_leftsecs timer \<le> interval_time then
                   res_bind (call_actions up acts E k (t_fp timer) s1) (\<lambda>s2.
                     case map_find (timers w s2) k of
                       None \<Rightarrow> Inl Bad_Iterator
                     | Some timer \<Rightarrow>
                         let (start, s3) = get_clock E s2;
                             timer = timer\<lparr>t_leftsecs := t_interval timer, t_startclock := start\<rparr>;
                             s4 = set_timers w (map_assign (timers w s3) k timer) s3
                         in if t_run_once timer
                            then Inr (map_next (timers w s4) k,
                                      set_timers w (map_erase (timers w s4) k) s4)
                            else Inr (map_next (timers w s4) k, s4))
                 else Inr (map_next (timers w s1) k, s1)))"

fun nested_loop :: "('f timer_thread \<Rightarrow> 'f timer_thread res) \<Rightarrow> ('f \<Rightarrow> 'f timer_thread \<Rightarrow> 'f action list)
    \<Rightarrow> 'f timer_env \<Rightarrow> which_map \<Rightarrow> nat \<Rightarrow> int option \<Rightarrow> 'f timer_thread \<Rightarrow> 'f timer_thread res" where
  "nested_loop up acts E w fuel None s = Inr s"
| "nested_loop up acts E w 0 (Some k) s = Inl Out_Of_Fuel"
| "nested_loop up acts E w (Suc fuel) (Some k) s =
     res_bind (nested_step up acts E w k s) (\<lambda>(it, s'). nested_loop up acts E w fuel it s')"

text \<open>\<open>Update\<close> with at most \<open>depth\<close> updates within each other, each loop with the given fuel.\<close>

primrec nested_Update :: "nat \<Rightarrow> ('f \<Rightarrow> 'f timer_thread \<Rightarrow> 'f action list) \<Rightarrow> 'f timer_env \<Rightarrow> nat
    \<Rightarrow> 'f timer_thread \<Rightarrow> 'f timer_thread res" where
  "nested_Update 0 acts E fuel s = Inl Out_Of_Fuel"
| "nested_Update (Suc depth) acts E fuel s =
     res_bind (nested_loop (nested_Update depth acts E fuel) acts E Timers1 fuel (map_begin (timers Timers1 s)) s)
       (\<lambda>s1. nested_loop (nested_Update depth acts E fuel) acts E Timers2 fuel (map_begin (timers Timers2 s1)) s1)"

section \<open>Callbacks that do not call Update\<close>

lemma run_actions_engine: "run_actions up E (map Call_Engine cs) s = run_api E cs s"
proof (induction cs arbitrary: s)
  case (Cons c cs)
  then show ?case by (cases c) (auto simp: res_bind_def split: sum.splits)
qed simp

lemma nested_step_engine:
  assumes "\<And>f s. acts f s = map Call_Engine (behaviour E f s)"
  shows "nested_step up acts E w k s = Update_step E w k s"
proof -
  have call: "call_actions up acts E k = call_fp E k"
    by (intro ext) (simp add: call_actions_def call_fp_def assms run_actions_engine split: option.split)
  show ?thesis unfolding nested_step_def Update_step_def call ..
qed

text \<open>Then the model is the one of \<open>Timer_Engine\<close>.\<close>

theorem nested_Update_plain:
  assumes "\<And>f s. acts f s = map Call_Engine (behaviour E f s)"
  shows "nested_Update (Suc depth) acts E fuel s = Update E fuel s"
proof -
  have "nested_loop up acts E w n = Update_loop E w n" for up w n
  proof (induction n)
    case 0
    show ?case by (intro ext) (case_tac x; simp)
  next
    case (Suc n)
    show ?case by (intro ext) (case_tac x; simp add: nested_step_engine [OF assms] Suc)
  qed
  then show ?thesis by (simp add: Update_def)
qed

text \<open>Of the environment's own callbacks the nested model makes no use.\<close>

lemma run_api_behaviour: "run_api (E\<lparr>behaviour := b\<rparr>) cs s = run_api E cs s"
proof (induction E cs s rule: run_api.induct)
  case (2 E r i fp cs s)
  have "Register (E\<lparr>behaviour := b\<rparr>) r i fp s = Register E r i fp s" by (simp add: Register_def get_clock_def)
  then show ?case using 2 by (cases "Register E r i fp s") auto
next
  case (3 E r i fp cs s)
  have "RegisterByMilSec (E\<lparr>behaviour := b\<rparr>) r i fp s = RegisterByMilSec E r i fp s"
    by (simp add: RegisterByMilSec_def get_clock_def)
  then show ?case using 3 by (cases "RegisterByMilSec E r i fp s") auto
qed simp_all

lemma nested_step_behaviour: "nested_step up acts (E\<lparr>behaviour := b\<rparr>) w k s = nested_step up acts E w k s"
proof -
  have "run_actions up (E\<lparr>behaviour := b\<rparr>) as = run_actions up E as" for as
    by (induction as) (rule ext, simp, rule ext, case_tac a, simp_all add: run_api_behaviour)
  then have "call_actions up acts (E\<lparr>behaviour := b\<rparr>) k = call_actions up acts E k"
    by (intro ext) (simp add: call_actions_def split: option.split)
  moreover have "clock_at (E\<lparr>behaviour := b\<rparr>) = clock_at E" "clock_freq (E\<lparr>behaviour := b\<rparr>) = clock_freq E" by simp_all
  ultimately show ?thesis unfolding nested_step_def get_clock_def by (simp only:)
qed

lemma nested_Update_behaviour:
  "nested_Update depth acts (E\<lparr>behaviour := b\<rparr>) fuel s = nested_Update depth acts E fuel s"
proof (induction depth arbitrary: s)
  case (Suc depth)
  have up: "nested_Update depth acts (E\<lparr>behaviour := b\<rparr>) fuel = nested_Update depth acts E fuel" using Suc by blast
  have "nested_loop u acts (E\<lparr>behaviour := b\<rparr>) w n = nested_loop u acts E w n" for u w n
  proof (induction n)
    case 0
    show ?case by (intro ext) (case_tac x; simp)
  next
    case (Suc n)
    show ?case by (intro ext) (case_tac x; simp add: nested_step_behaviour Suc)
  qed
  then show ?case by (simp add: up)
qed simp

definition engine_calls :: "'f action list \<Rightarrow> 'f api list" where
  "engine_calls as = concat (map (\<lambda>a. case a of Call_Engine c \<Rightarrow> [c] | Call_Update \<Rightarrow> []) as)"

lemma engine_calls_all: "Call_Update \<notin> set as \<Longrightarrow> as = map Call_Engine (engine_calls as)"
  by (induction as) (auto simp: engine_calls_def split: action.split)

lemma nested_Update_calls:
  assumes "\<And>f u. Call_Update \<notin> set (acts f u)"
  shows "nested_Update (Suc depth) acts E fuel s = Update (E\<lparr>behaviour := (\<lambda>f u. engine_calls (acts f u))\<rparr>) fuel s"
proof -
  let ?E = "E\<lparr>behaviour := (\<lambda>f u. engine_calls (acts f u))\<rparr>"
  have "nested_Update (Suc depth) acts ?E fuel s = Update ?E fuel s"
    by (rule nested_Update_plain) (simp add: engine_calls_all [OF assms, symmetric])
  then show ?thesis unfolding nested_Update_behaviour .
qed

section \<open>Timers that last\<close>

text \<open>
  Every timer is periodic and none is cancelled; a callback registers periodic timers, or calls
  \<open>Update\<close>. Then no loop erases anything.
\<close>

definition lasting :: "'f timer_thread \<Rightarrow> bool" where
  "lasting s \<longleftrightarrow> (\<forall>w k t. map_find (timers w s) k = Some t \<longrightarrow> \<not> t_run_once t \<and> \<not> t_need_delete t)"

definition lasting_action :: "'f action \<Rightarrow> bool" where
  "lasting_action a \<longleftrightarrow> (case a of
     Call_Engine (Api_Register run_once _ _) \<Rightarrow> \<not> run_once
   | Call_Engine (Api_RegisterByMilSec run_once _ _) \<Rightarrow> \<not> run_once
   | Call_Engine (Api_UnRegister _) \<Rightarrow> False
   | Call_Update \<Rightarrow> True)"

definition lasting_callbacks :: "('f \<Rightarrow> 'f timer_thread \<Rightarrow> 'f action list) \<Rightarrow> bool" where
  "lasting_callbacks acts \<longleftrightarrow> (\<forall>f s. list_all lasting_action (acts f s))"

text \<open>What is kept by a computation on such an engine.\<close>

definition kept :: "'f timer_thread \<Rightarrow> 'f timer_thread res \<Rightarrow> bool" where
  "kept s r \<longleftrightarrow> (case r of
     Inl fault \<Rightarrow> fault \<noteq> Bad_Iterator
   | Inr t \<Rightarrow> tt_inv t \<and> lasting t \<and> keeps_keys s t)"

lemma keeps_keys_trans: "keeps_keys s t \<Longrightarrow> keeps_keys t u \<Longrightarrow> keeps_keys s u"
  by (simp add: keeps_keys_def)

lemma kept_bind:
  assumes "kept s r" and "\<And>t. r = Inr t \<Longrightarrow> tt_inv t \<Longrightarrow> lasting t \<Longrightarrow> kept t (f t)"
  shows "kept s (res_bind r f)"
  using assms by (cases r) (auto simp: kept_def intro: keeps_keys_trans split: sum.splits)

lemma kept_registered:
  assumes "tt_inv s" "lasting s"
  shows "kept s (Inr (registered E False us fp s w))"
proof -
  have wf: "map_wf (timers w s)" using assms(1) by (rule tt_inv_wf)
  have "lasting (registered E False us fp s w)"
    using assms(2) wf by (auto simp: lasting_def sm.find_insert fresh_timer_def split: if_splits)
  moreover have "keeps_keys s (registered E False us fp s w)"
    using wf by (auto simp: keeps_keys_def sm.find_insert)
  ultimately show ?thesis using registered_inv [OF assms(1)] by (simp add: kept_def)
qed

lemma register_fault:
  "Register E r i fp s = Inl fault \<Longrightarrow> fault \<noteq> Bad_Iterator"
  "RegisterByMilSec E r i fp s = Inl fault \<Longrightarrow> fault \<noteq> Bad_Iterator"
proof -
  have "Register_timer t ls s = Inl fault \<Longrightarrow> fault = Out_Of_Fuel" for t ls and s :: "'f timer_thread"
    by (induction t ls s rule: Register_timer.induct) (auto split: if_splits)
  then show "Register E r i fp s = Inl fault \<Longrightarrow> fault \<noteq> Bad_Iterator"
    "RegisterByMilSec E r i fp s = Inl fault \<Longrightarrow> fault \<noteq> Bad_Iterator"
    by (auto simp: Register_def RegisterByMilSec_def get_clock_def Let_def res_bind_def split: if_splits sum.splits)
qed

lemma kept_run_api:
  assumes "tt_inv s" "lasting s" "lasting_action (Call_Engine c)"
  shows "kept s (run_api E [c] s)"
proof (cases c)
  case (Api_Register r i fp)
  then have r: "r = False" using assms(3) by (simp add: lasting_action_def)
  show ?thesis
  proof (cases "Register E r i fp s")
    case (Inl fault)
    then show ?thesis using register_fault(1) [OF Inl] Api_Register by (simp add: kept_def)
  next
    case (Inr x)
    then obtain w where "snd x = registered E r (sec_to_us (word_of_int i)) fp s w"
      using Register_cases [of E r i fp s "fst x" "snd x"] by auto
    then show ?thesis using kept_registered [OF assms(1,2)] Inr Api_Register r by (cases x) simp
  qed
next
  case (Api_RegisterByMilSec r i fp)
  then have r: "r = False" using assms(3) by (simp add: lasting_action_def)
  show ?thesis
  proof (cases "RegisterByMilSec E r i fp s")
    case (Inl fault)
    then show ?thesis using register_fault(2) [OF Inl] Api_RegisterByMilSec by (simp add: kept_def)
  next
    case (Inr x)
    then obtain w where "snd x = registered E r (milsec_to_us (word_of_int i)) fp s w"
      using RegisterByMilSec_cases [of E r i fp s "fst x" "snd x"] by auto
    then show ?thesis using kept_registered [OF assms(1,2)] Inr Api_RegisterByMilSec r by (cases x) simp
  qed
qed (use assms(3) in \<open>simp add: lasting_action_def\<close>)

lemma kept_run_actions:
  assumes up: "\<And>s. tt_inv s \<Longrightarrow> lasting s \<Longrightarrow> kept s (up s)"
  shows "list_all lasting_action as \<Longrightarrow> tt_inv s \<Longrightarrow> lasting s \<Longrightarrow> kept s (run_actions up E as s)"
proof (induction as arbitrary: s)
  case (Cons a as)
  then show ?case by (cases a) (auto intro!: kept_bind kept_run_api up)
qed (simp add: kept_def)

text \<open>The assignment to the timer whose callback has returned, and the clock.\<close>

lemma kept_rearm:
  assumes "tt_inv s" "lasting s" "map_find (timers w s) k = Some t"
  shows "kept s (Inr (set_timers w (map_assign (timers w s) k (rearm n t)) s))"
proof -
  have wf: "map_wf (timers w s)" using assms(1) by (rule tt_inv_wf)
  have "entry_ok s k (rearm n t)" using tt_inv_entry [OF assms(1,3)] by (simp add: entry_ok_def rearm_def)
  then have "tt_inv (set_timers w (map_assign (timers w s) k (rearm n t)) s)" by (rule assign_inv [OF assms(1)])
  moreover have "lasting (set_timers w (map_assign (timers w s) k (rearm n t)) s)"
    using assms(2,3) wf by (auto simp: lasting_def map_find_assign rearm_def split: if_splits)
  ultimately show ?thesis using wf by (auto simp: kept_def keeps_keys_def map_find_assign)
qed

lemma kept_frame:
  assumes "kept s r" and "\<And>w. timers w s = timers w s0"
  shows "kept s0 r"
  using assms by (simp add: kept_def keeps_keys_def split: sum.splits)

lemma kept_call:
  assumes up: "\<And>s. tt_inv s \<Longrightarrow> lasting s \<Longrightarrow> kept s (up s)" and acts: "lasting_callbacks acts"
    and s: "tt_inv s" "lasting s"
  shows "kept s (call_actions up acts E k fp (s\<lparr>clock_reads := n\<rparr>))"
proof (cases fp)
  case (Some f)
  let ?s = "s\<lparr>clock_reads := n, fired := fired s @ [(k, f)]\<rparr>"
  have "tt_inv ?s" by (rule tt_inv_frame [OF s(1)]) simp_all
  moreover have "lasting ?s" using s(2) by (simp add: lasting_def)
  ultimately have "kept ?s (run_actions up E (acts f (s\<lparr>clock_reads := n\<rparr>)) ?s)"
    by (intro kept_run_actions up) (use acts in \<open>simp_all add: lasting_callbacks_def\<close>)
  then show ?thesis using Some by (auto simp: call_actions_def intro: kept_frame)
qed (simp add: call_actions_def kept_def)

text \<open>A round of a loop: the timer is left alone, or its callback is called and it is armed again.\<close>

lemma nested_step_lasting:
  assumes "lasting s" and t: "map_find (timers w s) k = Some t"
  shows "nested_step up acts E w k s =
    res_bind (get_interval_macro_secs (clock_freq E) (clock_at E (clock_reads s)) (t_startclock t)) (\<lambda>el.
      if t_leftsecs t \<le> el then
        res_bind (call_actions up acts E k (t_fp t) (s\<lparr>clock_reads := Suc (clock_reads s)\<rparr>)) (\<lambda>s2.
          case map_find (timers w s2) k of
            None \<Rightarrow> Inl Bad_Iterator
          | Some u \<Rightarrow>
              let s3 = s2\<lparr>clock_reads := Suc (clock_reads s2)\<rparr>;
                  s4 = set_timers w (map_assign (timers w s3) k (rearm (clock_at E (clock_reads s2)) u)) s3 in
              if t_run_once u then Inr (map_next (timers w s4) k, set_timers w (map_erase (timers w s4) k) s4)
              else Inr (map_next (timers w s4) k, s4))
      else Inr (map_next (timers w s) k, s\<lparr>clock_reads := Suc (clock_reads s)\<rparr>))"
proof -
  have "\<not> t_need_delete t" using assms by (simp add: lasting_def)
  then show ?thesis using t by (simp add: nested_step_def get_clock_def rearm_def Let_def cong: if_cong option.case_cong)
qed

lemma kept_step:
  assumes up: "\<And>s. tt_inv s \<Longrightarrow> lasting s \<Longrightarrow> kept s (up s)" and acts: "lasting_callbacks acts"
    and s: "tt_inv s" "lasting s" and k: "map_find (timers w s) k \<noteq> None"
  shows "(case nested_step up acts E w k s of
      Inl fault \<Rightarrow> fault \<noteq> Bad_Iterator
    | Inr (it, s') \<Rightarrow> kept s (Inr s') \<and> it = map_next (timers w s') k)"
proof -
  obtain t where t: "map_find (timers w s) k = Some t" using k by blast
  let ?call = "call_actions up acts E k (t_fp t) (s\<lparr>clock_reads := Suc (clock_reads s)\<rparr>)"
  note step = nested_step_lasting [OF s(2) t, of up acts E]
  have rest: "tt_inv (s\<lparr>clock_reads := n\<rparr>)" "lasting (s\<lparr>clock_reads := n\<rparr>)" if "tt_inv s" "lasting s" for n and s :: "'a timer_thread"
    using tt_inv_frame [OF that(1)] that(2) by (simp_all add: lasting_def)
  show ?thesis
  proof (cases "get_interval_macro_secs (clock_freq E) (clock_at E (clock_reads s)) (t_startclock t)")
    case (Inl fault)
    then have "fault \<noteq> Bad_Iterator" by (auto simp: get_interval_macro_secs_def split: if_splits)
    then show ?thesis using Inl by (simp add: step)
  next
    case el: (Inr el)
    have call: "kept s ?call" by (rule kept_call [OF up acts s])
    show ?thesis
    proof (cases "t_leftsecs t \<le> el \<and> (\<exists>s2. ?call = Inr s2)")
      case False
      then show ?thesis
        using el call rest [OF s] by (cases ?call) (auto simp: step kept_def keeps_keys_def)
    next
      case True
      then obtain s2 where s2: "t_leftsecs t \<le> el" "?call = Inr s2" by blast
      then have s2': "tt_inv s2" "lasting s2" "keeps_keys s s2" using call by (simp_all add: kept_def)
      then obtain u where u: "map_find (timers w s2) k = Some u" using k by (auto simp: keeps_keys_def)
      have "\<not> t_run_once u" using s2'(2) u by (simp add: lasting_def)
      moreover let ?s3 = "s2\<lparr>clock_reads := Suc (clock_reads s2)\<rparr>"
      have "kept ?s3 (Inr (set_timers w (map_assign (timers w ?s3) k (rearm (clock_at E (clock_reads s2)) u)) ?s3))"
        by (rule kept_rearm [OF rest [OF s2'(1,2)]]) (simp add: u)
      ultimately show ?thesis using el s2 u s2'(3) by (auto simp: step kept_def keeps_keys_def Let_def)
    qed
  qed
qed

lemma kept_loop:
  assumes up: "\<And>s. tt_inv s \<Longrightarrow> lasting s \<Longrightarrow> kept s (up s)" and acts: "lasting_callbacks acts"
  shows "tt_inv s \<Longrightarrow> lasting s \<Longrightarrow> (\<And>k. it = Some k \<Longrightarrow> map_find (timers w s) k \<noteq> None) \<Longrightarrow>
    kept s (nested_loop up acts E w fuel it s)"
proof (induction fuel arbitrary: it s)
  case 0
  then show ?case by (cases it) (simp_all add: kept_def)
next
  case (Suc fuel)
  show ?case
  proof (cases it)
    case (Some k)
    have k: "map_find (timers w s) k \<noteq> None" using Suc.prems(3) Some .
    note step = kept_step [OF up acts Suc.prems(1,2) k, where E = E]
    show ?thesis
    proof (cases "nested_step up acts E w k s")
      case (Inl fault)
      then show ?thesis using step Some by (simp add: kept_def)
    next
      case (Inr x)
      then obtain it' t where x: "nested_step up acts E w k s = Inr (it', t)" by (cases x) simp
      have t: "tt_inv t" "lasting t" "keeps_keys s t" "it' = map_next (timers w t) k" using step x by (simp_all add: kept_def)
      have "kept t (nested_loop up acts E w fuel it' t)"
        using map_next_in_keys [of "timers w t" k] t(4) by (intro Suc.IH t(1,2)) (simp add: map_find_None_iff)
      then show ?thesis using t(3) Some x by (auto simp: kept_def intro: keeps_keys_trans split: sum.splits)
    qed
  qed (use Suc.prems in \<open>simp add: kept_def\<close>)
qed

lemma kept_Update:
  assumes acts: "lasting_callbacks acts"
  shows "tt_inv s \<Longrightarrow> lasting s \<Longrightarrow> kept s (nested_Update depth acts E fuel s)"
proof (induction depth arbitrary: s)
  case (Suc depth)
  have loop: "kept s (nested_loop (nested_Update depth acts E fuel) acts E w fuel (map_begin (timers w s)) s)"
    if "tt_inv s" "lasting s" for s w
    by (rule kept_loop [OF Suc.IH acts that]) (use that map_begin_Some [OF tt_inv_wf] in auto)
  show ?case
    using loop [of _ Timers1] loop [of _ Timers2] Suc.prems by (simp, intro kept_bind) simp_all
qed (simp add: kept_def)

section \<open>Properties\<close>

text \<open>
  C18. \<open>Update\<close> may be called from callbacks as long as every timer is periodic, none is cancelled and
  the callbacks register periodic timers only: however deep the updates are in each other, no
  iterator or reference is left dangling, no timer is lost and the maps stay well formed.
\<close>
theorem nested_updates_safe:
  assumes "tt_inv s" and "lasting s" and "lasting_callbacks acts"
  shows "case nested_Update depth acts E fuel s of
    Inl fault \<Rightarrow> fault \<noteq> Bad_Iterator
  | Inr t \<Rightarrow> tt_inv t \<and> lasting t \<and> (\<forall>w k. map_find (timers w s) k \<noteq> None \<longrightarrow> map_find (timers w t) k \<noteq> None)"
  using kept_Update [OF assms(3,1,2), of depth E fuel] by (auto simp: kept_def keeps_keys_def split: sum.splits)

text \<open>
  Otherwise not: a callback that cancels its own timer and then calls \<open>Update\<close> has it erased, and
  the outer loop goes on with a reference and an iterator to what is no longer there.
\<close>
definition nest_env :: "nat timer_env" where
  "nest_env = \<lparr>clock_at = (\<lambda>_. 0), clock_freq = 1, try_locks = (\<lambda>_. [(True, True)]), behaviour = (\<lambda>_ _. [])\<rparr>"

theorem nested_update_uses_freed_timer:
  "case Register nest_env False 0 (Some 10) (TimerThread 43200 43200) of
     Inl _ \<Rightarrow> False
   | Inr (i, s) \<Rightarrow> nested_Update 2 (\<lambda>_ _. [Call_Engine (Api_UnRegister i), Call_Update]) nest_env 2 s = Inl Bad_Iterator"
  by code_simp

text \<open>
  And while the callback of a timer runs, the timer is still due: one that calls \<open>Update\<close> whenever
  it is called is called again by it, without end.
\<close>

theorem nested_update_recurses:
  assumes "timers1 s = []" and "timers2 s = [(k, t)]" and "\<not> t_need_delete t" and "t_leftsecs t = 0" and "t_fp t \<noteq> None"
    and "clock_freq E \<noteq> 0"
  shows "nested_Update depth (\<lambda>_ _. [Call_Update]) E fuel s = Inl Out_Of_Fuel"
  using assms(1,2)
proof (induction depth arbitrary: s)
  case (Suc depth)
  obtain f where f: "t_fp t = Some f" using assms(5) by blast
  let ?up = "nested_Update depth (\<lambda>_ _. [Call_Update]) E fuel"
  let ?s1 = "s\<lparr>clock_reads := Suc (clock_reads s), fired := fired s @ [(k, f)]\<rparr>"
  have "?up ?s1 = Inl Out_Of_Fuel" using Suc.prems by (intro Suc.IH) simp_all
  then have "nested_step ?up (\<lambda>_ _. [Call_Update]) E Timers2 k s = Inl Out_Of_Fuel"
    using Suc.prems assms(3,4,6) f
    by (simp add: nested_step_def get_clock_def get_interval_macro_secs_def call_actions_def)
  then show ?case using Suc.prems by (cases fuel) simp_all
qed simp

section \<open>Witnesses\<close>

theorem nested_updates_safe_witness:
  "\<exists>i s. Register nest_env False 0 (Some 10) (TimerThread 43200 43200) = Inr (i, s) \<and>
    (case nested_Update 2 (\<lambda>f s. if fired s = [] then [Call_Update, Call_Engine (Api_Register False 5 (Some 20))] else [])
       nest_env 5 s of
       Inl _ \<Rightarrow> False
     | Inr t \<Rightarrow> map_find (timers Timers2 t) 1 \<noteq> None \<and> lasting t)"
proof -
  let ?acts = "\<lambda>f s. if fired s = [] then [Call_Update, Call_Engine (Api_Register False 5 (Some 20))] else []"
  let ?s = "registered nest_env False (sec_to_us 0) (Some 10) (TimerThread 43200 43200) Timers2"
  have r: "Register nest_env False 0 (Some 10) (TimerThread 43200 43200) = Inr (1, ?s)" by code_simp
  have start: "tt_inv (TimerThread 43200 43200 :: nat timer_thread)" "lasting (TimerThread 43200 43200 :: nat timer_thread)"
    by (simp_all add: tt_inv_def lasting_def TimerThread_def timers_def split: which_map.split)
  have "lasting ?s" using kept_registered [OF start] by (simp add: kept_def)
  moreover have "tt_inv ?s" by (rule registered_inv [OF start(1)])
  ultimately have safe: "case nested_Update 2 ?acts nest_env 5 ?s of
      Inl fault \<Rightarrow> fault \<noteq> Bad_Iterator
    | Inr t \<Rightarrow> tt_inv t \<and> lasting t \<and> (\<forall>w k. map_find (timers w ?s) k \<noteq> None \<longrightarrow> map_find (timers w t) k \<noteq> None)"
    by (intro nested_updates_safe) (simp_all add: lasting_action_def lasting_callbacks_def)
  have "case nested_Update 2 ?acts nest_env 5 ?s of Inl _ \<Rightarrow> False | Inr _ \<Rightarrow> True" by code_simp
  then obtain t where t: "nested_Update 2 ?acts nest_env 5 ?s = Inr t" by (auto split: sum.splits)
  have "map_find (timers Timers2 ?s) 1 \<noteq> None" by code_simp
  then have "map_find (timers Timers2 t) 1 \<noteq> None \<and> lasting t" using safe unfolding t sum.case by blast
  then show ?thesis using t r by (intro exI [of _ 1] exI [of _ ?s]) simp
qed

end
