(* ===== verification/Timer_Properties.thy ===== *)
theory Timer_Properties
  imports Timer_Nested
begin

text \<open>
  What the timer engine guarantees: the reachable states and their invariant, registration,
  cancellation, the order and number of firings, the exact effect of one \<open>Update\<close>, when it
  returns and when it never does, and the range in which elapsed times and the calendar test
  are right.
\<close>

section \<open>Reachable states\<close>

inductive tt_reachable :: "'f timer_env \<Rightarrow> 'f timer_thread \<Rightarrow> bool" for E where
  init: "tt_reachable E (TimerThread ts_l ts_g)"
| register: "tt_reachable E s \<Longrightarrow> Register E r i fp s = Inr (tid, s') \<Longrightarrow> tt_reachable E s'"
| register_ms: "tt_reachable E s \<Longrightarrow> RegisterByMilSec E r i fp s = Inr (tid, s') \<Longrightarrow> tt_reachable E s'"
| unregister: "tt_reachable E s \<Longrightarrow> tt_reachable E (UnRegister tid s)"
| update: "tt_reachable E s \<Longrightarrow> Update E fuel s = Inr s' \<Longrightarrow> tt_reachable E s'"
| time_begin: "tt_reachable E s \<Longrightarrow> tt_reachable E (fun_time_test_begin E name s)"
| time_end: "tt_reachable E s \<Longrightarrow> tt_reachable E (fun_time_test_end E name s)"

lemma TimerThread_inv: "tt_inv (TimerThread ts_l ts_g)"
  by (simp add: tt_inv_def TimerThread_def timers_def split: which_map.split)

lemma tt_inv_same_maps:
  assumes "tt_inv s" and "\<And>w. timers w s' = timers w s" and "cur_timer_id s' = cur_timer_id s"
  shows "tt_inv s'"
  using assms by (simp add: tt_inv_def entry_ok_def)

lemma tt_reachable_inv: "tt_reachable E s \<Longrightarrow> tt_inv s"
proof (induction rule: tt_reachable.induct)
  case (register s r i fp tid s')
  from register(2) obtain w where "s' = registered E r (sec_to_us (word_of_int i)) fp s w"
    by (rule Register_cases)
  then show ?case using register by (simp add: registered_inv)
next
  case (register_ms s r i fp tid s')
  from register_ms(2) obtain w where "s' = registered E r (milsec_to_us (word_of_int i)) fp s w"
    by (rule RegisterByMilSec_cases)
  then show ?case using register_ms by (simp add: registered_inv)
next
  case (update s fuel s')
  show ?case by (rule Update_cases [OF update(2,3)])
next
  case (time_begin s name)
  show ?case
    by (rule tt_inv_same_maps [OF time_begin(2)])
      (simp_all add: fun_time_test_begin_def get_clock_def Let_def)
next
  case (time_end s name)
  show ?case
    by (rule tt_inv_same_maps [OF time_end(2)])
      (simp_all add: fun_time_test_end_def get_clock_def Let_def)
qed (simp_all add: TimerThread_inv UnRegister_inv)

text \<open>An environment for the witnesses: a clock that ticks once per reading at 100 ticks per
  second, free mutexes, callbacks that do nothing.\<close>

definition demo_env :: "nat timer_env" where
  "demo_env = \<lparr>clock_at = (\<lambda>n. of_nat n), clock_freq = 100,
     try_locks = (\<lambda>_. [(True, True)]), behaviour = (\<lambda>_ _. [])\<rparr>"

definition demo_state :: "nat timer_thread" where
  "demo_state = registered demo_env False 5000 (Some 7) (TimerThread 28800 0) Timers2"

lemma demo_register:
  "RegisterByMilSec demo_env False 5 (Some 7) (TimerThread 28800 0) = Inr (1, demo_state)"
  by (simp add: RegisterByMilSec_def demo_state_def registered_def demo_env_def get_clock_def
      TimerThread_def Let_def open_milsec_def new_etimer_def fresh_timer_def milsec_to_us_def
      timers_def set_timers_def int_max_def)

lemma demo_reachable: "tt_reachable demo_env demo_state"
  by (rule tt_reachable.register_ms [OF tt_reachable.init demo_register])

section \<open>Properties\<close>

text \<open>
  C6. In every state the engine can reach from its constructor (by registrations, in either
  unit, cancellations, updates with arbitrary callbacks, and function timings) the two timer
  maps are well formed: sorted, every timer under its own id, every id positive and at most the
  last one handed out, no id in both maps, and the remaining time of a timer equal to its
  interval.
\<close>

theorem engine_invariant:
  assumes "tt_reachable E s"
  shows "tt_inv s"
  using assms by (rule tt_reachable_inv)

theorem engine_invariant_witness: "tt_inv demo_state"
  by (rule engine_invariant [OF demo_reachable])

text \<open>
  \<open>Register\<close> returns a new id: no map held it, exactly one map holds it afterwards, with
  the interval converted from seconds, not yet flagged and started at the clock reading; every
  other timer is as before.
\<close>

theorem Register_fresh:
  assumes "tt_reachable E s" and "Register E run_once interval_time fp s = Inr (tid, s')"
  shows "(\<forall>w. map_find (timers w s) tid = None) \<and>
    (\<exists>!w. map_find (timers w s') tid \<noteq> None) \<and>
    (\<exists>w. map_find (timers w s') tid =
       Some (fresh_timer tid run_once (sec_to_us (word_of_int interval_time)) fp
              (clock_at E (clock_reads s)))) \<and>
    (\<forall>w j. j \<noteq> tid \<longrightarrow> map_find (timers w s') j = map_find (timers w s) j)"
proof -
  have inv: "tt_inv s" using assms(1) by (rule tt_reachable_inv)
  from assms(2) obtain w where tid: "tid = cur_timer_id s + 1"
    and s': "s' = registered E run_once (sec_to_us (word_of_int interval_time)) fp s w"
    by (rule Register_cases)
  show ?thesis
    unfolding s' tid using next_id_fresh [OF inv] by (auto simp: sm.find_insert tt_inv_wf [OF inv])
qed

lemma demo_register_sec:
  "\<exists>s'. Register demo_env True 2 (Some 9) demo_state = Inr (2, s')"
  by (simp add: Register_def demo_state_def registered_def demo_env_def get_clock_def
      TimerThread_def Let_def open_sec_def new_etimer_def int_max_def)

theorem Register_fresh_witness:
  "\<exists>s'. Register demo_env True 2 (Some 9) demo_state = Inr (2, s') \<and>
     (\<exists>!w. map_find (timers w s') 2 \<noteq> None)"
proof -
  obtain s' where s': "Register demo_env True 2 (Some 9) demo_state = Inr (2, s')"
    using demo_register_sec by blast
  from Register_fresh [OF demo_reachable s'] s' show ?thesis by (intro exI [of _ s']) simp
qed

text \<open>Under a flagged id an \<open>Update\<close> calls nothing, and no map holds the id afterwards.\<close>

lemma Update_mute:
  assumes "Update E fuel s = Inr s'" and "tt_inv s" and "mute t_need_delete tid s"
  shows "mute t_need_delete tid s' \<and> fired_of tid s' = fired_of tid s \<and> (\<forall>w. map_find (timers w s') tid = None)"
proof -
  from assms(1,2) obtain s1 where
    l1: "Update_loop E Timers1 fuel (map_begin (timers Timers1 s)) s = Inr s1"
    and l2: "Update_loop E Timers2 fuel (map_begin (timers Timers2 s1)) s1 = Inr s'"
    and inv1: "tt_inv s1" and "cur_timer_id s \<le> cur_timer_id s1"
    by (rule Update_cases)
  note m1 = Update_loop_flagged_mute [OF l1 assms(2,3)]
  note m2 = Update_loop_flagged_mute [OF l2 inv1 m1 [THEN conjunct1]]
  have "map_find (timers Timers1 s1) tid = None" by (rule Update_loop_removes [OF l1 assms(2,3)])
  then have "map_find (timers Timers1 s') tid = None"
    by (rule Update_loop_absent [OF l2 inv1]) (use m1 in \<open>simp add: mute_def\<close>)
  moreover have "map_find (timers Timers2 s') tid = None"
    using m1 by (intro Update_loop_removes [OF l2 inv1]) simp
  ultimately have "map_find (timers w s') tid = None" for w by (cases w) auto
  then show ?thesis using m1 m2 by simp
qed

lemma UnRegister_mute:
  assumes "tt_inv s" and "tid \<le> cur_timer_id s"
  shows "mute t_need_delete tid (UnRegister tid s)" and "fired_of tid (UnRegister tid s) = fired_of tid s"
  by (cases tid s rule: UnRegister_cases;
      use assms(2) tt_inv_disjoint [OF assms(1)] in \<open>fastforce simp: mute_def map_find_assign fired_of_def split: if_splits\<close>)+

text \<open>What a callback or another caller does with the engine keeps a flagged id flagged, and an absent one absent.\<close>

lemma run_api_mute:
  assumes "run_api E cs s = Inr s'" and "tt_inv s" and m: "mute t_need_delete tid s"
  shows "mute t_need_delete tid s' \<and> fired_of tid s' = fired_of tid s"
proof -
  have ext: "tt_ext s s'" using run_api_inv_ext [OF assms(1,2)] by blast
  have "t_need_delete u" if u: "map_find (timers w s') tid = Some u" for w u
  proof (cases "map_find (timers w s) tid")
    case None
    then have "cur_timer_id s < tid" using tt_ext_new [OF ext None u] by blast
    then show ?thesis using m by (simp add: mute_def)
  next
    case (Some t)
    then obtain v where "map_find (timers w s') tid = Some v" "flag_le t v" by (rule tt_ext_find [OF ext])
    then show ?thesis using m Some u by (auto simp: mute_def flag_le_def)
  qed
  then show ?thesis
    using m tt_ext_cur [OF ext] tt_ext_fired [OF ext] by (auto simp: mute_def fired_of_def)
qed

lemma run_api_absent:
  assumes "run_api E cs s = Inr s'" and "tt_inv s" and "map_find (timers w s) tid = None" and "tid \<le> cur_timer_id s"
  shows "map_find (timers w s') tid = None"
proof (rule ccontr)
  assume "map_find (timers w s') tid \<noteq> None"
  then obtain u where u: "map_find (timers w s') tid = Some u" by blast
  have "tt_ext s s'" using run_api_inv_ext [OF assms(1,2)] by blast
  from tt_ext_new [OF this assms(3) u] show False using assms(4) by simp
qed

lemma run_api_cancels:
  "\<lbrakk> run_api E cs s = Inr s'; tt_inv s; Api_UnRegister tid \<in> set cs; tid \<le> cur_timer_id s \<rbrakk> \<Longrightarrow>
   mute t_need_delete tid s' \<and> fired_of tid s' = fired_of tid s"
proof (induction cs arbitrary: s)
  case (Cons c cs)
  from Cons.prems(1) obtain s1 where 1: "run_api E [c] s = Inr s1" and 2: "run_api E cs s1 = Inr s'"
    by (cases c) auto
  have i1: "tt_inv s1" and ext: "tt_ext s s1" using run_api_inv_ext [OF 1 Cons.prems(2)] by blast+
  have f: "fired_of tid s1 = fired_of tid s" using tt_ext_fired [OF ext] by (simp add: fired_of_def)
  show ?case
  proof (cases "c = Api_UnRegister tid")
    case True
    then have "mute t_need_delete tid s1" using 1 UnRegister_mute(1) [OF Cons.prems(2,4)] by simp
    from run_api_mute [OF 2 i1 this] show ?thesis using f by simp
  next
    case False
    then show ?thesis using Cons.IH [OF 2 i1] Cons.prems(3,4) tt_ext_cur [OF ext] f by simp
  qed
qed simp

text \<open>
  C3. Cancellation takes effect: after \<open>UnRegister\<close> of an id that was handed out, the next
  \<open>Update\<close>, whatever the clock and the callbacks do, does not call that timer's callback, and
  neither map holds the timer afterwards.
\<close>

theorem UnRegister_silences:
  assumes "tt_reachable E s" and "tid \<le> cur_timer_id s"
    and "Update E fuel (UnRegister tid s) = Inr s'"
  shows "fired_of tid s' = fired_of tid s \<and> (\<forall>w. map_find (timers w s') tid = None)"
proof -
  have inv: "tt_inv s" by (rule tt_reachable_inv [OF assms(1)])
  show ?thesis
    using Update_mute [OF assms(3) UnRegister_inv [OF inv] UnRegister_mute(1) [OF inv assms(2)]]
      UnRegister_mute(2) [OF inv assms(2)] by simp
qed

lemmas demo_eval = demo_state_def registered_def demo_env_def get_clock_def TimerThread_def
  fresh_timer_def timers_def set_timers_def Update_def Update_step_def call_fp_def
  get_interval_macro_secs_def UnRegister_def Let_def

lemma demo_unregister_update: "\<exists>s'. Update demo_env 5 (UnRegister 1 demo_state) = Inr s'"
  by (simp add: demo_eval)

lemma demo_cur: "cur_timer_id demo_state = 1"
  by (simp add: demo_eval)

theorem UnRegister_silences_witness:
  "\<exists>s'. Update demo_env 5 (UnRegister 1 demo_state) = Inr s' \<and> fired_of 1 s' = [] \<and>
     map_find (timers2 s') 1 = None"
proof -
  obtain s' where s': "Update demo_env 5 (UnRegister 1 demo_state) = Inr s'"
    using demo_unregister_update by blast
  have "fired_of 1 demo_state = []" by (simp add: fired_of_def demo_eval)
  moreover have "fired_of 1 s' = fired_of 1 demo_state \<and> (\<forall>w. map_find (timers w s') 1 = None)"
    by (rule UnRegister_silences [OF demo_reachable _ s']) (simp add: demo_cur)
  ultimately show ?thesis using s' timers_unfold by metis
qed

lemma Update_fires_distinct:
  assumes inv: "tt_inv s" and "Update E fuel s = Inr s'"
  shows "\<exists>new. fired s' = fired s @ new \<and> distinct (map fst new)"
proof -
  from assms(2) inv obtain s1 where
    l1: "Update_loop E Timers1 fuel (map_begin (timers Timers1 s)) s = Inr s1"
    and l2: "Update_loop E Timers2 fuel (map_begin (timers Timers2 s1)) s1 = Inr s'"
    and inv1: "tt_inv s1"
    by (rule Update_cases)
  obtain new1 where n1: "fired s1 = fired s @ new1" "sorted_wrt (<) (map fst new1)"
    "\<forall>j \<in> fst ` set new1. j \<le> cur_timer_id s1 \<and>
       (\<forall>v. v \<noteq> Timers1 \<longrightarrow> map_find (timers v s1) j = None)"
    by (rule Update_loop_order [OF l1 inv, of "{}"]) auto
  have J: "\<forall>j \<in> fst ` set new1. j \<le> cur_timer_id s1 \<and> map_find (timers Timers2 s1) j = None"
  proof
    fix j assume "j \<in> fst ` set new1"
    with n1(3) have j: "j \<le> cur_timer_id s1 \<and> (\<forall>v. v \<noteq> Timers1 \<longrightarrow> map_find (timers v s1) j = None)"
      by (rule bspec)
    then show "j \<le> cur_timer_id s1 \<and> map_find (timers Timers2 s1) j = None"
      using j [THEN conjunct2, rule_format, of Timers2] by simp
  qed
  obtain new2 where n2: "fired s' = fired s1 @ new2" "sorted_wrt (<) (map fst new2)"
    "fst ` set new2 \<inter> fst ` set new1 = {}"
    by (rule Update_loop_order [OF l2 inv1 J])
  have "distinct (map fst (new1 @ new2))"
    using n1(2) n2(2,3) by (auto dest: sorted_wrt_less_distinct)
  then show ?thesis using n1(1) n2(1) by auto
qed

text \<open>
  C5. An \<open>Update\<close> from whose callbacks \<open>Update\<close> is not called again calls the callback of a timer
  id at most once, whatever registrations and cancellations the callbacks make while it runs, and
  it only appends to the calls made before. (A callback that calls \<open>Update\<close> may be called again
  by it: \<open>nested_update_recurses\<close>.)
\<close>

theorem Update_fires_at_most_once:
  assumes "tt_reachable E s" and "\<And>f u. Call_Update \<notin> set (acts f u)"
    and "nested_Update depth acts E fuel s = Inr s'"
  shows "\<exists>new. fired s' = fired s @ new \<and> distinct (map fst new)"
proof (cases depth)
  case (Suc d)
  show ?thesis
    by (rule Update_fires_distinct [OF tt_reachable_inv [OF assms(1)]])
      (use assms(3) Suc nested_Update_calls [of acts d E fuel s] assms(2) in simp)
qed (use assms(3) in simp)

text \<open>
  Timer 1 is due: its callback cancels it and registers two more, the second of which, with
  no interval, is reached by the same loop.
\<close>

definition busy_callbacks :: "nat \<Rightarrow> nat timer_thread \<Rightarrow> nat action list" where
  "busy_callbacks f u = (if f = 7 then [Call_Engine (Api_UnRegister 1), Call_Engine (Api_Register True 9 (Some 8)),
     Call_Engine (Api_Register True 0 (Some 9))] else [])"

theorem Update_fires_at_most_once_witness:
  "\<exists>s' new. nested_Update 1 busy_callbacks demo_env 5 demo_state = Inr s' \<and> fired s' = new \<and>
     distinct (map fst new) \<and> new = [(1, 7), (3, 9)]"
proof -
  have "case nested_Update 1 busy_callbacks demo_env 5 demo_state of Inl _ \<Rightarrow> False | Inr s' \<Rightarrow> fired s' = [(1, 7), (3, 9)]"
    by code_simp
  then obtain s' where s': "nested_Update 1 busy_callbacks demo_env 5 demo_state = Inr s'" "fired s' = [(1, 7), (3, 9)]"
    by (auto split: sum.splits)
  have "fired demo_state = []" by (simp add: demo_eval)
  moreover have "\<exists>new. fired s' = fired demo_state @ new \<and> distinct (map fst new)"
    by (rule Update_fires_at_most_once [OF demo_reachable _ s'(1)]) (simp add: busy_callbacks_def)
  ultimately show ?thesis using s' by auto
qed

text \<open>
  C4. The exact effect of one \<open>Update\<close> whose callbacks leave the engine alone, with the clock
  at \<open>c\<close> from its first reading in this \<open>Update\<close> on (what it read before, when the timers were
  started, is arbitrary): fuel of the size of the larger map is enough for it to return, the timers
  that fire are those that are not flagged and whose elapsed time has reached the interval, the
  first map's before the second's and each in id order; flagged and fired run-once timers leave
  the maps, the other fired ones are re-armed at \<open>c\<close>, the rest are untouched.
\<close>

theorem Update_exact:
  assumes "tt_reachable E s" and "callable s" and "silent E" and "\<forall>n \<ge> clock_reads s. clock_at E n = c"
    and "clock_freq E \<noteq> 0" and "length (timers1 s) \<le> fuel" and "length (timers2 s) \<le> fuel"
  shows "\<exists>s'. Update E fuel s = Inr s' \<and>
     timers1 s' = updated_map (clock_freq E) c (timers1 s) \<and>
     timers2 s' = updated_map (clock_freq E) c (timers2 s) \<and>
     fired s' = fired s @ firing_list (clock_freq E) c (timers1 s)
       @ firing_list (clock_freq E) c (timers2 s)"
proof -
  have inv: "tt_inv s" using assms(1) by (rule tt_reachable_inv)
  have "no_registration E" using assms(3) by (simp add: no_registration_def silent_def)
  then obtain s' where s': "Update E fuel s = Inr s'"
    using Update_total [OF _ assms(5) inv assms(2,6,7)] by blast
  from s' inv obtain s1 where
    l1: "Update_loop E Timers1 fuel (map_begin (timers Timers1 s)) s = Inr s1"
    and l2: "Update_loop E Timers2 fuel (map_begin (timers Timers2 s1)) s1 = Inr s'"
    and inv1: "tt_inv s1"
    by (rule Update_cases)
  note r1 = Update_loop_silent [OF assms(3-5) inv assms(2) l1]
  have t2: "timers Timers2 s1 = timers Timers2 s" using r1(3) [rule_format, of Timers2] by simp
  have call: "\<forall>k t. map_find (timers w s) k = Some t \<longrightarrow> t_fp t \<noteq> None" for w
    using assms(2) by (simp add: callable_def)
  have "\<forall>k t. map_find (timers w s1) k = Some t \<longrightarrow> t_fp t \<noteq> None" for w
  proof (cases w)
    case Timers1
    show ?thesis
      unfolding Timers1 r1(1) by (rule updated_map_callable [OF call tt_inv_wf [OF inv]])
  next
    case Timers2
    then show ?thesis using call [of Timers2] t2 by simp
  qed
  then have call1: "callable s1" by (simp add: callable_def)
  have "\<forall>n \<ge> clock_reads s1. clock_at E n = c" using assms(4) r1(4) by simp
  note r2 = Update_loop_silent [OF assms(3) this assms(5) inv1 call1 l2]
  show ?thesis
    using s' r1(1,2) r2 t2 by (intro exI [of _ s']) (auto dest: spec [of _ Timers1])
qed

text \<open>
  Three timers of the second map, started at 0: one of 5 milliseconds, one of 5 milliseconds that
  runs once, one of 5 seconds. The clock, which ticks every 10 milliseconds, has come to 3.
\<close>

definition tick_env :: "nat timer_env" where
  "tick_env = demo_env\<lparr>clock_at := (\<lambda>n. if n < 3 then 0 else 3)\<rparr>"

definition tick_state :: "nat timer_thread" where
  "tick_state = registered tick_env False 5000000 (Some 30)
     (registered tick_env True 5000 (Some 20)
        (registered tick_env False 5000 (Some 10) (TimerThread 28800 0) Timers2) Timers2) Timers2"

lemma tick_reachable: "tt_reachable tick_env tick_state"
proof -
  let ?a = "registered tick_env False 5000 (Some 10) (TimerThread 28800 0) Timers2"
  let ?b = "registered tick_env True 5000 (Some 20) ?a Timers2"
  have "RegisterByMilSec tick_env False 5 (Some 10) (TimerThread 28800 0) = Inr (1, ?a)"
    "RegisterByMilSec tick_env True 5 (Some 20) ?a = Inr (2, ?b)"
    "Register tick_env False 5 (Some 30) ?b = Inr (3, tick_state)"
    by code_simp+
  then show ?thesis using tt_reachable.intros by metis
qed

theorem Update_exact_witness:
  "\<exists>s'. Update tick_env 3 tick_state = Inr s' \<and> fired s' = [(1, 10), (2, 20)] \<and>
     timers2 s' = [(1, fresh_timer 1 False 5000 (Some 10) 3), (3, fresh_timer 3 False 5000000 (Some 30) 0)]"
proof -
  have m: "timers1 tick_state = []"
    "timers2 tick_state = [(1, fresh_timer 1 False 5000 (Some 10) 0), (2, fresh_timer 2 True 5000 (Some 20) 0),
       (3, fresh_timer 3 False 5000000 (Some 30) 0)]"
    "clock_reads tick_state = 3" "fired tick_state = []"
    by code_simp+
  have call: "callable tick_state"
    by (auto simp: callable_def timers_def m fresh_timer_def split: which_map.splits if_splits)
  have env: "silent tick_env" "\<forall>n \<ge> clock_reads tick_state. clock_at tick_env n = 3" "clock_freq tick_env \<noteq> 0"
    by (simp_all add: silent_def tick_env_def demo_env_def m)
  have "updated_map 100 3 (timers2 tick_state) =
      [(1, fresh_timer 1 False 5000 (Some 10) 3), (3, fresh_timer 3 False 5000000 (Some 30) 0)]"
    "firing_list 100 3 (timers2 tick_state) = [(1, 10), (2, 20)]" "firing_list 100 3 (timers1 tick_state) = []"
    "clock_freq tick_env = 100"
    by (simp_all add: m updated_map_def firing_list_def survives_def due_def elapsed_def fresh_timer_def rearm_def
        tick_env_def demo_env_def)
  then show ?thesis using Update_exact [OF tick_reachable call env, of 3] m by auto
qed

text \<open>
  C7. \<open>Update\<close> returns, and never faults, whenever the clock frequency is not zero, no timer has an
  empty callback and the callbacks do nothing to the engine but cancel timers, any of them: they register
  none and do not call \<open>Update\<close>. The loops then visit each timer of the two maps at most once, so
  fuel of the size of the larger map is enough.
\<close>

theorem Update_returns:
  assumes "tt_reachable E s" and "callable s" and "clock_freq E \<noteq> 0"
    and "\<And>f u a. a \<in> set (acts f u) \<Longrightarrow> \<exists>i. a = Call_Engine (Api_UnRegister i)"
    and "length (timers1 s) \<le> fuel" and "length (timers2 s) \<le> fuel"
  shows "\<exists>s'. nested_Update (Suc depth) acts E fuel s = Inr s' \<and> callable s'"
proof -
  let ?E = "E\<lparr>behaviour := (\<lambda>f u. engine_calls (acts f u))\<rparr>"
  have plain: "Call_Update \<notin> set (acts f u)" for f u using assms(4) [of Call_Update f u] by auto
  have "list_all is_unregister (engine_calls (acts f u))" for f u
    using assms(4) [of _ f u] by (fastforce simp: list_all_iff engine_calls_def is_unregister_def)
  then have "no_registration ?E" by (simp add: no_registration_def)
  then show ?thesis
    using Update_total [of ?E s fuel] tt_reachable_inv [OF assms(1)] assms(2,3,5,6) nested_Update_calls [where acts = acts, OF plain, of depth E fuel s]
    by simp
qed

theorem Update_returns_witness:
  "\<exists>s'. nested_Update 1 (\<lambda>f u. [Call_Engine (Api_UnRegister 1), Call_Engine (Api_UnRegister 2)]) tick_env 3 tick_state = Inr s' \<and>
     callable s'"
proof -
  have m: "timers1 tick_state = []"
    "timers2 tick_state = [(1, fresh_timer 1 False 5000 (Some 10) 0), (2, fresh_timer 2 True 5000 (Some 20) 0),
       (3, fresh_timer 3 False 5000000 (Some 30) 0)]" by code_simp+
  have "callable tick_state"
    by (auto simp: callable_def timers_def m fresh_timer_def split: which_map.splits if_splits)
  moreover have "clock_freq tick_env \<noteq> 0" by (simp add: tick_env_def demo_env_def)
  ultimately show ?thesis
    using Update_returns [OF tick_reachable, of "\<lambda>f u. [Call_Engine (Api_UnRegister 1), Call_Engine (Api_UnRegister 2)]" 3 0] m
    by fastforce
qed

text \<open>
  C26. A callback that registers itself again with interval 0 keeps \<open>Update\<close> busy for ever: the
  new timer has a greater id, so the running loop reaches it, and it is due at once. After one
  such registration on a fresh engine no amount of fuel makes \<open>Update\<close> return normally.
\<close>

theorem zero_interval_reregistration_diverges:
  assumes "\<forall>s. behaviour E f s = [Api_Register r 0 (Some f)]"
    and "\<forall>i. \<exists>l ls. try_locks E i = (True, l) # ls"
    and "Register E r 0 (Some f) (TimerThread ts_l ts_g) = Inr (tid, s)"
  shows "Update E fuel s \<noteq> Inr s'"
proof
  assume run: "Update E fuel s = Inr s'"
  let ?t0 = "TimerThread ts_l ts_g :: 'a timer_thread"
  have s: "s = registered E r 0 (Some f) ?t0 Timers2"
    using Register_lock2(2) [OF assms(3)] assms(2) by (simp add: sec_to_us_def)
  have ra: "runaway f s"
    unfolding s by (rule registered_runaway [OF _ TimerThread_inv]) (simp add: runaway_def TimerThread_def)
  have inv: "tt_inv s" unfolding s by (rule registered_inv [OF TimerThread_inv])
  have t: "timers1 s = []" "timers2 s \<noteq> []"
    unfolding s by (simp_all add: registered_def TimerThread_def Let_def timers_def set_timers_def)
  have "Update_loop E Timers2 fuel (map_begin (timers Timers2 s)) s = Inr s'"
    using run t(1) by (simp add: Update_def)
  with Update_loop_runaway [OF assms(1,2) inv ra t(2)] show False by blast
qed

definition loop_env :: "nat timer_env" where
  "loop_env = demo_env\<lparr>behaviour := (\<lambda>f _. [Api_Register False 0 (Some f)])\<rparr>"

theorem zero_interval_reregistration_diverges_witness:
  "\<exists>s. Register loop_env False 0 (Some 4) (TimerThread 0 0) = Inr (1, s) \<and>
     (\<forall>fuel s'. Update loop_env fuel s \<noteq> Inr s')"
proof -
  have "\<exists>s. Register loop_env False 0 (Some 4) (TimerThread 0 0) = Inr (1, s)"
    by (simp add: Register_def loop_env_def demo_eval open_sec_def new_etimer_def int_max_def)
  then obtain s where s: "Register loop_env False 0 (Some 4) (TimerThread 0 0) = Inr (1, s)"
    by blast
  have "Update loop_env fuel s \<noteq> Inr s'" for fuel s'
    by (rule zero_interval_reregistration_diverges [OF _ _ s])
      (auto simp: loop_env_def demo_env_def)
  with s show ?thesis by blast
qed

text \<open>
  C27. Elapsed time is computed as a 64-bit product divided by the clock frequency, so it never
  exceeds \<open>(2 ^ 64 - 1) div freq\<close> microseconds: a timer with a longer interval never fires, in
  any \<open>Update\<close>, however late. (At the usual 10 MHz of the Windows counter this is every interval
  over 1844674 seconds, about 21 days.)
\<close>

theorem long_interval_never_fires:
  assumes "tt_reachable E s" and "Update E fuel s = Inr s'"
    and "map_find (timers w s) tid = Some t"
    and "(2 ^ 64 - 1) div unat (clock_freq E) < unat (t_interval t)"
  shows "fired_of tid s' = fired_of tid s"
proof -
  have inv: "tt_inv s" using assms(1) by (rule tt_reachable_inv)
  have mute: "mute (never_due E) tid s"
    unfolding mute_def
  proof (intro conjI allI impI)
    show "tid \<le> cur_timer_id s" using tt_inv_entry [OF inv assms(3)] by (simp add: entry_ok_def)
    fix v u assume u: "map_find (timers v s) tid = Some u"
    then have "v = w" using tt_inv_disjoint [OF inv assms(3), of v] by (cases "v = w") simp_all
    with u assms(3,4) show "never_due E u" by (simp add: never_due_def)
  qed
  from assms(2) inv obtain s1 where
    l1: "Update_loop E Timers1 fuel (map_begin (timers Timers1 s)) s = Inr s1"
    and l2: "Update_loop E Timers2 fuel (map_begin (timers Timers2 s1)) s1 = Inr s'"
    and inv1: "tt_inv s1"
    by (rule Update_cases)
  note m1 = Update_loop_never_due_mute [OF l1 inv mute]
  from Update_loop_never_due_mute [OF l2 inv1 m1 [THEN conjunct1]] m1 show ?thesis by simp
qed

definition windows_env :: "nat timer_env" where
  "windows_env = demo_env\<lparr>clock_at := (\<lambda>n. if n = 0 then 0 else 10000000 * 60 * 60 * 24 * 40),
     clock_freq := 10000000\<rparr>"

text \<open>Thirty days registered, forty days later: due, and not fired.\<close>

theorem long_interval_never_fires_witness:
  "\<exists>s s'. Register windows_env False 2592000 (Some 3) (TimerThread 0 0) = Inr (1, s) \<and>
     Update windows_env 1 s = Inr s' \<and> fired_of 1 s' = []"
proof -
  let ?t0 = "TimerThread 0 0 :: nat timer_thread"
  let ?s = "registered windows_env False (sec_to_us 2592000) (Some 3) ?t0 Timers2"
  have s: "Register windows_env False 2592000 (Some 3) ?t0 = Inr (1, ?s)"
    by (simp add: Register_def windows_env_def demo_eval open_sec_def new_etimer_def int_max_def)
  have r: "tt_reachable windows_env ?s" by (rule tt_reachable.register [OF tt_reachable.init s])
  have "\<exists>s'. Update windows_env 1 ?s = Inr s'"
  proof -
    have "callable ?s" by (simp add: callable_def windows_env_def demo_eval split: which_map.split)
    moreover have "no_registration windows_env" "clock_freq windows_env \<noteq> 0"
      by (simp_all add: no_registration_def windows_env_def demo_env_def)
    moreover have "length (timers1 ?s) \<le> 1" "length (timers2 ?s) \<le> 1" by (simp_all add: demo_eval)
    ultimately show ?thesis using Update_total [OF _ _ tt_reachable_inv [OF r]] by blast
  qed
  then obtain s' where s': "Update windows_env 1 ?s = Inr s'" by blast
  have t: "map_find (timers Timers2 ?s) 1 =
      Some (fresh_timer 1 False (sec_to_us 2592000) (Some 3) (clock_at windows_env 0))"
    by (simp add: windows_env_def demo_eval)
  have "fired_of 1 s' = fired_of 1 ?s"
    by (rule long_interval_never_fires [OF r s' t])
      (simp add: fresh_timer_def unat_sec_to_us windows_env_def demo_env_def)
  moreover have "fired_of 1 ?s = []" by (simp add: fired_of_def demo_eval)
  ultimately show ?thesis using s s' by auto
qed

section \<open>Time arithmetic\<close>

text \<open>
  The elapsed time between two readings is the exact number of microseconds, rounded down,
  as long as the clock did not go back and the difference times a million fits 64 bits; and the
  two interval conversions never wrap.
\<close>

theorem elapsed_time_exact:
  assumes "freq \<noteq> 0" and "start_clock \<le> end_clock"
    and "(unat end_clock - unat start_clock) * 1000000 < 2 ^ 64"
  shows "(\<exists>t. get_interval_macro_secs freq end_clock start_clock = Inr t \<and>
       unat t = (unat end_clock - unat start_clock) * 1000000 div unat freq) \<and>
    unat (sec_to_us i) = unat i * 1000000 \<and> unat (milsec_to_us i) = unat i * 1000"
proof -
  have "get_interval_macro_secs freq end_clock start_clock =
      Inr ((end_clock - start_clock) * 1000000 div freq)"
    using assms(1) by (simp add: get_interval_macro_secs_def)
  with interval_exact_aux [OF assms] show ?thesis
    by (simp add: unat_sec_to_us unat_milsec_to_us)
qed

theorem elapsed_time_exact_witness:
  "(100 :: u64) \<noteq> 0 \<and> (\<exists>t. get_interval_macro_secs 100 250 50 = Inr t \<and> unat t = 2000000)"
  using elapsed_time_exact [of 100 50 250 0] by simp

text \<open>
  The wall clock: both platforms' microsecond clocks give back the seconds the system
  reported, for every time below \<open>2 ^ 44\<close> seconds.
\<close>

theorem time_sec_exact:
  assumes "sec < 2 ^ 44" and "us < 1000000" and "ms < 1000"
  shows "unat (time_sec (systime_posix sec us)) = sec \<and>
    unat (time_sec (systime_windows sec ms)) = sec"
  using systime_seconds [OF assms(1)] assms(2,3) by (simp add: unat_time_sec)

theorem time_sec_exact_witness:
  "unat (time_sec (systime_posix 1451088000 999999)) = 1451088000"
  using time_sec_exact [of 1451088000 999999 0] by simp

text \<open>
  The calendar test in time zones east of or at Greenwich: if the last trigger was at or
  after the trigger moment of its own period, the test says whether a trigger moment (a multiple
  of the period plus the offset, in local time) lies after the last trigger and not after now.
\<close>

theorem calendar_test_east:
  assumes "unat systime div 1000000 = N"
    and "0 < P" and "P < 2 ^ 31" and "at < P" and "L \<le> N" and "L < 2 ^ 31"
    and "N + z < 2 ^ 32" and "at \<le> (L + z) mod P"
  shows "IfTriggerLocalTimer systime (of_nat z) (int L) (int P) (int at) =
    Inr (trigger_between P at (L + z) (N + z))"
proof -
  have N: "unat (time_sec systime + ucast (of_nat z :: u32)) = N + z"
    unfolding time_sec_of_nat [OF assms(1)] using assms(7) by (rule local_sec_nat)
  have L: "unat (word_of_int (int L) + (of_nat z :: u32)) = L + z"
    using assms(5,7) by (intro local_last_nat) simp
  have "IfTriggerLocalTimer systime (of_nat z) (int L) (int P) (int at) =
    Inr (if (N + z) div P = (L + z) div P then False
         else if (N + z) div P = (L + z) div P + 1 then at \<le> (N + z) mod P else True)"
    using assms(2-4)
    by (subst IfTriggerLocalTimer_nat [OF _ _ _ _ N [symmetric] L [symmetric]]) (auto simp: Let_def)
  moreover have "trigger_between P at (L + z) (N + z) \<longleftrightarrow>
    (if (N + z) div P = (L + z) div P then False
     else if (N + z) div P = (L + z) div P + 1 then at \<le> (N + z) mod P else True)"
    using calendar_sound [of P at "L + z" "N + z"] calendar_complete [of P at "L + z" "N + z"]
      assms(2,4,5,8) by (meson add_le_mono1)
  ultimately show ?thesis by simp
qed

text \<open>Daily at 05:00 in UTC+8: last triggered at 06:00 local, now 05:00 the next day.\<close>

theorem calendar_test_east_witness:
  "IfTriggerLocalTimer (systime_posix 162000 0) (of_nat 28800) (int 79200) (int 86400) (int 18000) =
     Inr (trigger_between 86400 18000 (79200 + 28800) (162000 + 28800))"
  by (rule calendar_test_east [OF systime_seconds(1)]) simp_all

text \<open>
  In every whole-hour time zone west of Greenwich the calendar test is always true, for
  every period and every trigger offset, even when the last trigger is now: the zone is kept as
  an unsigned 32-bit number and added to a 64-bit time, so the local time is \<open>2 ^ 32\<close> too large.
\<close>

theorem calendar_test_west_always_true:
  assumes "unat systime div 1000000 = N" and "0 < h" and "h \<le> 12" and "h * 3600 \<le> L"
    and "L \<le> N" and "L < 2 ^ 31" and "N < 2 ^ 32" and "0 < P" and "P < 2 ^ 31" and "at < P"
  shows "IfTriggerLocalTimer systime (Init_time_zone_sec (- (int h * 3600)) 0)
     (int L) (int P) (int at) = Inr True"
proof -
  let ?z = "word_of_int (- (int h * 3600)) :: u32"
  have zone: "Init_time_zone_sec (- (int h * 3600)) 0 = ?z"
    using assms(2,3) by (rule Init_time_zone_west)
  have N: "unat (time_sec systime + ucast ?z) = N + (2 ^ 32 - h * 3600)"
    unfolding time_sec_of_nat [OF assms(1)] using assms(2,3,7) by (rule local_sec_west)
  have L: "unat (word_of_int (int L) + ?z) = L - h * 3600"
    using assms(4,6) by (rule local_last_west)
  have "(L - h * 3600) div P + 2 \<le> (N + (2 ^ 32 - h * 3600)) div P"
    using assms by (intro div_two_apart) simp_all
  then show ?thesis
    unfolding zone using assms(8-10)
    by (subst IfTriggerLocalTimer_nat [OF _ _ _ _ N [symmetric] L [symmetric]]) (auto simp: Let_def)
qed

text \<open>Five hours west, last triggered right now: the daily timer triggers again.\<close>

theorem calendar_test_west_always_true_witness:
  "IfTriggerLocalTimer (systime_posix 1000000 0) (Init_time_zone_sec (- (int 5 * 3600)) 0)
     (int 1000000) (int 86400) (int 0) = Inr True"
  by (rule calendar_test_west_always_true [OF systime_seconds(1)]) simp_all

text \<open>
  \<open>Init\<close> computes the zone in whole hours: an offset that is not a multiple of an hour loses
  the rest (towards zero), and an offset of 16 hours or more ahead, or 13 or more behind,
  becomes eight hours.
\<close>

theorem time_zone_whole_hours:
  assumes "\<bar>ts_l - ts_g\<bar> < 2 ^ 31 * 3600"
  shows "Init_time_zone_sec ts_l ts_g = word_of_int
     (if -13 * 3600 < ts_l - ts_g \<and> ts_l - ts_g < 16 * 3600
      then ts_l - ts_g - sgn (ts_l - ts_g) * (\<bar>ts_l - ts_g\<bar> mod 3600) else 8 * 3600)"
  using assms by (rule Init_time_zone_hours)

text \<open>India, five hours and a half ahead, is five hours ahead.\<close>

theorem time_zone_whole_hours_witness: "Init_time_zone_sec 19800 0 = 18000"
  using time_zone_whole_hours [of 19800 0] by simp

section \<open>Function timings\<close>

text \<open>
  \<open>fun_time_test_begin\<close> followed by \<open>fun_time_test_end\<close> of the same name adds the difference
  of the two clock readings to that name's sum, starting from zero for a new name, and leaves
  every other name alone.
\<close>

theorem fun_time_accumulates:
  assumes "map_wf (fun_time_test s)"
    and "s' = fun_time_test_end E name (fun_time_test_begin E name s)"
  shows "map_find (fun_time_test s') name =
      Some \<lparr>ft_begin = clock_at E (clock_reads s), ft_end = clock_at E (Suc (clock_reads s)),
        ft_sum = (case map_find (fun_time_test s) name of None \<Rightarrow> 0 | Some e \<Rightarrow> ft_sum e)
          + (clock_at E (Suc (clock_reads s)) - clock_at E (clock_reads s))\<rparr> \<and>
    (\<forall>other. other \<noteq> name \<longrightarrow>
       map_find (fun_time_test s') other = map_find (fun_time_test s) other)"
  unfolding assms(2)
  using assms(1)
  by (auto simp: fun_time_test_end_def fun_time_test_begin_def get_clock_def Let_def
      fun_time_update_find fun_time_update_wf split: option.splits)

theorem fun_time_accumulates_witness:
  "map_find (fun_time_test (fun_time_test_end demo_env ''f'' (fun_time_test_begin demo_env ''f'' demo_state)))
     ''f'' = Some \<lparr>ft_begin = 1, ft_end = 2, ft_sum = 1\<rparr>"
proof -
  have "map_wf (fun_time_test demo_state)" "fun_time_test demo_state = []" "clock_reads demo_state = 1"
    by (simp_all add: demo_eval)
  with fun_time_accumulates [of demo_state _ demo_env "''f''", OF _ refl] show ?thesis
    by (simp add: demo_env_def)
qed

end
