(* ===== verification/Schedule.thy ===== *)
theory Schedule
  imports Qing_Prelude
begin

text \<open>
  Runs of several threads, one step at a time in the order of a schedule, and the contracts of
  a thread whose call comes to its end: each of its steps brings the end nearer, and a step of
  another thread moves it away by a bounded number of steps (\<open>paced\<close>), or by none (\<open>wait_free\<close>).
  Such a call returns in every schedule that gives the thread its turns.
\<close>

fun run_steps :: "('t \<Rightarrow> 's \<Rightarrow> 's res) \<Rightarrow> 't list \<Rightarrow> 's \<Rightarrow> 's res" where
  "run_steps step [] s = Inr s"
| "run_steps step (a # sched) s = res_bind (step a s) (run_steps step sched)"

lemma run_steps_append: "run_steps step (as @ bs) s = res_bind (run_steps step as s) (run_steps step bs)"
  by (induction as arbitrary: s) (simp_all add: res_bind_def split: sum.split)

text \<open>
  What the steps that the schedule may have keep, its runs keep; what faults a step, faults the
  run; and if each step goes on, so does the run.
\<close>

lemma run_steps_keep:
  assumes "run_steps step sched s = Inr t" and "I s" and "list_all ok sched"
    and "\<And>a s t. I s \<Longrightarrow> ok a \<Longrightarrow> step a s = Inr t \<Longrightarrow> I t"
  shows "I t"
  using assms(1-3) by (induction sched arbitrary: s) (auto dest: assms(4))

lemma run_steps_fault:
  assumes "run_steps step sched s = Inl f" and "I s" and "list_all ok sched"
    and "\<And>a s t. I s \<Longrightarrow> ok a \<Longrightarrow> step a s = Inr t \<Longrightarrow> I t"
  obtains a s where "I s" "ok a" "step a s = Inl f"
  using assms(1-3)
proof (induction sched arbitrary: s thesis)
  case (Cons a sched)
  show ?case
  proof (cases "step a s")
    case (Inl g)
    then show ?thesis using Cons.prems(1) [of s a] Cons.prems(2-4) by simp
  next
    case (Inr t)
    then have "run_steps step sched t = Inl f" "I t" "list_all ok sched" using Cons.prems assms(4) by auto
    then show ?thesis using Cons.IH Cons.prems(1) by blast
  qed
qed simp

lemma run_steps_total:
  assumes "I s" and "list_all ok sched" and "\<And>a s. I s \<Longrightarrow> ok a \<Longrightarrow> \<exists>t. step a s = Inr t \<and> I t"
  shows "\<exists>t. run_steps step sched s = Inr t \<and> I t"
  using assms(1,2)
proof (induction sched arbitrary: s)
  case (Cons a sched)
  then obtain t where "step a s = Inr t" "I t" using assms(3) [of s a] by auto
  then show ?case using Cons by simp
qed simp

text \<open>\<open>near s d\<close>: the call returns within \<open>d\<close> steps of its own, if no other thread intervenes.\<close>

locale paced =
  fixes step :: "'t \<Rightarrow> 's \<Rightarrow> 's res"
    and own :: "'t \<Rightarrow> bool"
    and returned :: "'s \<Rightarrow> bool"
    and near :: "'s \<Rightarrow> nat \<Rightarrow> bool"
    and cost :: nat
  assumes near_0: "near s 0 \<Longrightarrow> returned s"
    and own_near: "\<lbrakk> near s d; own a; \<not> returned s \<rbrakk> \<Longrightarrow> \<exists>t d'. step a s = Inr t \<and> near t d' \<and> d' < d"
    and other_near: "\<lbrakk> near s d; \<not> own a \<rbrakk> \<Longrightarrow> \<exists>t d'. step a s = Inr t \<and> near t d' \<and> d' \<le> d + cost"
begin

lemma comes_near:
  "near s d \<Longrightarrow> d + cost * length (filter (\<lambda>a. \<not> own a) sched) \<le> length (filter own sched) \<Longrightarrow>
   \<exists>k \<le> length sched. \<exists>t. run_steps step (take k sched) s = Inr t \<and> returned t \<and> (\<exists>d. near t d)"
proof (induction sched arbitrary: s d)
  case Nil
  then show ?case using near_0 by auto
next
  case (Cons a sched)
  show ?case
  proof (cases "returned s")
    case True
    then show ?thesis using Cons.prems(1) by (intro exI [of _ 0]) auto
  next
    case False
    obtain t d' where t: "step a s = Inr t" "near t d'"
      "d' + cost * length (filter (\<lambda>a. \<not> own a) sched) \<le> length (filter own sched)"
    proof (cases "own a")
      case True
      obtain t d' where "step a s = Inr t" "near t d'" "d' < d"
        using own_near [OF Cons.prems(1) True False] by blast
      then show ?thesis using that [of t d'] Cons.prems(2) True by simp
    next
      case other: False
      obtain t d' where "step a s = Inr t" "near t d'" "d' \<le> d + cost"
        using other_near [OF Cons.prems(1) other] by blast
      then show ?thesis using that [of t d'] Cons.prems(2) other by (simp add: algebra_simps)
    qed
    obtain k u where "k \<le> length sched" "run_steps step (take k sched) t = Inr u" "returned u \<and> (\<exists>d. near u d)"
      using Cons.IH [OF t(2,3)] by blast
    then show ?thesis using t(1) by (intro exI [of _ "Suc k"]) simp
  qed
qed

end

locale wait_free =
  fixes step :: "'t \<Rightarrow> 's \<Rightarrow> 's res"
    and own :: "'t \<Rightarrow> bool"
    and left :: "'s \<Rightarrow> nat"
    and invar :: "'s \<Rightarrow> bool"
  assumes own_step: "\<lbrakk> invar s; own a; left s \<noteq> 0 \<rbrakk> \<Longrightarrow> \<exists>t. step a s = Inr t \<and> invar t \<and> left t < left s"
    and other_step: "\<lbrakk> invar s; \<not> own a \<rbrakk> \<Longrightarrow> \<exists>t. step a s = Inr t \<and> invar t \<and> left t \<le> left s"

sublocale wait_free \<subseteq> paced step own "\<lambda>s. left s = 0" "\<lambda>s d. invar s \<and> left s = d" 0
  by unfold_locales (use own_step other_step in fastforce)+

context wait_free
begin

lemma returns:
  "invar s \<Longrightarrow> left s \<le> length (filter own sched) \<Longrightarrow>
   \<exists>k \<le> length sched. \<exists>t. run_steps step (take k sched) s = Inr t \<and> left t = 0"
  using comes_near [of s "left s" sched] by auto

lemma returns_inv:
  "invar s \<Longrightarrow> left s \<le> length (filter own sched) \<Longrightarrow>
   \<exists>k \<le> length sched. \<exists>t. run_steps step (take k sched) s = Inr t \<and> left t = 0 \<and> invar t"
  using comes_near [of s "left s" sched] by auto

end

end
