(* ===== verification/Timer_Threads.thy ===== *)
theory Timer_Threads
  imports Timer_Calls Schedule
begin

text \<open>
  The timer engine with several threads: one thread runs \<open>Update\<close> over and over, any number of
  clients call \<open>Register\<close>, \<open>RegisterByMilSec\<close> and \<open>UnRegister\<close>, and the callbacks, which run on
  the updating thread, make such calls too. The updating thread holds the mutex of a map while
  its loop is inside that map; a client holds a mutex for a single step only; the mutexes are
  recursive, so a callback's call never waits for its own thread. A move names the thread whose
  turn it is. A thread that waits for a mutex stays where it is.
\<close>

section \<open>Threads\<close>

text \<open>
  The updating thread: outside \<open>Update\<close>; in the loop of a map, with its iterator; in the callback
  of the timer at the iterator, with the calls it has still to make and the place of the current
  one; between the two loops.
\<close>

datatype 'f upd_pc =
    U_Out
  | U_Loop which_map "int option"
  | U_Fire which_map int "'f api list" "'f call_pc"
  | U_Between

record 'f engine_threads =
  engine :: "'f timer_thread"
  updater :: "'f upd_pc"
  client :: "nat \<Rightarrow> 'f call_pc"

datatype 'f move =
    Updater bool
  | Call nat "'f api"
  | Call_Torn nat "'f api"
  | Client nat bool

section \<open>Moves\<close>

text \<open>The map whose mutex the updating thread holds.\<close>

definition held :: "'f upd_pc \<Rightarrow> which_map \<Rightarrow> bool" where
  "held u w = (case u of U_Loop v _ \<Rightarrow> v = w | U_Fire v _ _ _ \<Rightarrow> v = w | _ \<Rightarrow> False)"

text \<open>The body of the loop up to the call of the callback, and from its return on.\<close>

definition loop_step :: "'f timer_env \<Rightarrow> which_map \<Rightarrow> int \<Rightarrow> 'f timer_thread \<Rightarrow> ('f upd_pc \<times> 'f timer_thread) res" where
  "loop_step E w k e =
     (case map_find (timers w e) k of
        None \<Rightarrow> Inl Bad_Iterator
      | Some timer \<Rightarrow>
          if t_need_delete timer
          then Inr (U_Loop w (map_next (timers w e) k), set_timers w (map_erase (timers w e) k) e)
          else let (now_clock, e1) = get_clock E e in
            res_bind (get_interval_macro_secs (clock_freq E) now_clock (t_startclock timer))
              (\<lambda>interval_time.
                 if t_leftsecs timer \<le> interval_time then
                   case t_fp timer of
                     None \<Rightarrow> Inl Bad_Function_Call
                   | Some f \<Rightarrow> Inr (U_Fire w k (behaviour E f e1) K_Out, e1\<lparr>fired := fired e1 @ [(k, f)]\<rparr>)
                 else Inr (U_Loop w (map_next (timers w e1) k), e1)))"

definition after_fire :: "'f timer_env \<Rightarrow> which_map \<Rightarrow> int \<Rightarrow> 'f timer_thread \<Rightarrow> ('f upd_pc \<times> 'f timer_thread) res" where
  "after_fire E w k e =
     (case map_find (timers w e) k of
        None \<Rightarrow> Inl Bad_Iterator
      | Some timer \<Rightarrow>
          let (start, e1) = get_clock E e;
              timer = timer\<lparr>t_leftsecs := t_interval timer, t_startclock := start\<rparr>;
              e2 = set_timers w (map_assign (timers w e1) k timer) e1
          in if t_run_once timer
             then Inr (U_Loop w (map_next (timers w e2) k), set_timers w (map_erase (timers w e2) k) e2)
             else Inr (U_Loop w (map_next (timers w e2) k), e2))"

definition upd_step :: "'f timer_env \<Rightarrow> bool \<Rightarrow> 'f upd_pc \<Rightarrow> 'f timer_thread \<Rightarrow> ('f upd_pc \<times> 'f timer_thread) res" where
  "upd_step E lucky u e =
     (case u of
        U_Out \<Rightarrow> Inr (U_Loop Timers1 (map_begin (timers Timers1 e)), e)
      | U_Loop w (Some k) \<Rightarrow> loop_step E w k e
      | U_Loop Timers1 None \<Rightarrow> Inr (U_Between, e)
      | U_Between \<Rightarrow> Inr (U_Loop Timers2 (map_begin (timers Timers2 e)), e)
      | U_Loop Timers2 None \<Rightarrow> Inr (U_Out, e)
      | U_Fire w k cs p \<Rightarrow>
          if outside p then
            (case cs of
               [] \<Rightarrow> after_fire E w k e
             | c # cs \<Rightarrow> res_bind (begin_call (\<lambda>_. False) c p e) (\<lambda>(p, e). Inr (U_Fire w k cs p, e)))
          else res_bind (call_step E (\<lambda>_. False) lucky p e) (\<lambda>(p, e). Inr (U_Fire w k cs p, e)))"

definition updater_move :: "'f timer_env \<Rightarrow> bool \<Rightarrow> 'f engine_threads \<Rightarrow> 'f engine_threads res" where
  "updater_move E lucky s =
     res_bind (upd_step E lucky (updater s) (engine s)) (\<lambda>(u, e). Inr (s\<lparr>engine := e, updater := u\<rparr>))"

definition client_to :: "nat \<Rightarrow> ('f call_pc \<times> 'f timer_thread) res \<Rightarrow> 'f engine_threads \<Rightarrow> 'f engine_threads res" where
  "client_to c r s = res_bind r (\<lambda>(p, e). Inr (s\<lparr>engine := e, client := (client s)(c := p)\<rparr>))"

text \<open>A client that is outside its calls begins one; another goes on.\<close>

definition engine_move :: "'f timer_env \<Rightarrow> 'f move \<Rightarrow> 'f engine_threads \<Rightarrow> 'f engine_threads res" where
  "engine_move E m s =
     (case m of
        Updater lucky \<Rightarrow> updater_move E lucky s
      | Call c a \<Rightarrow>
          if outside (client s c)
          then client_to c (begin_call (held (updater s)) a (client s c) (engine s)) s else Inr s
      | Call_Torn c a \<Rightarrow>
          if outside (client s c)
          then client_to c (Inr (read_counter a (client s c) (engine s), engine s)) s else Inr s
      | Client c lucky \<Rightarrow> client_to c (call_step E (held (updater s)) lucky (client s c) (engine s)) s)"

abbreviation engine_run :: "'f timer_env \<Rightarrow> 'f move list \<Rightarrow> 'f engine_threads \<Rightarrow> 'f engine_threads res" where
  "engine_run E \<equiv> run_steps (engine_move E)"

definition engine_start :: "int \<Rightarrow> int \<Rightarrow> 'f engine_threads" where
  "engine_start ts_l ts_g = \<lparr>engine = TimerThread ts_l ts_g, updater = U_Out, client = (\<lambda>_. K_Out)\<rparr>"

fun atomic_count :: "'f move \<Rightarrow> bool" where
  "atomic_count (Call_Torn _ _) = False"
| "atomic_count _ = True"

section \<open>Invariant\<close>

text \<open>The calls of all threads: the callback's is that of \<open>None\<close>. The entry the updater is at.\<close>

definition call_of :: "'f upd_pc \<Rightarrow> 'f call_pc" where
  "call_of u = (case u of U_Fire _ _ _ p \<Rightarrow> p | _ \<Rightarrow> K_Out)"

definition call_at :: "'f upd_pc \<Rightarrow> (nat \<Rightarrow> 'f call_pc) \<Rightarrow> nat option \<Rightarrow> 'f call_pc" where
  "call_at u cl c = (case c of None \<Rightarrow> call_of u | Some d \<Rightarrow> cl d)"

definition entry_at :: "'f upd_pc \<Rightarrow> (which_map \<times> int) option" where
  "entry_at u = (case u of U_Loop w (Some k) \<Rightarrow> Some (w, k) | U_Fire w k _ _ \<Rightarrow> Some (w, k) | _ \<Rightarrow> None)"

definition threads_inv :: "'f engine_threads \<Rightarrow> bool" where
  "threads_inv s \<longleftrightarrow> calls_inv (engine s) (call_at (updater s) (client s)) \<and>
     (\<forall>w k. entry_at (updater s) = Some (w, k) \<longrightarrow> map_find (timers w (engine s)) k \<noteq> None)"

lemma call_of_simps [simp]:
  "call_of (U_Fire w k cs p) = p" "call_of U_Out = K_Out" "call_of U_Between = K_Out" "call_of (U_Loop w it) = K_Out"
  by (simp_all add: call_of_def)

lemma call_at_simps [simp]:
  "call_at u cl None = call_of u" "call_at u cl (Some d) = cl d"
  "(call_at u cl)(Some d := p) = call_at u (cl(d := p))" "(call_at u cl)(None := call_of u') = call_at u' cl"
  by (auto simp: call_at_def fun_eq_iff split: option.split)

lemma entry_at_simps [simp]:
  "entry_at U_Out = None" "entry_at U_Between = None" "entry_at (U_Fire w k cs p) = Some (w, k)"
  "entry_at (U_Loop w it) = map_option (Pair w) it"
  by (auto simp: entry_at_def split: option.split)

lemma held_simps [simp]:
  "held (U_Loop v it) w \<longleftrightarrow> v = w" "held (U_Fire v k cs p) w \<longleftrightarrow> v = w" "\<not> held U_Out w" "\<not> held U_Between w"
  by (simp_all add: held_def)

lemma held_entry: "entry_at u = Some (w, k) \<Longrightarrow> held u w"
  by (cases u) auto


text \<open>
  What the two pieces of the loop body do: the keys shrink, by the current one at most, and the
  next iterator points to an entry that is there.
\<close>

lemma loop_step_cases:
  assumes "loop_step E w k e = Inr (u, e')" and tt: "tt_inv e"
  shows "tt_inv e' \<and> cur_timer_id e' = cur_timer_id e \<and>
    (\<forall>v j. map_find (timers v e) j = None \<longrightarrow> map_find (timers v e') j = None) \<and>
    (\<forall>v. v \<noteq> w \<longrightarrow> timers v e' = timers v e) \<and>
    (u = U_Loop w (map_next (timers w e') k) \<or>
     (\<exists>cs. u = U_Fire w k cs K_Out) \<and> map_find (timers w e') k \<noteq> None)"
proof -
  obtain t where t: "map_find (timers w e) k = Some t" using assms(1) by (auto simp: loop_step_def split: option.splits)
  have wf: "map_wf (timers w e)" using tt by (rule tt_inv_wf)
  have clock: "tt_inv (e\<lparr>clock_reads := n\<rparr>)" "tt_inv (e\<lparr>clock_reads := n, fired := l\<rparr>)" for n l
    by (rule tt_inv_frame [OF tt]; simp)+
  show ?thesis
  proof (cases "t_need_delete t")
    case True
    then show ?thesis
      using assms(1) t erase_inv [OF tt, of w k] wf
      by (auto simp: loop_step_def sm.succ_erase sm.find_erase split: if_splits)
  qed (use assms(1) t clock in \<open>auto simp: loop_step_def get_clock_def split: if_splits option.splits\<close>)
qed

lemma after_fire_cases:
  assumes "after_fire E w k e = Inr (u, e')" and tt: "tt_inv e"
  shows "tt_inv e' \<and> cur_timer_id e' = cur_timer_id e \<and>
    (\<forall>v j. map_find (timers v e) j = None \<longrightarrow> map_find (timers v e') j = None) \<and>
    (\<forall>v. v \<noteq> w \<longrightarrow> timers v e' = timers v e) \<and>
    u = U_Loop w (map_next (timers w e') k)"
proof -
  obtain t where t: "map_find (timers w e) k = Some t" using assms(1) by (auto simp: after_fire_def split: option.splits)
  let ?e1 = "e\<lparr>clock_reads := Suc (clock_reads e)\<rparr>" and ?t = "rearm (clock_at E (clock_reads e)) t"
  let ?e2 = "set_timers w (map_assign (timers w e) k ?t) ?e1"
  have tt1: "tt_inv ?e1" by (rule tt_inv_frame [OF tt]) simp_all
  have "entry_ok ?e1 k ?t" using tt_inv_entry [OF tt t] by (simp add: entry_ok_def rearm_def)
  then have tt2: "tt_inv ?e2" using assign_inv [OF tt1, of k ?t w] by simp
  have wf: "map_wf (timers w e)" "map_wf (timers w ?e2)" using tt tt2 by (simp_all only: tt_inv_wf)
  have "u = U_Loop w (map_next (timers w ?e2) k)" "e' = (if t_run_once t then set_timers w (map_erase (timers w ?e2) k) ?e2 else ?e2)"
    using assms(1) t by (auto simp: after_fire_def get_clock_def Let_def rearm_def split: if_splits)
  then show ?thesis
    using tt2 erase_inv [OF tt2, of w k] wf by (auto simp: sm.succ_erase sm.find_erase map_find_assign split: if_splits)
qed

lemma next_there:
  assumes "tt_inv e" and "map_next (timers w e) k = Some j"
  shows "map_find (timers w e) j \<noteq> None"
  using assms by (auto simp: map_find_None_iff dest: map_next_in_keys)

text \<open>
  A step of the updating thread whose call is the one of \<open>c\<close>: the invariant of the calls is kept,
  the thread is at an entry that is there, and the map it does not hold loses no key.
\<close>

definition upd_kept :: "('i \<Rightarrow> 'f call_pc) \<Rightarrow> 'i \<Rightarrow> 'f upd_pc \<Rightarrow> 'f timer_thread \<Rightarrow> 'f upd_pc \<Rightarrow> 'f timer_thread \<Rightarrow> bool" where
  "upd_kept P c u e u' e' \<longleftrightarrow> calls_inv e' (P(c := call_of u')) \<and>
     (\<forall>w k. entry_at u' = Some (w, k) \<longrightarrow> map_find (timers w e') k \<noteq> None) \<and>
     (\<forall>v k. \<not> held u v \<longrightarrow> map_find (timers v e) k \<noteq> None \<longrightarrow> map_find (timers v e') k \<noteq> None)"

lemma upd_kept_quiet:
  assumes inv: "calls_inv e P" and "tt_inv e'" "cur_timer_id e' = cur_timer_id e"
    and "\<forall>v j. map_find (timers v e) j = None \<longrightarrow> map_find (timers v e') j = None"
    and "\<And>v. \<not> held u v \<Longrightarrow> timers v e' = timers v e" and "call_of u' = K_Out"
    and "\<And>w k. entry_at u' = Some (w, k) \<Longrightarrow> map_find (timers w e') k \<noteq> None"
  shows "upd_kept P c u e u' e'"
proof -
  have "calls_inv e' P" by (rule calls_inv_engine [OF inv]) (use assms in auto)
  then have "calls_inv e' (P(c := K_Out))" by (rule calls_inv_place) (simp_all add: pending_id_def pending_ok_def)
  then show ?thesis using assms(5-7) by (simp add: upd_kept_def)
qed

lemma upd_kept_fire:
  assumes "calls_inv e' (P(c := p')) \<and> keeps_keys e e'" and "map_find (timers w e) k \<noteq> None"
  shows "upd_kept P c (U_Fire w k cs p) e (U_Fire w k cs' p') e'"
  using assms by (auto simp: upd_kept_def keeps_keys_def)

lemma upd_kept_loop:
  assumes inv: "calls_inv e P" and step: "upd_step E lucky (U_Loop w it) e = Inr (u', e')"
  shows "upd_kept P c (U_Loop w it) e u' e'"
proof (cases it)
  case None
  then show ?thesis
    using step calls_invD(1) [OF inv] by (cases w) (intro upd_kept_quiet [OF inv]; auto simp: upd_step_def)+
next
  case (Some k)
  then have "loop_step E w k e = Inr (u', e')" using step by (cases w) (simp_all add: upd_step_def)
  from loop_step_cases [OF this calls_invD(1) [OF inv]] show ?thesis
    by (intro upd_kept_quiet [OF inv]) (auto dest: next_there)
qed

lemma upd_kept_callback:
  assumes inv: "calls_inv e P" and p: "P c = p" and k: "map_find (timers w e) k \<noteq> None"
    and step: "upd_step E lucky (U_Fire w k cs p) e = Inr (u', e')"
  shows "upd_kept P c (U_Fire w k cs p) e u' e'"
proof (cases "outside p")
  case False
  then obtain p' where "call_step E (\<lambda>_. False) lucky (P c) e = Inr (p', e')" "u' = U_Fire w k cs p'"
    using step p by (auto simp: upd_step_def)
  then show ?thesis using upd_kept_fire [OF call_step_inv [OF inv] k] by simp
next
  case True
  show ?thesis
  proof (cases cs)
    case Nil
    then have "after_fire E w k e = Inr (u', e')" using step True by (simp add: upd_step_def)
    from after_fire_cases [OF this calls_invD(1) [OF inv]] show ?thesis
      by (intro upd_kept_quiet [OF inv]) (auto dest: next_there)
  next
    case (Cons a cs')
    then obtain p' where "begin_call (\<lambda>_. False) a (P c) e = Inr (p', e')" "u' = U_Fire w k cs' p'"
      using step True p by (auto simp: upd_step_def)
    then show ?thesis using upd_kept_fire [OF begin_call_inv [OF inv] k] True p by simp
  qed
qed

lemma upd_step_inv:
  assumes inv: "calls_inv e P" and c: "P c = call_of u"
    and at: "\<And>w k. entry_at u = Some (w, k) \<Longrightarrow> map_find (timers w e) k \<noteq> None"
    and step: "upd_step E lucky u e = Inr (u', e')"
  shows "upd_kept P c u e u' e'"
proof (cases u)
  case U_Out
  then show ?thesis
    using step calls_invD(1) [OF inv] map_begin_Some [OF tt_inv_wf, of e Timers1]
    by (intro upd_kept_quiet [OF inv]) (auto simp: upd_step_def)
next
  case U_Between
  then show ?thesis
    using step calls_invD(1) [OF inv] map_begin_Some [OF tt_inv_wf, of e Timers2]
    by (intro upd_kept_quiet [OF inv]) (auto simp: upd_step_def)
qed (use step c at upd_kept_loop [OF inv] upd_kept_callback [OF inv] in auto)

lemma updater_move_inv:
  assumes inv: "threads_inv s" and step: "updater_move E lucky s = Inr t"
  shows "threads_inv t"
proof -
  obtain u e where ue: "upd_step E lucky (updater s) (engine s) = Inr (u, e)" and t: "t = s\<lparr>engine := e, updater := u\<rparr>"
    using step by (auto simp: updater_move_def)
  have "upd_kept (call_at (updater s) (client s)) None (updater s) (engine s) u e"
    by (rule upd_step_inv [OF _ _ _ ue]) (use inv in \<open>auto simp: threads_inv_def\<close>)
  then show ?thesis by (simp add: t upd_kept_def threads_inv_def)
qed

lemma client_to_inv:
  assumes inv: "threads_inv s" and "client_to c r s = Inr t"
    and step: "\<And>P (d :: nat option) p e. calls_inv (engine s) P \<Longrightarrow> P d = client s c \<Longrightarrow> r = Inr (p, e) \<Longrightarrow>
      calls_inv e (P(d := p)) \<and> keeps_keys (engine s) e"
  shows "threads_inv t"
proof -
  obtain p e where r: "r = Inr (p, e)" and t: "t = s\<lparr>engine := e, client := (client s)(c := p)\<rparr>"
    using assms(2) by (auto simp: client_to_def)
  show ?thesis
    using inv step [of "call_at (updater s) (client s)" "Some c", OF _ _ r]
    by (auto simp: t threads_inv_def keeps_keys_def)
qed

lemma engine_move_inv:
  assumes inv: "threads_inv s" and step: "engine_move E m s = Inr t" and "atomic_count m"
  shows "threads_inv t"
proof (cases m)
  case (Updater lucky)
  then show ?thesis using step updater_move_inv [OF inv] by (simp add: engine_move_def)
next
  case (Call c a)
  show ?thesis
  proof (cases "outside (client s c)")
    case True
    then have "client_to c (begin_call (held (updater s)) a (client s c) (engine s)) s = Inr t"
      using step Call by (simp add: engine_move_def)
    then show ?thesis by (rule client_to_inv [OF inv]) (metis begin_call_inv True)
  qed (use step Call inv in \<open>simp add: engine_move_def\<close>)
next
  case (Client c lucky)
  then have "client_to c (call_step E (held (updater s)) lucky (client s c) (engine s)) s = Inr t"
    using step by (simp add: engine_move_def)
  then show ?thesis by (rule client_to_inv [OF inv]) (metis call_step_inv)
qed (use assms in simp)

lemma engine_start_inv: "threads_inv (engine_start ts_l ts_g)"
  by (simp add: threads_inv_def calls_inv_def engine_start_def tt_inv_def TimerThread_def pending_id_def pending_ok_def
      timers_def call_at_def split: which_map.split option.split)

lemma engine_run_inv:
  assumes "engine_run E ms (engine_start ts_l ts_g) = Inr t" and "list_all atomic_count ms"
  shows "threads_inv t"
  by (rule run_steps_keep [where I = threads_inv, OF assms(1) engine_start_inv assms(2)]) (rule engine_move_inv)

text \<open>No step of the updating thread uses an invalid iterator.\<close>

lemma upd_step_fault:
  assumes "\<And>w k. entry_at u = Some (w, k) \<Longrightarrow> map_find (timers w e) k \<noteq> None"
  shows "upd_step E lucky u e \<noteq> Inl Bad_Iterator"
proof -
  have call: "begin_call h c p e \<noteq> Inl Bad_Iterator" "call_step E h lucky p e \<noteq> Inl Bad_Iterator" for h c p
    by (auto simp: begin_call_def call_step_def count_up_def get_clock_def split: api.splits call_pc.splits)
  have clock: "get_interval_macro_secs f a b \<noteq> Inl Bad_Iterator" for f a b
    by (simp add: get_interval_macro_secs_def)
  show ?thesis
  proof (cases u)
    case (U_Loop w it)
    then show ?thesis
      using assms clock by (cases w; cases it)
        (auto simp: upd_step_def loop_step_def get_clock_def res_bind_def split: option.splits sum.splits)
  next
    case (U_Fire w k cs p)
    then obtain t where "map_find (timers w e) k = Some t" using assms by auto
    then have "after_fire E w k e \<noteq> Inl Bad_Iterator" by (simp add: after_fire_def get_clock_def Let_def)
    then show ?thesis
      using U_Fire call by (auto simp: upd_step_def res_bind_def split: list.splits sum.splits)
  qed (simp_all add: upd_step_def)
qed

end
