(* ===== verification/Timer_Alone.thy ===== *)
theory Timer_Alone
  imports Timer_Threads
begin

text \<open>
  An \<open>Update\<close> of the updating thread that no client interrupts is the \<open>Update\<close> of the sequential
  model, call by call of the callbacks, round by round of the loops.
\<close>

section \<open>An update that no other thread interrupts\<close>

text \<open>\<open>reaches E s t\<close>: moves of the updating thread alone, each \<open>try_lock\<close> succeeding.\<close>

definition reaches :: "'f timer_env \<Rightarrow> 'f engine_threads \<Rightarrow> 'f engine_threads \<Rightarrow> bool" where
  "reaches E s t \<longleftrightarrow> (\<exists>n. engine_run E (replicate n (Updater True)) s = Inr t)"

lemma reaches_refl: "reaches E s s"
  unfolding reaches_def by (rule exI [of _ 0]) simp

lemma reaches_trans: "reaches E s t \<Longrightarrow> reaches E t u \<Longrightarrow> reaches E s u"
  unfolding reaches_def
  by (elim exE, rule_tac x = "n + na" in exI) (simp add: replicate_add run_steps_append)

lemma reaches_step:
  assumes "upd_step E True (updater s) (engine s) = Inr (u, e)" and "reaches E (s\<lparr>engine := e, updater := u\<rparr>) t"
  shows "reaches E s t"
proof -
  obtain n where "engine_run E (replicate n (Updater True)) (s\<lparr>engine := e, updater := u\<rparr>) = Inr t"
    using assms(2) by (auto simp: reaches_def)
  then have "engine_run E (replicate (Suc n) (Updater True)) s = Inr t"
    using assms(1) by (simp add: engine_move_def updater_move_def)
  then show ?thesis unfolding reaches_def by blast
qed

lemma reaches_upd:
  assumes "upd_step E True u e = Inr (u', e')"
  shows "reaches E (s\<lparr>engine := e, updater := u\<rparr>) (s\<lparr>engine := e', updater := u'\<rparr>)"
proof -
  have "engine_run E (replicate 1 (Updater True)) (s\<lparr>engine := e, updater := u\<rparr>) = Inr (s\<lparr>engine := e', updater := u'\<rparr>)"
    using assms by (simp add: engine_move_def updater_move_def)
  then show ?thesis unfolding reaches_def by blast
qed

definition open_locks :: "'f timer_env \<Rightarrow> bool" where
  "open_locks E \<longleftrightarrow> (\<forall>i. \<exists>l ls. try_locks E i = (True, l) # ls)"

text \<open>A registration in a callback: five moves from its beginning to its return.\<close>

lemma reaches_registered:
  assumes u: "updater s = U_Fire w k (c # cs) p" "outside p"
    and c: "\<And>h. begin_call h c p (engine s) = count_up (cur_timer_id (engine s)) r us fp (engine s)"
    and max: "cur_timer_id (engine s) < int_max"
  shows "\<exists>q. outside q \<and> reaches E s (s\<lparr>engine := registered E r us fp (engine s) Timers2, updater := U_Fire w k cs q\<rparr>)"
proof -
  let ?e = "engine s" and ?n = "cur_timer_id (engine s) + 1"
  let ?tm = "fresh_timer ?n r us fp (clock_at E (clock_reads ?e))" and ?e4 = "registered E r us fp ?e Timers2"
  let ?e1 = "?e\<lparr>cur_timer_id := ?n\<rparr>" and ?e2 = "?e\<lparr>cur_timer_id := ?n, clock_reads := Suc (clock_reads ?e)\<rparr>"
  have 1: "upd_step E True (U_Fire w k (c # cs) p) ?e = Inr (U_Fire w k cs (K_Id ?n r us fp), ?e1)"
    using u(2) c max by (simp add: upd_step_def count_up_def)
  have 2: "upd_step E True (U_Fire w k cs (K_Id ?n r us fp)) ?e1 = Inr (U_Fire w k cs (K_Try2 ?tm), ?e2)"
    by (simp add: upd_step_def call_step_def outside_def get_clock_def)
  have 3: "upd_step E True (U_Fire w k cs (K_Try2 ?tm)) ?e2 = Inr (U_Fire w k cs (K_Inserted ?n), ?e4)"
    by (simp add: upd_step_def call_step_def outside_def try_insert_def registered_def fresh_timer_def set_timers_def Let_def)
  have 4: "upd_step E True (U_Fire w k cs (K_Inserted ?n)) ?e4 = Inr (U_Fire w k cs (K_Returned ?n ?n), ?e4)"
    by (simp add: upd_step_def call_step_def outside_def)
  have "reaches E s (s\<lparr>engine := ?e4, updater := U_Fire w k cs (K_Returned ?n ?n)\<rparr>)"
    by (rule reaches_step, unfold u(1), rule 1, rule reaches_step, simp, rule 2, rule reaches_step, simp, rule 3,
      rule reaches_step, simp, rule 4) (simp add: reaches_refl)
  then show ?thesis by (intro exI [of _ "K_Returned ?n ?n"]) (simp add: outside_def)
qed

lemma reaches_UnRegister:
  assumes u: "updater s = U_Fire w k (Api_UnRegister i # cs) p" "outside p"
  shows "reaches E s (s\<lparr>engine := UnRegister i (engine s), updater := U_Fire w k cs K_Out\<rparr>)"
proof (cases "map_find (timers2 (engine s)) i")
  case (Some t)
  then have "upd_step E True (updater s) (engine s) = Inr (U_Fire w k cs K_Out, UnRegister i (engine s))"
    using u by (simp add: upd_step_def begin_call_def flag_in_def UnRegister_def set_timers_def)
  then show ?thesis by (rule reaches_step) (rule reaches_refl)
next
  case None
  then have 1: "upd_step E True (updater s) (engine s) = Inr (U_Fire w k cs (K_UnRegister1 i), engine s)"
    using u by (simp add: upd_step_def begin_call_def flag_in_def)
  have 2: "upd_step E True (U_Fire w k cs (K_UnRegister1 i)) (engine s) = Inr (U_Fire w k cs K_Out, UnRegister i (engine s))"
    using None by (simp add: upd_step_def call_step_def outside_def flag_in_def UnRegister_def set_timers_def split: option.split)
  show ?thesis
    by (rule reaches_step [OF 1], rule reaches_step, simp, rule 2) (simp add: reaches_refl)
qed

lemma reaches_run_api:
  "run_api E cs e = Inr e' \<Longrightarrow> open_locks E \<Longrightarrow> outside p \<Longrightarrow> updater s = U_Fire w k cs p \<Longrightarrow> engine s = e \<Longrightarrow>
   \<exists>q. outside q \<and> reaches E s (s\<lparr>engine := e', updater := U_Fire w k [] q\<rparr>)"
proof (induction E cs e arbitrary: s p rule: run_api.induct)
  case (1 E e)
  then have "s\<lparr>engine := e', updater := U_Fire w k [] p\<rparr> = s" by simp
  then show ?case using 1 reaches_refl by metis
next
  case (2 E r i fp cs e)
  obtain tid e1 where e1: "Register E r i fp e = Inr (tid, e1)" "run_api E cs e1 = Inr e'" using 2(2) by auto
  have max: "cur_timer_id e < int_max" using e1(1) by (auto simp: Register_def split: if_splits)
  have "e1 = registered E r (sec_to_us (word_of_int i)) fp e Timers2"
    using Register_lock2(2) [OF e1(1)] 2(3) by (simp add: open_locks_def)
  then obtain q where q: "outside q" "reaches E s (s\<lparr>engine := e1, updater := U_Fire w k cs q\<rparr>)"
    using reaches_registered [of s w k "Api_Register r i fp" cs p r "sec_to_us (word_of_int i)" fp E] 2(4-6) max
    by (auto simp: begin_call_def)
  from 2(1) [OF e1(1) refl e1(2) 2(3) q(1), of "s\<lparr>engine := e1, updater := U_Fire w k cs q\<rparr>"]
  show ?case using reaches_trans [OF q(2)] by auto
next
  case (3 E r i fp cs e)
  obtain tid e1 where e1: "RegisterByMilSec E r i fp e = Inr (tid, e1)" "run_api E cs e1 = Inr e'" using 3(2) by auto
  have max: "cur_timer_id e < int_max" using e1(1) by (auto simp: RegisterByMilSec_def split: if_splits)
  have "\<exists>l ls. try_locks E (cur_timer_id e + 1) = (True, l) # ls" using 3(3) by (simp add: open_locks_def)
  then have "e1 = registered E r (milsec_to_us (word_of_int i)) fp e Timers2"
    using e1(1) by (auto simp: RegisterByMilSec_def get_clock_def Let_def open_milsec_def new_etimer_def registered_def
        fresh_timer_def set_timers_def split: if_splits)
  then obtain q where q: "outside q" "reaches E s (s\<lparr>engine := e1, updater := U_Fire w k cs q\<rparr>)"
    using reaches_registered [of s w k "Api_RegisterByMilSec r i fp" cs p r "milsec_to_us (word_of_int i)" fp E] 3(4-6) max
    by (auto simp: begin_call_def)
  from 3(1) [OF e1(1) refl e1(2) 3(3) q(1), of "s\<lparr>engine := e1, updater := U_Fire w k cs q\<rparr>"]
  show ?case using reaches_trans [OF q(2)] by auto
next
  case (4 E i cs e)
  let ?s = "s\<lparr>engine := UnRegister i e, updater := U_Fire w k cs K_Out\<rparr>"
  have r: "reaches E s ?s" using reaches_UnRegister [of s w k i cs p E] 4(4-6) by auto
  have "run_api E cs (UnRegister i e) = Inr e'" using 4(2) by simp
  from 4(1) [OF this 4(3), of K_Out ?s] show ?case using reaches_trans [OF r] by (auto simp: outside_def)
qed

text \<open>One round of the loop is the step of the sequential model, and so is the whole of \<open>Update\<close>.\<close>

lemma reaches_Update_step:
  assumes step: "Update_step E w k (engine s) = Inr (it, e')" and "open_locks E" and u: "updater s = U_Loop w (Some k)"
  shows "reaches E s (s\<lparr>engine := e', updater := U_Loop w it\<rparr>)"
proof -
  let ?e = "engine s" and ?e1 = "(engine s)\<lparr>clock_reads := Suc (clock_reads (engine s))\<rparr>"
  have up: "upd_step E True (updater s) ?e = loop_step E w k ?e" using u by (cases w) (simp_all add: upd_step_def)
  obtain t where t: "map_find (timers w ?e) k = Some t" using step by (auto simp: Update_step_def split: option.splits)
  let ?due = "\<not> t_need_delete t \<and> (\<exists>el. get_interval_macro_secs (clock_freq E) (clock_at E (clock_reads ?e)) (t_startclock t) = Inr el \<and> t_leftsecs t \<le> el)"
  show ?thesis
  proof (cases ?due)
    case False
    then have "loop_step E w k ?e = Inr (U_Loop w it, e')"
      using step t by (auto simp: Update_step_def loop_step_def get_clock_def split: if_splits)
    then have "upd_step E True (updater s) ?e = Inr (U_Loop w it, e')" using up by simp
    then show ?thesis by (rule reaches_step) (rule reaches_refl)
  next
    case True
    then obtain e2 where e2: "call_fp E k (t_fp t) ?e1 = Inr e2" and fin: "after_fire E w k e2 = Inr (U_Loop w it, e')"
      using step t by (auto simp: Update_step_def after_fire_def get_clock_def Let_def split: option.splits if_splits)
    then obtain f where f: "t_fp t = Some f" "run_api E (behaviour E f ?e1) (?e1\<lparr>fired := fired ?e1 @ [(k, f)]\<rparr>) = Inr e2"
      by (auto simp: call_fp_def split: option.splits)
    let ?s1 = "s\<lparr>engine := ?e1\<lparr>fired := fired ?e1 @ [(k, f)]\<rparr>, updater := U_Fire w k (behaviour E f ?e1) K_Out\<rparr>"
    have 1: "loop_step E w k ?e = Inr (updater ?s1, engine ?s1)"
      using True t f(1) by (auto simp: loop_step_def get_clock_def)
    obtain q where q: "outside q" "reaches E ?s1 (?s1\<lparr>engine := e2, updater := U_Fire w k [] q\<rparr>)"
      using reaches_run_api [OF f(2) assms(2), of K_Out ?s1 w k] by (auto simp: outside_def)
    have "upd_step E True (U_Fire w k [] q) e2 = Inr (U_Loop w it, e')" using fin q(1) by (simp add: upd_step_def)
    from reaches_upd [OF this, of ?s1]
    have "reaches E (?s1\<lparr>engine := e2, updater := U_Fire w k [] q\<rparr>) (s\<lparr>engine := e', updater := U_Loop w it\<rparr>)" by simp
    with q(2) have "reaches E ?s1 (s\<lparr>engine := e', updater := U_Loop w it\<rparr>)" by (rule reaches_trans)
    moreover have "upd_step E True (updater s) ?e = Inr (updater ?s1, engine ?s1)" using up 1 by simp
    then have "reaches E s ?s1" by (rule reaches_step) (simp add: reaches_refl)
    ultimately show ?thesis using reaches_trans by blast
  qed
qed

lemma reaches_Update_loop:
  "Update_loop E w fuel it e = Inr e' \<Longrightarrow> open_locks E \<Longrightarrow> updater s = U_Loop w it \<Longrightarrow> engine s = e \<Longrightarrow>
   reaches E s (s\<lparr>engine := e', updater := U_Loop w None\<rparr>)"
proof (induction E w fuel it e arbitrary: s rule: Update_loop.induct)
  case (1 E w fuel e)
  then have "s\<lparr>engine := e', updater := U_Loop w None\<rparr> = s" by simp
  then show ?case using reaches_refl by metis
next
  case (3 E w fuel k e)
  obtain it e1 where e1: "Update_step E w k e = Inr (it, e1)" "Update_loop E w fuel it e1 = Inr e'" using 3(2) by auto
  let ?s = "s\<lparr>engine := e1, updater := U_Loop w it\<rparr>"
  have "reaches E s ?s" using reaches_Update_step [of E w k s] e1(1) 3(3-5) by simp
  moreover have "reaches E ?s (?s\<lparr>engine := e', updater := U_Loop w None\<rparr>)"
    using 3(1) [OF e1(1) refl e1(2) 3(3), of ?s] by simp
  ultimately show ?case using reaches_trans by fastforce
qed simp

lemma reaches_Update:
  assumes "Update E fuel (engine s) = Inr e'" and "open_locks E" and "updater s = U_Out"
  shows "reaches E s (s\<lparr>engine := e'\<rparr>)"
proof -
  let ?at = "\<lambda>u e. s\<lparr>engine := e, updater := u\<rparr>"
  obtain e1 where e1: "Update_loop E Timers1 fuel (map_begin (timers Timers1 (engine s))) (engine s) = Inr e1"
    "Update_loop E Timers2 fuel (map_begin (timers Timers2 e1)) e1 = Inr e'"
    using assms(1) unfolding Update_def by (rule res_bind_InrE)
  have loop: "reaches E (?at (U_Loop w it) e) (?at (U_Loop w None) e'')" if "Update_loop E w fuel it e = Inr e''" for w it e e''
    using reaches_Update_loop [OF that assms(2), of "?at (U_Loop w it) e"] by simp
  have "?at U_Out (engine s) = s" "?at U_Out e' = s\<lparr>engine := e'\<rparr>" using assms(3) by simp_all
  moreover have "reaches E (?at U_Out (engine s)) (?at (U_Loop Timers1 (map_begin (timers Timers1 (engine s)))) (engine s))"
    "reaches E (?at (U_Loop Timers1 None) e1) (?at U_Between e1)"
    "reaches E (?at U_Between e1) (?at (U_Loop Timers2 (map_begin (timers Timers2 e1))) e1)"
    "reaches E (?at (U_Loop Timers2 None) e') (?at U_Out e')"
    by (rule reaches_upd, simp add: upd_step_def)+
  ultimately show ?thesis using loop [OF e1(1)] loop [OF e1(2)] reaches_trans by metis
qed

end
