(* ===== verification/Timer_Updaters.thy ===== *)
theory Timer_Updaters
  imports Timer_Alone
begin

text \<open>
  The timer engine with any number of threads in \<open>Update\<close>, beside any number of clients. The mutexes
  of the two maps are all that keeps the updating threads apart: one that comes to a loop waits
  while another is inside that map, and so does \<open>UnRegister\<close> in a callback, which for the map that
  its own thread is inside goes on, the mutexes being recursive.
\<close>

section \<open>Threads\<close>

record 'f engine_group =
  g_engine :: "'f timer_thread"
  g_updaters :: "'f upd_pc list"
  g_client :: "nat \<Rightarrow> 'f call_pc"

datatype 'f group_move =
    In_Update nat bool
  | G_Call nat "'f api"
  | G_Call_Torn nat "'f api"
  | G_Client nat bool

text \<open>A thread other than the \<open>i\<close>-th updating one holds the mutex of the map \<open>w\<close>; any of them does.\<close>

definition held_by_others :: "'f upd_pc list \<Rightarrow> nat \<Rightarrow> which_map \<Rightarrow> bool" where
  "held_by_others us i w = list_ex (\<lambda>j. j \<noteq> i \<and> held (us ! j) w) [0..<length us]"

definition held_by_any :: "'f upd_pc list \<Rightarrow> which_map \<Rightarrow> bool" where
  "held_by_any us w = list_ex (\<lambda>u. held u w) us"

section \<open>Moves\<close>

text \<open>
  The places at which an updating thread waits for a mutex that another thread holds (\<open>h\<close>): before
  each loop, and in a callback's \<open>UnRegister\<close>; and those at which a callback's \<open>try_lock\<close> fails.
\<close>

definition waits :: "(which_map \<Rightarrow> bool) \<Rightarrow> 'f upd_pc \<Rightarrow> bool" where
  "waits h u =
     (case u of
        U_Out \<Rightarrow> h Timers1
      | U_Between \<Rightarrow> h Timers2
      | U_Fire _ _ cs p \<Rightarrow>
          if outside p then (case cs of Api_UnRegister _ # _ \<Rightarrow> h Timers2 | _ \<Rightarrow> False)
          else (case p of K_UnRegister1 _ \<Rightarrow> h Timers1 | _ \<Rightarrow> False)
      | _ \<Rightarrow> False)"

definition try_fails :: "(which_map \<Rightarrow> bool) \<Rightarrow> 'f upd_pc \<Rightarrow> bool" where
  "try_fails h u = (case call_of u of K_Try2 _ \<Rightarrow> h Timers2 | K_Try1 _ \<Rightarrow> h Timers1 | _ \<Rightarrow> False)"

definition upd_step_among :: "'f timer_env \<Rightarrow> (which_map \<Rightarrow> bool) \<Rightarrow> bool \<Rightarrow> 'f upd_pc \<Rightarrow> 'f timer_thread
    \<Rightarrow> ('f upd_pc \<times> 'f timer_thread) res" where
  "upd_step_among E h lucky u e =
     (if waits h u then Inr (u, e) else upd_step E (lucky \<and> \<not> try_fails h u) u e)"

definition g_updater_to :: "nat \<Rightarrow> ('f upd_pc \<times> 'f timer_thread) res \<Rightarrow> 'f engine_group \<Rightarrow> 'f engine_group res" where
  "g_updater_to i r s = res_bind r (\<lambda>(u, e). Inr (s\<lparr>g_engine := e, g_updaters := (g_updaters s)[i := u]\<rparr>))"

definition g_client_to :: "nat \<Rightarrow> ('f call_pc \<times> 'f timer_thread) res \<Rightarrow> 'f engine_group \<Rightarrow> 'f engine_group res" where
  "g_client_to c r s = res_bind r (\<lambda>(p, e). Inr (s\<lparr>g_engine := e, g_client := (g_client s)(c := p)\<rparr>))"

definition group_move :: "'f timer_env \<Rightarrow> 'f group_move \<Rightarrow> 'f engine_group \<Rightarrow> 'f engine_group res" where
  "group_move E m s =
     (case m of
        In_Update i lucky \<Rightarrow>
          if i < length (g_updaters s)
          then g_updater_to i (upd_step_among E (held_by_others (g_updaters s) i) lucky (g_updaters s ! i) (g_engine s)) s
          else Inr s
      | G_Call c a \<Rightarrow>
          if outside (g_client s c)
          then g_client_to c (begin_call (held_by_any (g_updaters s)) a (g_client s c) (g_engine s)) s else Inr s
      | G_Call_Torn c a \<Rightarrow>
          if outside (g_client s c)
          then g_client_to c (Inr (read_counter a (g_client s c) (g_engine s), g_engine s)) s else Inr s
      | G_Client c lucky \<Rightarrow>
          g_client_to c (call_step E (held_by_any (g_updaters s)) lucky (g_client s c) (g_engine s)) s)"

abbreviation group_run :: "'f timer_env \<Rightarrow> 'f group_move list \<Rightarrow> 'f engine_group \<Rightarrow> 'f engine_group res" where
  "group_run E \<equiv> run_steps (group_move E)"

definition group_start :: "nat \<Rightarrow> int \<Rightarrow> int \<Rightarrow> 'f engine_group" where
  "group_start n ts_l ts_g =
     \<lparr>g_engine = TimerThread ts_l ts_g, g_updaters = replicate n U_Out, g_client = (\<lambda>_. K_Out)\<rparr>"

fun g_atomic_count :: "'f group_move \<Rightarrow> bool" where
  "g_atomic_count (G_Call_Torn _ _) = False"
| "g_atomic_count _ = True"

lemma held_by_others_iff: "held_by_others us i w \<longleftrightarrow> (\<exists>j < length us. j \<noteq> i \<and> held (us ! j) w)"
  by (auto simp: held_by_others_def list_ex_iff)

lemma held_by_any_iff: "held_by_any us w \<longleftrightarrow> (\<exists>j < length us. held (us ! j) w)"
  unfolding held_by_any_def list_ex_iff by (metis in_set_conv_nth)

text \<open>
  In a callback, waiting and the outcome of a \<open>try_lock\<close> are what \<open>call_step\<close> says of any thread
  that meets the mutexes \<open>h\<close>.
\<close>

lemma upd_step_among_call:
  assumes "\<not> outside p"
  shows "upd_step_among E h lucky (U_Fire w k cs p) e =
    res_bind (call_step E h lucky p e) (\<lambda>(p, e). Inr (U_Fire w k cs p, e))"
  using assms by (cases p)
    (auto simp: upd_step_among_def upd_step_def waits_def try_fails_def call_step_def outside_def res_bind_def
      split: sum.splits)

lemma upd_step_among_free: "h = (\<lambda>_. False) \<Longrightarrow> upd_step_among E h lucky u e = upd_step E lucky u e"
  by (auto simp: upd_step_among_def waits_def try_fails_def split: upd_pc.splits call_pc.splits list.splits api.splits)

section \<open>Invariant\<close>

text \<open>The calls of all threads: of the callbacks of the updating ones, and of the clients.\<close>

definition group_calls :: "'f upd_pc list \<Rightarrow> (nat \<Rightarrow> 'f call_pc) \<Rightarrow> nat + nat \<Rightarrow> 'f call_pc" where
  "group_calls us cl c = (case c of Inl i \<Rightarrow> if i < length us then call_of (us ! i) else K_Out | Inr d \<Rightarrow> cl d)"

text \<open>No map is held by two threads.\<close>

definition apart :: "'f upd_pc list \<Rightarrow> bool" where
  "apart us \<longleftrightarrow> (\<forall>i < length us. \<forall>w. held (us ! i) w \<longrightarrow> \<not> held_by_others us i w)"

definition group_inv :: "'f engine_group \<Rightarrow> bool" where
  "group_inv s \<longleftrightarrow> calls_inv (g_engine s) (group_calls (g_updaters s) (g_client s)) \<and>
     (\<forall>i < length (g_updaters s). \<forall>w k. entry_at (g_updaters s ! i) = Some (w, k) \<longrightarrow>
        map_find (timers w (g_engine s)) k \<noteq> None) \<and>
     apart (g_updaters s)"

lemma group_calls_simps [simp]:
  "group_calls us cl (Inr d) = cl d" "i < length us \<Longrightarrow> group_calls us cl (Inl i) = call_of (us ! i)"
  "(group_calls us cl)(Inr d := p) = group_calls us (cl(d := p))"
  "i < length us \<Longrightarrow> (group_calls us cl)(Inl i := call_of u) = group_calls (us[i := u]) cl"
  by (auto simp: group_calls_def fun_eq_iff split: sum.split)

text \<open>A thread holds a mutex after its step if it held it before, or if it has just acquired it.\<close>

lemma upd_step_held:
  assumes "upd_step E lucky u e = Inr (u', e')" and "held u' w"
  shows "held u w \<or> u = U_Out \<and> w = Timers1 \<or> u = U_Between \<and> w = Timers2"
proof (cases u)
  case (U_Loop v it)
  show ?thesis
  proof (cases it)
    case None
    then show ?thesis using assms U_Loop by (cases v) (auto simp: upd_step_def)
  next
    case (Some k)
    then have "loop_step E v k e = Inr (u', e')" using assms(1) U_Loop by (cases v) (simp_all add: upd_step_def)
    then show ?thesis
      using assms(2) U_Loop by (auto simp: loop_step_def get_clock_def split: option.splits if_splits)
  qed
next
  case (U_Fire v k cs p)
  then show ?thesis
    using assms by (auto simp: upd_step_def after_fire_def get_clock_def Let_def split: option.splits if_splits list.splits)
qed (use assms in \<open>auto simp: upd_step_def\<close>)

lemma apart_excl:
  assumes "apart us" and "j < length us" "l < length us" "j \<noteq> l" and "held (us ! j) w"
  shows "\<not> held (us ! l) w"
  using assms unfolding apart_def held_by_others_iff by metis

text \<open>A step that does not wait keeps the threads apart.\<close>

lemma upd_step_apart:
  assumes inv: "apart us" and i: "i < length us"
    and go: "\<not> waits (held_by_others us i) (us ! i)"
    and step: "upd_step E lucky (us ! i) e = Inr (u', e')"
  shows "apart (us[i := u'])"
  unfolding apart_def
proof (intro allI impI notI)
  have mine: "\<not> held (us ! j) w" if "held u' w" "j < length us" "j \<noteq> i" for j w
    using upd_step_held [OF step that(1)] apart_excl [OF inv i that(2)] that go
    by (auto simp: waits_def held_by_others_iff)
  fix j w
  assume j: "j < length (us[i := u'])" "held (us[i := u'] ! j) w" and "held_by_others (us[i := u']) j w"
  then obtain l where l: "l < length us" "l \<noteq> j" "held (us[i := u'] ! l) w" by (auto simp: held_by_others_iff)
  consider "j = i" "l \<noteq> i" | "j \<noteq> i" "l = i" | "j \<noteq> i" "l \<noteq> i" using l(2) by blast
  then show False
  proof cases
    case 1 then show False using mine [of w l] j l i by simp
  next
    case 2 then show False using mine [of w j] j l i by simp
  next
    case 3 then show False using apart_excl [OF inv, of j l] j l by simp
  qed
qed

lemma In_Update_inv:
  assumes inv: "group_inv s" and i: "i < length (g_updaters s)"
    and step: "upd_step_among E (held_by_others (g_updaters s) i) lucky (g_updaters s ! i) (g_engine s) = Inr (u', e')"
  shows "group_inv (s\<lparr>g_engine := e', g_updaters := (g_updaters s)[i := u']\<rparr>)"
proof (cases "waits (held_by_others (g_updaters s) i) (g_updaters s ! i)")
  case True
  then have "u' = g_updaters s ! i" "e' = g_engine s" using step by (simp_all add: upd_step_among_def)
  then show ?thesis using inv by simp
next
  case False
  let ?us = "g_updaters s" and ?e = "g_engine s"
  let ?u = "?us ! i"
  obtain luck where luck: "upd_step E luck ?u ?e = Inr (u', e')" using step False by (auto simp: upd_step_among_def)
  have at: "\<And>j w k. j < length ?us \<Longrightarrow> entry_at (?us ! j) = Some (w, k) \<Longrightarrow> map_find (timers w ?e) k \<noteq> None"
    using inv by (simp add: group_inv_def)
  have kept: "upd_kept (group_calls ?us (g_client s)) (Inl i) ?u ?e u' e'"
    by (rule upd_step_inv [OF _ _ _ luck]) (use inv i at in \<open>auto simp: group_inv_def\<close>)
  have "map_find (timers w e') k \<noteq> None" if j: "j < length ?us" "entry_at (?us[i := u'] ! j) = Some (w, k)" for j w k
  proof (cases "j = i")
    case True
    then show ?thesis using kept j i by (simp add: upd_kept_def)
  next
    case False
    then have "entry_at (?us ! j) = Some (w, k)" using j by simp
    then have "map_find (timers w ?e) k \<noteq> None" "\<not> held ?u w"
      using at j(1) apart_excl [of "?us" j i] inv i False held_entry unfolding group_inv_def by metis+
    then show ?thesis using kept by (simp add: upd_kept_def)
  qed
  then show ?thesis
    using kept i upd_step_apart [OF _ i False luck] inv by (simp add: group_inv_def upd_kept_def)
qed

lemma g_client_to_inv:
  assumes inv: "group_inv s" and "g_client_to c r s = Inr t"
    and step: "\<And>P (d :: nat + nat) p e. calls_inv (g_engine s) P \<Longrightarrow> P d = g_client s c \<Longrightarrow> r = Inr (p, e) \<Longrightarrow>
      calls_inv e (P(d := p)) \<and> keeps_keys (g_engine s) e"
  shows "group_inv t"
proof -
  obtain p e where r: "r = Inr (p, e)" and t: "t = s\<lparr>g_engine := e, g_client := (g_client s)(c := p)\<rparr>"
    using assms(2) by (auto simp: g_client_to_def)
  show ?thesis
    using inv step [of "group_calls (g_updaters s) (g_client s)" "Inr c", OF _ _ r]
    by (auto simp: t group_inv_def keeps_keys_def)
qed

lemma group_move_inv:
  assumes inv: "group_inv s" and step: "group_move E m s = Inr t" and "g_atomic_count m"
  shows "group_inv t"
proof (cases m)
  case (In_Update i lucky)
  show ?thesis
  proof (cases "i < length (g_updaters s)")
    case True
    then show ?thesis using step In_Update In_Update_inv [OF inv True] by (auto simp: group_move_def g_updater_to_def)
  qed (use step In_Update inv in \<open>simp add: group_move_def\<close>)
next
  case (G_Call c a)
  show ?thesis
  proof (cases "outside (g_client s c)")
    case True
    then have "g_client_to c (begin_call (held_by_any (g_updaters s)) a (g_client s c) (g_engine s)) s = Inr t"
      using step G_Call by (simp add: group_move_def)
    then show ?thesis by (rule g_client_to_inv [OF inv]) (metis begin_call_inv True)
  qed (use step G_Call inv in \<open>simp add: group_move_def\<close>)
next
  case (G_Client c lucky)
  then have "g_client_to c (call_step E (held_by_any (g_updaters s)) lucky (g_client s c) (g_engine s)) s = Inr t"
    using step by (simp add: group_move_def)
  then show ?thesis by (rule g_client_to_inv [OF inv]) (metis call_step_inv)
qed (use assms in simp)

lemma group_start_inv: "group_inv (group_start n ts_l ts_g)"
  by (auto simp: group_inv_def calls_inv_def group_start_def tt_inv_def TimerThread_def pending_id_def pending_ok_def
      timers_def group_calls_def apart_def split: which_map.split sum.split)

lemma group_run_inv:
  assumes "group_run E ms (group_start n ts_l ts_g) = Inr t" and "list_all g_atomic_count ms"
  shows "group_inv t"
  by (rule run_steps_keep [where I = group_inv, OF assms(1) group_start_inv assms(2)]) (rule group_move_inv)

lemma group_move_length: "group_move E m s = Inr t \<Longrightarrow> length (g_updaters t) = length (g_updaters s)"
  by (cases m) (auto simp: group_move_def g_updater_to_def g_client_to_def split: if_splits)

lemma group_run_length:
  assumes "group_run E ms s = Inr t"
  shows "length (g_updaters t) = length (g_updaters s)"
  by (rule run_steps_keep [where I = "\<lambda>t. length (g_updaters t) = length (g_updaters s)" and ok = "\<lambda>_. True", OF assms])
    (auto simp: list_all_iff dest: group_move_length)

text \<open>What every step of an updating thread keeps of its place holds of all their places.\<close>

lemma group_move_places:
  assumes step: "\<And>lucky u e u' e'. upd_step E lucky u e = Inr (u', e') \<Longrightarrow> Q u \<Longrightarrow> Q u'"
    and "\<forall>u \<in> set (g_updaters s). Q u" and "group_move E m s = Inr t"
  shows "\<forall>u \<in> set (g_updaters t). Q u"
proof (cases m)
  case (In_Update i lucky)
  show ?thesis
  proof (cases "i < length (g_updaters s)")
    case True
    then obtain u e where u: "upd_step_among E (held_by_others (g_updaters s) i) lucky (g_updaters s ! i) (g_engine s) = Inr (u, e)"
      and t: "g_updaters t = (g_updaters s)[i := u]"
      using assms(3) In_Update by (auto simp: group_move_def g_updater_to_def)
    have "Q (g_updaters s ! i)" using assms(2) True by simp
    then have "Q u" using u by (auto simp: upd_step_among_def dest: step split: if_splits)
    then show ?thesis using t assms(2) by (auto dest: set_update_subset_insert [THEN subsetD])
  qed (use assms In_Update in \<open>simp add: group_move_def\<close>)
qed (use assms in \<open>auto simp: group_move_def g_client_to_def split: if_splits\<close>)

lemma group_run_places:
  assumes step: "\<And>lucky u e u' e'. upd_step E lucky u e = Inr (u', e') \<Longrightarrow> Q u \<Longrightarrow> Q u'"
    and "group_run E ms s = Inr t" and "\<forall>u \<in> set (g_updaters s). Q u"
  shows "\<forall>u \<in> set (g_updaters t). Q u"
  by (rule run_steps_keep [where I = "\<lambda>s. \<forall>u \<in> set (g_updaters s). Q u" and ok = "\<lambda>_. True", OF assms(2,3)])
    (simp add: list_all_iff, rule group_move_places [OF step])

end
