(* ===== verification/Timer_Updater_Progress.thy ===== *)
theory Timer_Updater_Progress
  imports Timer_Updaters
begin

text \<open>
  Where no callback cancels a timer, some thread inside \<open>Update\<close> is never blocked. Where no
  callback calls the engine at all, a measure of what is left to do by all updating threads
  decreases with each of its steps, so that the updates under way can finish.
\<close>

section \<open>Progress\<close>

definition in_UnRegister :: "'f call_pc \<Rightarrow> bool" where
  "in_UnRegister p = (case p of K_UnRegister1 _ \<Rightarrow> True | _ \<Rightarrow> False)"

text \<open>No callback cancels a timer; none of the calls that a thread is to make does.\<close>

definition never_cancels :: "'f timer_env \<Rightarrow> bool" where
  "never_cancels E \<longleftrightarrow> (\<forall>f e. \<not> list_ex is_unregister (behaviour E f e))"

definition cancels_nothing :: "'f upd_pc \<Rightarrow> bool" where
  "cancels_nothing u = (case u of
     U_Fire _ _ cs p \<Rightarrow> \<not> list_ex is_unregister cs \<and> \<not> in_UnRegister p
   | _ \<Rightarrow> True)"

text \<open>A thread that waits, or that is to register a timer and finds both maps in use by others.\<close>

definition blocked :: "(which_map \<Rightarrow> bool) \<Rightarrow> 'f upd_pc \<Rightarrow> bool" where
  "blocked h u \<longleftrightarrow> waits h u \<or>
     (case call_of u of K_Try2 _ \<Rightarrow> h Timers1 \<and> h Timers2 | K_Try1 _ \<Rightarrow> h Timers1 \<and> h Timers2 | _ \<Rightarrow> False)"

lemma loop_step_place:
  assumes "loop_step E w k e = Inr (u', e')" and "never_cancels E"
  shows "cancels_nothing u'"
  using assms
  by (auto simp: loop_step_def get_clock_def cancels_nothing_def never_cancels_def in_UnRegister_def split: option.splits if_splits)

lemma loop_step_moves:
  assumes "loop_step E w k e = Inr (u', e')"
  shows "u' \<noteq> U_Loop w (Some k)"
  using assms by (auto simp: loop_step_def get_clock_def dest: map_next_in_keys split: option.splits if_splits)

lemma after_fire_place: "after_fire E w k e = Inr (u', e') \<Longrightarrow> \<exists>it. u' = U_Loop w it"
  by (auto simp: after_fire_def get_clock_def Let_def split: option.splits if_splits)

lemma call_step_place:
  assumes "call_step E (\<lambda>_. False) lucky p e = Inr (p', e')" and "\<not> outside p"
  shows "p' \<noteq> p" "\<not> in_UnRegister p'"
  using assms
  by (auto simp: call_step_def in_UnRegister_def outside_def count_up_def get_clock_def try_insert_def flag_in_def
      split: call_pc.splits if_splits option.splits)

lemma begin_call_place:
  assumes "begin_call (\<lambda>_. False) a p e = Inr (p', e')" and "\<not> is_unregister a"
  shows "\<not> in_UnRegister p'"
  using assms by (cases a) (auto simp: begin_call_def in_UnRegister_def is_unregister_def count_up_def split: if_splits)

lemma upd_step_place:
  assumes "upd_step E lucky u e = Inr (u', e')"
  shows "u' \<noteq> u" "never_cancels E \<Longrightarrow> cancels_nothing u \<Longrightarrow> cancels_nothing u'"
proof -
  have "u' \<noteq> u \<and> (never_cancels E \<longrightarrow> cancels_nothing u \<longrightarrow> cancels_nothing u')"
  proof (cases u)
    case (U_Loop w it)
    show ?thesis
    proof (cases it)
      case None
      then show ?thesis using assms U_Loop by (cases w) (auto simp: upd_step_def cancels_nothing_def)
    next
      case (Some k)
      then have "loop_step E w k e = Inr (u', e')" using assms U_Loop by (cases w) (simp_all add: upd_step_def)
      then show ?thesis using U_Loop Some loop_step_place loop_step_moves by metis
    qed
  next
    case (U_Fire w k cs p)
    show ?thesis
    proof (cases "outside p")
      case False
      then obtain p' where p': "call_step E (\<lambda>_. False) lucky p e = Inr (p', e')" "u' = U_Fire w k cs p'"
        using assms U_Fire by (auto simp: upd_step_def)
      then show ?thesis using call_step_place [OF p'(1) False] U_Fire by (simp add: cancels_nothing_def)
    next
      case True
      show ?thesis
      proof (cases cs)
        case Nil
        then show ?thesis
          using assms U_Fire True by (auto simp: upd_step_def cancels_nothing_def dest!: after_fire_place)
      next
        case (Cons a cs')
        then obtain p' where p': "begin_call (\<lambda>_. False) a p e = Inr (p', e')" "u' = U_Fire w k cs' p'"
          using assms U_Fire True by (auto simp: upd_step_def)
        then show ?thesis
          using begin_call_place [OF p'(1)] U_Fire Cons not_Cons_self by (auto simp: cancels_nothing_def)
      qed
    qed
  qed (use assms in \<open>auto simp: upd_step_def cancels_nothing_def\<close>)
  then show "u' \<noteq> u" "never_cancels E \<Longrightarrow> cancels_nothing u \<Longrightarrow> cancels_nothing u'" by blast+
qed

text \<open>
  Locks are taken in an order: a thread with the second map waits for none, one with the first at
  most for the second. The thread to go on is one with the second map, or with the first, or any.
\<close>

lemma cancels_nothing_waits:
  assumes "cancels_nothing u" and "waits h u"
  shows "u = U_Out \<and> h Timers1 \<or> u = U_Between \<and> h Timers2"
  using assms
  by (auto simp: waits_def cancels_nothing_def in_UnRegister_def is_unregister_def
      split: upd_pc.splits list.splits api.splits call_pc.splits if_splits)

lemma some_thread_not_blocked:
  assumes inv: "group_inv s" and free: "\<forall>u \<in> set (g_updaters s). cancels_nothing u"
    and busy: "j < length (g_updaters s)" "g_updaters s ! j \<noteq> U_Out"
  shows "\<exists>i < length (g_updaters s). g_updaters s ! i \<noteq> U_Out \<and>
    \<not> blocked (held_by_others (g_updaters s) i) (g_updaters s ! i)"
proof -
  let ?us = "g_updaters s"
  have inside: "\<not> blocked (held_by_others ?us i) (?us ! i) \<and> ?us ! i \<noteq> U_Out" if i: "i < length ?us" "held (?us ! i) w" for i w
  proof -
    have "\<not> held_by_others ?us i w" using inv i by (simp add: group_inv_def apart_def)
    moreover have "cancels_nothing (?us ! i)" using free i(1) by simp
    ultimately show ?thesis
      using i(2) cancels_nothing_waits [of "?us ! i" "held_by_others ?us i"]
      by (cases w) (auto simp: blocked_def split: call_pc.splits)
  qed
  show ?thesis
  proof (cases "\<exists>i w. i < length ?us \<and> held (?us ! i) w")
    case True
    then show ?thesis using inside by blast
  next
    case False
    then have "?us ! j = U_Between" using busy by (cases "?us ! j") (auto simp: held_def)
    moreover have "\<not> held_by_others ?us j w" for w using False by (auto simp: held_by_others_iff)
    ultimately show ?thesis using busy by (intro exI [of _ j]) (simp add: blocked_def waits_def)
  qed
qed

lemma not_blocked_free: "\<not> blocked (\<lambda>_. False) u"
  by (auto simp: blocked_def waits_def split: upd_pc.splits call_pc.splits list.splits api.splits)

section \<open>What is left to do\<close>

text \<open>The callback that a thread is in makes no calls.\<close>

definition silent_at :: "'f upd_pc \<Rightarrow> bool" where
  "silent_at u = (case u of U_Fire _ _ cs p \<Rightarrow> cs = [] \<and> p = K_Out | _ \<Rightarrow> True)"

text \<open>The entries of a map from an iterator on; the steps that a thread has at most still to make.\<close>

definition entries_from :: "(int, 'f etimer) smap \<Rightarrow> int option \<Rightarrow> nat" where
  "entries_from m it = (case it of None \<Rightarrow> 0 | Some k \<Rightarrow> card {j. k \<le> j \<and> map_find m j \<noteq> None})"

definition entries :: "(int, 'f etimer) smap \<Rightarrow> nat" where
  "entries m = card {j. map_find m j \<noteq> None}"

definition left_to_do :: "'f timer_thread \<Rightarrow> 'f upd_pc \<Rightarrow> nat" where
  "left_to_do e u = (case u of
     U_Out \<Rightarrow> 0
   | U_Loop Timers2 it \<Rightarrow> 1 + 2 * entries_from (timers2 e) it
   | U_Fire Timers2 k _ _ \<Rightarrow> 2 * entries_from (timers2 e) (Some k)
   | U_Between \<Rightarrow> 2 + 2 * entries (timers2 e)
   | U_Loop Timers1 it \<Rightarrow> 3 + 2 * entries (timers2 e) + 2 * entries_from (timers1 e) it
   | U_Fire Timers1 k _ _ \<Rightarrow> 2 + 2 * entries (timers2 e) + 2 * entries_from (timers1 e) (Some k))"

lemma finite_keys: "finite {j. map_find m j \<noteq> None}" "finite {j. k \<le> j \<and> map_find m j \<noteq> None}"
  by (rule finite_subset [of _ "set (map_keys m)"]; auto simp: map_find_None_iff)+

lemma entries_from_mono:
  assumes "\<And>j. map_find m' j \<noteq> None \<Longrightarrow> map_find m j \<noteq> None"
  shows "entries_from m' it \<le> entries_from m it" "entries m' \<le> entries m"
proof -
  show "entries_from m' it \<le> entries_from m it"
  proof (cases it)
    case (Some k)
    have "{j. k \<le> j \<and> map_find m' j \<noteq> None} \<subseteq> {j. k \<le> j \<and> map_find m j \<noteq> None}" using assms by blast
    from card_mono [OF finite_keys(2) this] show ?thesis using Some by (simp only: entries_from_def option.case)
  qed (simp add: entries_from_def)
  show "entries m' \<le> entries m"
    unfolding entries_def by (rule card_mono [OF finite_keys(1)]) (use assms in blast)
qed

lemma entries_from_le: "entries_from m it \<le> entries m"
proof (cases it)
  case (Some k)
  have "{j. k \<le> j \<and> map_find m j \<noteq> None} \<subseteq> {j. map_find m j \<noteq> None}" by blast
  from card_mono [OF finite_keys(1) this] show ?thesis using Some by (simp only: entries_from_def entries_def option.case)
qed (simp add: entries_from_def)

text \<open>The entry at the iterator is one of those left, and the next iterator is past it.\<close>

lemma entries_from_next:
  assumes "map_find m k \<noteq> None" and "\<And>j. map_find m' j \<noteq> None \<Longrightarrow> map_find m j \<noteq> None"
  shows "entries_from m' (map_next m'' k) < entries_from m (Some k)"
proof (cases "map_next m'' k")
  case None
  have "{j. k \<le> j \<and> map_find m j \<noteq> None} \<noteq> {}" using assms(1) by blast
  then have "0 < card {j. k \<le> j \<and> map_find m j \<noteq> None}" using finite_keys(2) card_gt_0_iff by blast
  then show ?thesis using None by (simp only: entries_from_def option.case)
next
  case (Some i)
  have "k < i" using map_next_in_keys [OF Some] by simp
  then have "{j. i \<le> j \<and> map_find m' j \<noteq> None} \<subset> {j. k \<le> j \<and> map_find m j \<noteq> None}"
    using assms by force
  from psubset_card_mono [OF finite_keys(2) this] show ?thesis using Some by (simp only: entries_from_def option.case)
qed

section \<open>A step takes some of it away\<close>

text \<open>
  Every entry of \<open>e'\<close> is one of \<open>e\<close>, with the same callback.
\<close>

definition shrinks :: "'f timer_thread \<Rightarrow> 'f timer_thread \<Rightarrow> bool" where
  "shrinks e e' \<longleftrightarrow> (\<forall>v k t'. map_find (timers v e') k = Some t' \<longrightarrow>
     (\<exists>t. map_find (timers v e) k = Some t \<and> t_fp t' = t_fp t))"

lemma shrinks_refl: "shrinks e e"
  by (simp add: shrinks_def)

lemma shrinks_keys: "shrinks e e' \<Longrightarrow> map_find (timers v e') k \<noteq> None \<Longrightarrow> map_find (timers v e) k \<noteq> None"
  by (fastforce simp: shrinks_def)

lemma shrinks_callable: "shrinks e e' \<Longrightarrow> callable e \<Longrightarrow> callable e'"
  unfolding shrinks_def callable_def by metis

lemma left_to_do_mono:
  assumes "shrinks e e'"
  shows "left_to_do e' u \<le> left_to_do e u"
proof -
  have "entries_from (timers v e') it \<le> entries_from (timers v e) it" "entries (timers v e') \<le> entries (timers v e)" for v it
    by (rule entries_from_mono; use shrinks_keys [OF assms] in blast)+
  from this [of Timers1] this [of Timers2] show ?thesis
    by (auto simp: left_to_do_def timers_def add_le_mono split: upd_pc.split which_map.split)
qed

lemma left_of_next:
  assumes "map_find (timers w e) k \<noteq> None" and "shrinks e e'"
  shows "left_to_do e' (U_Loop w (map_next (timers w e') k)) < left_to_do e (U_Fire w k cs p)"
proof -
  have "entries_from (timers w e') (map_next (timers w e') k) < entries_from (timers w e) (Some k)"
    by (rule entries_from_next) (use assms shrinks_keys in blast)+
  moreover have "entries (timers Timers2 e') \<le> entries (timers Timers2 e)"
    by (rule entries_from_mono(2)) (use shrinks_keys [OF assms(2)] in blast)
  ultimately show ?thesis by (cases w) (simp_all add: left_to_do_def timers_def)
qed

lemma loop_step_returns:
  assumes "tt_inv e" "map_find (timers w e) k \<noteq> None" "callable e" "clock_freq E \<noteq> 0" "silent E"
  obtains u e' where "loop_step E w k e = Inr (u, e')" "shrinks e e'" "silent_at u"
    "u = U_Loop w (map_next (timers w e') k) \<or> u = U_Fire w k [] K_Out"
proof -
  obtain t where t: "map_find (timers w e) k = Some t" using assms(2) by blast
  obtain f where f: "t_fp t = Some f" using assms(3) t by (fastforce simp: callable_def)
  have wf: "map_wf (timers w e)" using assms(1) by (rule tt_inv_wf)
  have "\<exists>u e'. loop_step E w k e = Inr (u, e')"
    using t f assms(4)
    by (cases "t_need_delete t") (simp_all add: loop_step_def get_clock_def get_interval_macro_secs_def res_bind_def)
  then obtain u e' where r: "loop_step E w k e = Inr (u, e')" by blast
  have "shrinks e e' \<and> silent_at u"
    using r t wf assms(5)
    by (auto simp: loop_step_def get_clock_def silent_def silent_at_def shrinks_def sm.find_erase
        split: if_splits option.splits)
  moreover have "u = U_Loop w (map_next (timers w e') k) \<or> (\<exists>cs. u = U_Fire w k cs K_Out)"
    using loop_step_cases [OF r assms(1)] by blast
  ultimately show ?thesis using that [OF r] by (auto simp: silent_at_def)
qed

lemma after_fire_returns:
  assumes "tt_inv e" "map_find (timers w e) k \<noteq> None"
  obtains e' where "after_fire E w k e = Inr (U_Loop w (map_next (timers w e') k), e')" "shrinks e e'"
proof -
  obtain t where t: "map_find (timers w e) k = Some t" using assms(2) by blast
  have "\<exists>u e'. after_fire E w k e = Inr (u, e')"
    using t by (cases "t_run_once t") (simp_all add: after_fire_def get_clock_def Let_def)
  then obtain u e' where r: "after_fire E w k e = Inr (u, e')" by blast
  then have "u = U_Loop w (map_next (timers w e') k)" using after_fire_cases assms(1) by blast
  moreover have "shrinks e e'"
    using r t tt_inv_wf [OF assms(1), of w]
    by (auto simp: after_fire_def get_clock_def Let_def shrinks_def map_find_assign map_wf_assign sm.find_erase split: if_splits)
  ultimately show ?thesis using that r by simp
qed

lemma left_of_loop: "left_to_do e (U_Fire w k cs p) < left_to_do e (U_Loop w (Some k))"
  by (cases w) (simp_all add: left_to_do_def)

text \<open>A step inside \<open>Update\<close>, with silent callbacks: no fault, and less left to do.\<close>

lemma upd_step_returns:
  assumes tt: "tt_inv e" and at: "\<And>w k. entry_at u = Some (w, k) \<Longrightarrow> map_find (timers w e) k \<noteq> None"
    and E: "callable e" "clock_freq E \<noteq> 0" "silent E" and u: "silent_at u" "u \<noteq> U_Out"
  obtains u' e' where "upd_step E lucky u e = Inr (u', e')" "shrinks e e'" "silent_at u'" "left_to_do e' u' < left_to_do e u"
proof (cases u)
  case U_Between
  then show ?thesis
    using that [of "U_Loop Timers2 (map_begin (timers2 e))" e] entries_from_le [of "timers2 e" "map_begin (timers2 e)"]
    by (simp add: upd_step_def shrinks_refl silent_at_def left_to_do_def timers_def)
next
  case (U_Loop w it)
  show ?thesis
  proof (cases it)
    case None
    then show ?thesis
      using U_Loop that [of "if w = Timers1 then U_Between else U_Out" e]
      by (cases w) (simp_all add: upd_step_def shrinks_refl silent_at_def left_to_do_def entries_from_def)
  next
    case (Some k)
    then have k: "map_find (timers w e) k \<noteq> None" using at U_Loop by simp
    obtain u' e' where r: "loop_step E w k e = Inr (u', e')" "shrinks e e'" "silent_at u'"
      "u' = U_Loop w (map_next (timers w e') k) \<or> u' = U_Fire w k [] K_Out"
      using loop_step_returns [OF tt k E] .
    have "upd_step E lucky u e = Inr (u', e')" using r(1) U_Loop Some by (cases w) (simp_all add: upd_step_def)
    moreover have "left_to_do e' u' < left_to_do e u"
      using r(4) left_of_next [OF k r(2), of "[]" K_Out] left_to_do_mono [OF r(2), of u'] left_of_loop [of e w k "[]" K_Out] U_Loop Some
      by auto
    ultimately show ?thesis using that r(2,3) by blast
  qed
next
  case (U_Fire w k cs p)
  then have k: "map_find (timers w e) k \<noteq> None" using at by simp
  obtain e' where r: "after_fire E w k e = Inr (U_Loop w (map_next (timers w e') k), e')" "shrinks e e'"
    using after_fire_returns [OF tt k] .
  have "upd_step E lucky u e = Inr (U_Loop w (map_next (timers w e') k), e')"
    using r(1) U_Fire u(1) by (simp add: upd_step_def silent_at_def outside_def)
  moreover have "left_to_do e' (U_Loop w (map_next (timers w e') k)) < left_to_do e u"
    using left_of_next [OF k r(2)] U_Fire by simp
  ultimately show ?thesis using that [OF _ r(2)] by (simp add: silent_at_def)
qed (use u in simp)

section \<open>All updates\<close>

definition group_left :: "'f engine_group \<Rightarrow> nat" where
  "group_left s = sum_list (map (left_to_do (g_engine s)) (g_updaters s))"

lemma sum_list_update_less:
  fixes f g :: "'a \<Rightarrow> nat"
  assumes "i < length xs" "\<And>x. g x \<le> f x" "g y < f (xs ! i)"
  shows "sum_list (map g (xs[i := y])) < sum_list (map f xs)"
  using assms(1,3)
proof (induction xs arbitrary: i)
  case (Cons x xs)
  have "sum_list (map g xs) \<le> sum_list (map f xs)" by (rule sum_list_mono) (rule assms(2))
  then show ?case
    using Cons assms(2) [of x] by (cases i) (auto intro: add_less_le_mono add_le_less_mono)
qed simp

lemma silent_cancels_nothing: "silent_at u \<Longrightarrow> cancels_nothing u"
  by (auto simp: silent_at_def cancels_nothing_def in_UnRegister_def split: upd_pc.splits)

lemma group_step_forward:
  assumes inv: "group_inv s" and silent: "\<forall>u \<in> set (g_updaters s). silent_at u"
    and E: "callable (g_engine s)" "clock_freq E \<noteq> 0" "silent E"
    and busy: "j < length (g_updaters s)" "g_updaters s ! j \<noteq> U_Out"
  obtains i s' where "group_move E (In_Update i True) s = Inr s'" "group_left s' < group_left s" "group_inv s'"
    "\<forall>u \<in> set (g_updaters s'). silent_at u" "callable (g_engine s')"
proof -
  let ?us = "g_updaters s" and ?e = "g_engine s"
  have "\<forall>u \<in> set ?us. cancels_nothing u" using silent silent_cancels_nothing by blast
  then obtain i where i: "i < length ?us" "?us ! i \<noteq> U_Out" "\<not> blocked (held_by_others ?us i) (?us ! i)"
    using some_thread_not_blocked [OF inv _ busy] by blast
  let ?lucky = "True \<and> \<not> try_fails (held_by_others ?us i) (?us ! i)"
  have tt: "tt_inv ?e" using inv calls_invD(1) by (auto simp: group_inv_def)
  have at: "\<And>w k. entry_at (?us ! i) = Some (w, k) \<Longrightarrow> map_find (timers w ?e) k \<noteq> None"
    using inv i(1) by (simp add: group_inv_def)
  have u: "silent_at (?us ! i)" using silent i(1) by simp
  obtain u' e' where r: "upd_step E ?lucky (?us ! i) ?e = Inr (u', e')" "shrinks ?e e'" "silent_at u'"
    "left_to_do e' u' < left_to_do ?e (?us ! i)"
    using upd_step_returns [OF tt at E u i(2)] .
  let ?s = "s\<lparr>g_engine := e', g_updaters := ?us[i := u']\<rparr>"
  have m: "group_move E (In_Update i True) s = Inr ?s"
    using r(1) i by (simp add: group_move_def upd_step_among_def blocked_def g_updater_to_def)
  have "group_left ?s < group_left s"
    unfolding group_left_def using sum_list_update_less [OF i(1) left_to_do_mono [OF r(2)] r(4)] by simp
  moreover have "group_inv ?s" by (rule group_move_inv [OF inv m]) simp
  moreover have "\<forall>u \<in> set (g_updaters ?s). silent_at u"
    using silent r(3) by (auto dest: set_update_subset_insert [THEN subsetD])
  moreover have "callable (g_engine ?s)" using shrinks_callable [OF r(2) E(1)] by simp
  ultimately show ?thesis using that m by blast
qed

lemma group_finishes:
  assumes "group_inv s" "\<forall>u \<in> set (g_updaters s). silent_at u" "callable (g_engine s)"
    and E: "clock_freq E \<noteq> 0" "silent E"
  shows "\<exists>is t. group_run E (map (\<lambda>i. In_Update i True) is) s = Inr t \<and> length is \<le> group_left s \<and>
    (\<forall>u \<in> set (g_updaters t). u = U_Out)"
  using assms(1-3)
proof (induction "group_left s" arbitrary: s rule: less_induct)
  case less
  show ?case
  proof (cases "\<forall>u \<in> set (g_updaters s). u = U_Out")
    case True
    then show ?thesis by (intro exI [of _ "[]"] exI [of _ s]) simp
  next
    case False
    then obtain j where j: "j < length (g_updaters s)" "g_updaters s ! j \<noteq> U_Out" by (metis in_set_conv_nth)
    obtain i s' where i: "group_move E (In_Update i True) s = Inr s'" "group_left s' < group_left s" "group_inv s'"
      "\<forall>u \<in> set (g_updaters s'). silent_at u" "callable (g_engine s')"
      using group_step_forward [OF less.prems E j] .
    obtain ks t where "group_run E (map (\<lambda>i. In_Update i True) ks) s' = Inr t" "length ks \<le> group_left s'"
      "\<forall>u \<in> set (g_updaters t). u = U_Out"
      using less.hyps [OF i(2-5)] by blast
    then show ?thesis using i(1,2) by (intro exI [of _ "i # ks"] exI [of _ t]) simp
  qed
qed

lemma upd_step_silent:
  assumes "silent E" and "silent_at u" and "upd_step E lucky u e = Inr (u', e')"
  shows "silent_at u'"
proof (cases u)
  case (U_Loop w it)
  then show ?thesis
    using assms
    by (cases w; cases it) (auto simp: upd_step_def loop_step_def get_clock_def silent_at_def silent_def
        split: if_splits option.splits)
next
  case (U_Fire w k cs p)
  then show ?thesis
    using assms by (auto simp: upd_step_def silent_at_def outside_def dest!: after_fire_place)
qed (use assms in \<open>auto simp: upd_step_def silent_at_def\<close>)

end
