(* ===== verification/Timer_Updater_Torn.thy ===== *)
theory Timer_Updater_Torn
  imports Timer_Updaters
begin

text \<open>
  What the mutexes guarantee by themselves, also when the increments of \<open>_cur_timer_id\<close>, which no
  mutex guards, are torn and timers get the ids of others: each map is well formed, no two threads
  are inside one, and the entry an updating thread is at stays in its map.
\<close>

section \<open>Calls\<close>

definition maps_wf :: "'f timer_thread \<Rightarrow> bool" where
  "maps_wf e \<longleftrightarrow> (\<forall>w. map_wf (timers w e))"

lemma maps_wfD: "maps_wf e \<Longrightarrow> map_wf (timers w e)"
  by (simp add: maps_wf_def)

lemma maps_wf_set: "maps_wf e \<Longrightarrow> map_wf m \<Longrightarrow> maps_wf (set_timers w m e)"
  by (simp add: maps_wf_def)

lemma try_insert_wf:
  assumes "maps_wf e" and "try_insert w locked t p e = (p', e')"
  shows "maps_wf e' \<and> keeps_keys e e'"
  using assms maps_wfD [OF assms(1)]
  by (auto simp: try_insert_def keeps_keys_def map_find_insert sm.invar_insert intro!: maps_wf_set split: if_splits)

lemma flag_in_wf:
  assumes "maps_wf e" and "flag_in w i p e = (p', e')"
  shows "maps_wf e' \<and> keeps_keys e e'"
  using assms maps_wfD [OF assms(1)]
  by (auto simp: flag_in_def keeps_keys_def map_find_assign map_wf_assign intro!: maps_wf_set split: option.splits)

lemma clock_wf: "maps_wf e \<Longrightarrow> maps_wf (e\<lparr>clock_reads := n\<rparr>) \<and> keeps_keys e (e\<lparr>clock_reads := n\<rparr>)"
  "maps_wf e \<Longrightarrow> maps_wf (e\<lparr>cur_timer_id := i\<rparr>) \<and> keeps_keys e (e\<lparr>cur_timer_id := i\<rparr>)"
  by (simp_all add: maps_wf_def keeps_keys_def)

lemma begin_call_wf:
  assumes "maps_wf e" and "begin_call h c p e = Inr (p', e')"
  shows "maps_wf e' \<and> keeps_keys e e'"
proof (cases c)
  case (Api_UnRegister i)
  then show ?thesis
    using assms flag_in_wf [OF assms(1), of Timers2 i "K_UnRegister1 i" p' e']
    by (auto simp: begin_call_def split: if_splits)
qed (use assms clock_wf(2) [OF assms(1)] in \<open>auto simp: begin_call_def count_up_def split: if_splits\<close>)

lemma call_step_wf:
  assumes "maps_wf e" and "call_step E h lucky p e = Inr (p', e')"
  shows "maps_wf e' \<and> keeps_keys e e'"
proof (cases p)
  case (K_Try2 t)
  then have "try_insert Timers2 (lucky \<and> \<not> h Timers2) t (K_Try1 t) e = (p', e')" using assms(2) by (simp add: call_step_def)
  then show ?thesis by (rule try_insert_wf [OF assms(1)])
next
  case (K_Try1 t)
  then have "try_insert Timers1 (lucky \<and> \<not> h Timers1) t (K_Try2 t) e = (p', e')" using assms(2) by (simp add: call_step_def)
  then show ?thesis by (rule try_insert_wf [OF assms(1)])
next
  case (K_UnRegister1 i)
  then show ?thesis
    using assms flag_in_wf [OF assms(1), of Timers1 i K_Out p' e'] by (auto simp: call_step_def split: if_splits)
qed (use assms clock_wf [OF assms(1)] in \<open>auto simp: call_step_def count_up_def get_clock_def split: if_splits\<close>)

section \<open>A step of an updating thread\<close>

definition upd_wf :: "'f upd_pc \<Rightarrow> 'f timer_thread \<Rightarrow> 'f upd_pc \<Rightarrow> 'f timer_thread \<Rightarrow> bool" where
  "upd_wf u e u' e' \<longleftrightarrow> maps_wf e' \<and>
     (\<forall>w k. entry_at u' = Some (w, k) \<longrightarrow> map_find (timers w e') k \<noteq> None) \<and>
     (\<forall>v k. \<not> held u v \<longrightarrow> map_find (timers v e) k \<noteq> None \<longrightarrow> map_find (timers v e') k \<noteq> None)"

lemma next_wf: "map_next (timers w e) k = Some j \<Longrightarrow> map_find (timers w e) j \<noteq> None"
  by (auto simp: map_find_None_iff dest: map_next_in_keys)

lemma loop_step_wf:
  assumes wf: "maps_wf e" and step: "loop_step E w k e = Inr (u', e')"
  shows "upd_wf (U_Loop w (Some k)) e u' e'"
proof -
  obtain t where t: "map_find (timers w e) k = Some t" using step by (auto simp: loop_step_def split: option.splits)
  note m = maps_wfD [OF wf, of w]
  show ?thesis
  proof (cases "t_need_delete t")
    case True
    then have e': "e' = set_timers w (map_erase (timers w e) k) e" "u' = U_Loop w (map_next (timers w e') k)"
      using step t m by (auto simp: loop_step_def sm.succ_erase)
    have "maps_wf e'" unfolding e'(1) by (rule maps_wf_set [OF wf map_wf_erase [OF m]])
    then show ?thesis using next_wf [of w e' k] by (auto simp: upd_wf_def e')
  next
    case False
    then consider
        (waits) "e' = e\<lparr>clock_reads := Suc (clock_reads e)\<rparr>" "u' = U_Loop w (map_next (timers w e) k)"
      | (fires) cs l where "e' = e\<lparr>clock_reads := Suc (clock_reads e), fired := l\<rparr>" "u' = U_Fire w k cs K_Out"
      using step t by (auto simp: loop_step_def get_clock_def split: if_splits option.splits)
    then show ?thesis
      using wf t next_wf [of w e k] by cases (auto simp: upd_wf_def maps_wf_def)
  qed
qed

lemma after_fire_wf:
  assumes wf: "maps_wf e" and step: "after_fire E w k e = Inr (u', e')"
  shows "upd_wf (U_Fire w k cs p) e u' e'"
proof -
  obtain t where t: "map_find (timers w e) k = Some t" using step by (auto simp: after_fire_def split: option.splits)
  let ?e1 = "e\<lparr>clock_reads := Suc (clock_reads e)\<rparr>" and ?t = "rearm (clock_at E (clock_reads e)) t"
  let ?e2 = "set_timers w (map_assign (timers w e) k ?t) ?e1"
  have wf1: "maps_wf ?e1" using clock_wf(1) [OF wf] by blast
  have wf2: "maps_wf ?e2" by (rule maps_wf_set [OF wf1 map_wf_assign [OF maps_wfD [OF wf]]])
  have m: "map_wf (timers w ?e2)" using wf2 by (rule maps_wfD)
  have e': "e' = (if t_run_once t then set_timers w (map_erase (timers w ?e2) k) ?e2 else ?e2)"
    and u': "u' = U_Loop w (map_next (timers w e') k)"
    using step t m by (auto simp: after_fire_def get_clock_def Let_def rearm_def sm.succ_erase split: if_splits)
  have "maps_wf (set_timers w (map_erase (timers w ?e2) k) ?e2)" by (rule maps_wf_set [OF wf2 map_wf_erase [OF m]])
  then have "maps_wf e'" unfolding e' using wf2 by simp
  moreover have "timers v e' = timers v e" if "v \<noteq> w" for v using that by (simp add: e')
  ultimately show ?thesis using next_wf [of w e' k] u' by (auto simp: upd_wf_def)
qed

lemma upd_step_wf:
  assumes wf: "maps_wf e" and at: "\<And>w k. entry_at u = Some (w, k) \<Longrightarrow> map_find (timers w e) k \<noteq> None"
    and step: "upd_step E lucky u e = Inr (u', e')"
  shows "upd_wf u e u' e'"
proof (cases u)
  case (U_Loop w it)
  show ?thesis
  proof (cases it)
    case None
    then show ?thesis using step U_Loop wf by (cases w) (auto simp: upd_step_def upd_wf_def)
  next
    case (Some k)
    then have "loop_step E w k e = Inr (u', e')" using step U_Loop by (cases w) (simp_all add: upd_step_def)
    then show ?thesis unfolding U_Loop Some by (rule loop_step_wf [OF wf])
  qed
next
  case (U_Fire w k cs p)
  have there: "map_find (timers w e) k \<noteq> None" using at U_Fire by simp
  have call: "upd_wf u e (U_Fire w k cs' p') e'" if "maps_wf e' \<and> keeps_keys e e'" for cs' p'
    using that there by (auto simp: upd_wf_def keeps_keys_def)
  show ?thesis
  proof (cases "outside p")
    case False
    then show ?thesis using step U_Fire call call_step_wf [OF wf] by (fastforce simp: upd_step_def)
  next
    case True
    then show ?thesis
      using step U_Fire call begin_call_wf [OF wf] after_fire_wf [OF wf, of E w k u' e' cs p]
      by (cases cs) (fastforce simp: upd_step_def)+
  qed
next
  case U_Out
  then show ?thesis
    using wf step map_begin_Some [OF maps_wfD [OF wf], of Timers1] by (auto simp: upd_step_def upd_wf_def)
next
  case U_Between
  then show ?thesis
    using wf step map_begin_Some [OF maps_wfD [OF wf], of Timers2] by (auto simp: upd_step_def upd_wf_def)
qed

section \<open>The group\<close>

definition places_ok :: "'f engine_group \<Rightarrow> bool" where
  "places_ok s \<longleftrightarrow> maps_wf (g_engine s) \<and> apart (g_updaters s) \<and>
     (\<forall>i < length (g_updaters s). \<forall>w k. entry_at (g_updaters s ! i) = Some (w, k) \<longrightarrow>
        map_find (timers w (g_engine s)) k \<noteq> None)"

lemma In_Update_places:
  assumes inv: "places_ok s" and i: "i < length (g_updaters s)"
    and step: "upd_step_among E (held_by_others (g_updaters s) i) lucky (g_updaters s ! i) (g_engine s) = Inr (u', e')"
  shows "places_ok (s\<lparr>g_engine := e', g_updaters := (g_updaters s)[i := u']\<rparr>)"
proof (cases "waits (held_by_others (g_updaters s) i) (g_updaters s ! i)")
  case True
  then have "u' = g_updaters s ! i" "e' = g_engine s" using step by (simp_all add: upd_step_among_def)
  then show ?thesis using inv by simp
next
  case False
  let ?us = "g_updaters s"
  have ap: "apart ?us" using inv by (simp add: places_ok_def)
  have at: "\<And>j w k. j < length ?us \<Longrightarrow> entry_at (?us ! j) = Some (w, k) \<Longrightarrow> map_find (timers w (g_engine s)) k \<noteq> None"
    using inv by (simp add: places_ok_def)
  obtain luck where luck: "upd_step E luck (?us ! i) (g_engine s) = Inr (u', e')"
    using step False by (auto simp: upd_step_among_def)
  have wf: "upd_wf (?us ! i) (g_engine s) u' e'"
    by (rule upd_step_wf [OF _ _ luck]) (use inv i at in \<open>simp_all add: places_ok_def\<close>)
  have "map_find (timers w e') k \<noteq> None" if j: "j < length ?us" "entry_at (?us[i := u'] ! j) = Some (w, k)" for j w k
  proof (cases "j = i")
    case True
    then show ?thesis using wf j i by (simp add: upd_wf_def)
  next
    case False
    then have "entry_at (?us ! j) = Some (w, k)" using j by simp
    then have "map_find (timers w (g_engine s)) k \<noteq> None" "\<not> held (?us ! i) w"
      using at j(1) apart_excl [OF ap j(1) i False] held_entry by metis+
    then show ?thesis using wf by (simp add: upd_wf_def)
  qed
  then show ?thesis using wf upd_step_apart [OF ap i False luck] by (simp add: places_ok_def upd_wf_def)
qed

lemma group_move_places_ok:
  assumes inv: "places_ok s" and step: "group_move E m s = Inr t"
  shows "places_ok t"
proof (cases m)
  case (In_Update i lucky)
  show ?thesis
  proof (cases "i < length (g_updaters s)")
    case True
    then show ?thesis using step In_Update In_Update_places [OF inv True] by (auto simp: group_move_def g_updater_to_def)
  qed (use step In_Update inv in \<open>simp add: group_move_def\<close>)
next
  case (G_Call c a)
  then show ?thesis
    using inv step begin_call_wf [of "g_engine s"]
    by (fastforce simp: group_move_def g_client_to_def places_ok_def keeps_keys_def split: if_splits)
next
  case (G_Call_Torn c a)
  then show ?thesis
    using inv step by (auto simp: group_move_def g_client_to_def places_ok_def split: if_splits)
next
  case (G_Client c lucky)
  then show ?thesis
    using inv step call_step_wf [of "g_engine s"]
    by (fastforce simp: group_move_def g_client_to_def places_ok_def keeps_keys_def)
qed

lemma group_run_places_ok:
  assumes "group_run E ms (group_start n ts_l ts_g) = Inr t"
  shows "places_ok t"
proof (rule run_steps_keep [where I = places_ok and ok = "\<lambda>_. True", OF assms])
  show "places_ok (group_start n ts_l ts_g)"
    by (auto simp: places_ok_def group_start_def maps_wf_def TimerThread_def apart_def timers_def split: which_map.split)
qed (auto simp: list_all_iff intro: group_move_places_ok)

end
