(* ===== verification/Timer_Thread_Properties.thy ===== *)
theory Timer_Thread_Properties
  imports Timer_Alone
begin

text \<open>
  What holds of the timer engine with several threads: its safety in every order of steps, the
  effect of a registration, the agreement with the sequential model, and what the unguarded id
  counter and the two \<open>try_lock\<close>s cannot give. Each witness and each bad run is a concrete
  sequence of moves.
\<close>

section \<open>Runs\<close>

text \<open>A clock that stands still, callbacks that do nothing.\<close>

definition still_env :: "nat timer_env" where
  "still_env = \<lparr>clock_at = (\<lambda>_. 0), clock_freq = 1, try_locks = (\<lambda>_. [(True, True)]), behaviour = (\<lambda>_ _. [])\<rparr>"

definition still_run :: "nat move list \<Rightarrow> nat engine_threads" where
  "still_run ms = (case engine_run still_env ms (engine_start 43200 43200) of Inr s \<Rightarrow> s)"

lemma still_run_Inr:
  assumes "case engine_run still_env ms (engine_start 43200 43200) of Inl _ \<Rightarrow> False | Inr _ \<Rightarrow> True"
  shows "engine_run still_env ms (engine_start 43200 43200) = Inr (still_run ms)"
  using assms by (simp add: still_run_def split: sum.splits)

text \<open>A timer in the second map is in its callback while a client registers and has found that map locked.\<close>

definition busy_turns :: "nat move list" where
  "busy_turns = [Call 0 (Api_Register True 0 (Some 10)), Client 0 True, Client 0 True,
     Updater True, Updater True, Updater True, Updater True,
     Call 2 (Api_Register True 7 (Some 20)), Client 2 True, Client 2 True]"

lemma busy_run:
  "engine_run still_env busy_turns (engine_start 43200 43200) = Inr (still_run busy_turns)"
  "list_all atomic_count busy_turns"
  by (rule still_run_Inr) code_simp+

lemma busy_state:
  "client (still_run busy_turns) 2 = K_Try1 (fresh_timer 2 True 7000000 (Some 20) 0)"
  "updater (still_run busy_turns) = U_Fire Timers2 1 [] K_Out"
  by code_simp+

text \<open>Two clients register, each with a torn increment.\<close>

definition torn_turns :: "nat move list" where
  "torn_turns = [Call_Torn 0 (Api_Register True 5 (Some 10)), Call_Torn 1 (Api_Register True 7 (Some 20)),
     Client 0 True, Client 1 True, Client 0 True, Client 0 True, Client 1 True, Client 1 True,
     Client 0 True, Client 1 True]"

text \<open>A client tries the map the updating thread is inside, always.\<close>

definition starving_round :: "'f move list" where
  "starving_round = [Client 0 True, Updater True, Updater True, Client 0 True, Updater True, Updater True]"

section \<open>Properties\<close>


text \<open>
  With one thread in \<open>Update\<close> and any number of clients, in every order of their steps, the
  callbacks' calls included: the two maps stay well formed and disjoint, the iterator of the
  updating thread always points to an entry, also during and after a callback, so that no step
  uses an invalid iterator, and a timer that is being registered is in no map yet.
\<close>
theorem engine_threads_safe:
  assumes "engine_run E ms (engine_start ts_l ts_g) = Inr s" and "list_all atomic_count ms"
  shows "tt_inv (engine s) \<and> updater_move E lucky s \<noteq> Inl Bad_Iterator \<and>
    (\<forall>w k. entry_at (updater s) = Some (w, k) \<longrightarrow> map_find (timers w (engine s)) k \<noteq> None) \<and>
    (\<forall>c t w. client s c = K_Try2 t \<or> client s c = K_Try1 t \<longrightarrow> map_find (timers w (engine s)) (t_timer_id t) = None)"
proof -
  have inv: "threads_inv s" using engine_run_inv [OF assms] .
  then have calls: "calls_inv (engine s) (call_at (updater s) (client s))"
    and at: "\<And>w k. entry_at (updater s) = Some (w, k) \<Longrightarrow> map_find (timers w (engine s)) k \<noteq> None"
    by (simp_all add: threads_inv_def)
  have "upd_step E lucky (updater s) (engine s) \<noteq> Inl Bad_Iterator" by (rule upd_step_fault) (rule at)
  then have "updater_move E lucky s \<noteq> Inl Bad_Iterator" by (auto simp: updater_move_def res_bind_def split: sum.splits)
  moreover have "map_find (timers w (engine s)) (t_timer_id t) = None"
    if "client s c = K_Try2 t \<or> client s c = K_Try1 t" for c t w
    using calls_invD(3) [OF calls, of "Some c" "t_timer_id t" w] that by (auto simp: pending_id_def)
  ultimately show ?thesis using calls_invD(1) [OF calls] at by blast
qed

text \<open>
  C24. The two models of \<open>Update\<close> agree: in every state in which the updating thread is outside
  \<open>Update\<close>, whatever the clients are in the middle of, an \<open>Update\<close> that no client interrupts
  and whose \<open>try_lock\<close>s succeed ends in the engine state of the sequential model.
\<close>
theorem uninterrupted_Update:
  assumes "updater s = U_Out" and "open_locks E" and "Update E fuel (engine s) = Inr e"
  shows "\<exists>n. engine_run E (replicate n (Updater True)) s = Inr (s\<lparr>engine := e\<rparr>)"
  using reaches_Update [OF assms(3,2,1)] by (simp add: reaches_def)

text \<open>
  \<open>Register\<close> is not free of starvation: a client whose turns fall so that the updating thread is
  always inside the map it tries never gets its timer in, although each map is free half of the
  time and no other client is there. One such round leaves the state as it was.
\<close>
theorem register_may_starve:
  "\<exists>ms s t. engine_run E ms (engine_start ts_l ts_g) = Inr s \<and> list_all atomic_count ms \<and>
    client s 0 = K_Try2 t \<and> (\<forall>n. engine_run E (concat (replicate n starving_round)) s = Inr s)"
proof -
  let ?ms = "[Call 0 (Api_Register True 5 None), Client 0 True, Updater True, Updater True, Updater True]"
  let ?tm = "fresh_timer 1 True (sec_to_us 5) None (clock_at E 0)"
  let ?s = "\<lparr>engine = (TimerThread ts_l ts_g)\<lparr>cur_timer_id := 1, clock_reads := 1\<rparr>, updater = U_Loop Timers2 None,
     client = (\<lambda>_. K_Out)(0 := K_Try2 ?tm)\<rparr>"
  note moves = engine_move_def client_to_def updater_move_def upd_step_def begin_call_def call_step_def count_up_def
    try_insert_def get_clock_def held_def outside_def
  have "engine_run E ?ms (engine_start ts_l ts_g) = Inr ?s"
    by (simp add: moves engine_start_def TimerThread_def int_max_def)
  moreover have "engine_run E starving_round ?s = Inr ?s"
    by (simp add: starving_round_def moves TimerThread_def)
  then have "engine_run E (concat (replicate n starving_round)) ?s = Inr ?s" for n
    by (induction n) (simp_all add: run_steps_append)
  moreover have "list_all atomic_count ?ms" "client ?s 0 = K_Try2 ?tm" by simp_all
  ultimately show ?thesis by blast
qed

text \<open>
  C25. \<open>Register\<close> reads the counter again to return it, so it may return the id of another timer. In
  every state that the threads can reach with atomic increments, whatever the timers, when the
  updating thread is not inside the second map, there are steps of any two clients by which the
  registrations of both return the id of the second timer, although both timers are in the map and the first has
  another id. When the first client then cancels by the id it was given, the timer of the second is cancelled and its
  own is not.
\<close>
theorem register_may_return_foreign_id:
  assumes "engine_run E ms (engine_start ts_l ts_g) = Inr s" and "list_all atomic_count ms"
    and "c \<noteq> d" and "outside (client s c)" and "outside (client s d)"
    and "\<not> held (updater s) Timers2" and "cur_timer_id (engine s) + 1 < int_max"
  shows "\<exists>t u a b. let n = cur_timer_id (engine s) in
    engine_run E [Call c (Api_Register rc ic fc), Call d (Api_Register rd jd fd), Client c True, Client c True,
      Client d True, Client d True, Client c True, Client d True] s = Inr t \<and>
    client t c = K_Returned (n + 1) (n + 2) \<and> client t d = K_Returned (n + 2) (n + 2) \<and>
    map_find (timers2 (engine t)) (n + 1) = Some a \<and> t_fp a = fc \<and>
    map_find (timers2 (engine t)) (n + 2) = Some b \<and> t_fp b = fd \<and>
    engine_move E (Call c (Api_UnRegister (n + 2))) t = Inr u \<and>
    map_find (timers2 (engine u)) (n + 1) = Some a \<and> \<not> t_need_delete a \<and>
    map_find (timers2 (engine u)) (n + 2) = Some (b\<lparr>t_need_delete := True\<rparr>)"
proof -
  let ?e = "engine s" and ?n = "cur_timer_id (engine s)"
  let ?a = "fresh_timer (?n + 1) rc (sec_to_us (word_of_int ic)) fc (clock_at E (clock_reads ?e))"
  let ?b = "fresh_timer (?n + 2) rd (sec_to_us (word_of_int jd)) fd (clock_at E (Suc (clock_reads ?e)))"
  let ?m = "map_insert (map_insert (timers2 ?e) (?n + 1) ?a) (?n + 2) ?b"
  let ?t = "s\<lparr>engine := ?e\<lparr>cur_timer_id := ?n + 2, clock_reads := Suc (Suc (clock_reads ?e)), timers2 := ?m\<rparr>,
    client := (client s)(c := K_Returned (?n + 1) (?n + 2), d := K_Returned (?n + 2) (?n + 2))\<rparr>"
  let ?u = "?t\<lparr>engine := engine ?t\<lparr>timers2 := map_assign ?m (?n + 2) (?b\<lparr>t_need_delete := True\<rparr>)\<rparr>,
    client := (client ?t)(c := K_Out)\<rparr>"
  have inv: "tt_inv ?e" using engine_run_inv [OF assms(1,2)] calls_invD(1) by (auto simp: threads_inv_def)
  have wf: "map_wf (timers2 ?e)" using tt_inv_wf [OF inv, of Timers2] by simp
  then have wf1: "map_wf (map_insert (timers2 ?e) (?n + 1) ?a)" by (rule sm.invar_insert)
  have old: "map_find (timers2 ?e) k = None" if "?n < k" for k
    using tt_inv_entry [OF inv, of Timers2 k] that by (cases "map_find (timers2 ?e) k") (auto simp: entry_ok_def)
  have a: "map_find ?m (?n + 1) = Some ?a" and b: "map_find ?m (?n + 2) = Some ?b"
    using wf wf1 old [of "?n + 1"] old [of "?n + 2"] by (simp_all add: map_find_insert)
  note moves = engine_move_def client_to_def begin_call_def call_step_def count_up_def try_insert_def get_clock_def set_timers_def
  have "engine_run E [Call c (Api_Register rc ic fc), Call d (Api_Register rd jd fd), Client c True, Client c True,
      Client d True, Client d True, Client c True, Client d True] s = Inr ?t"
    using assms(3-7) by (simp add: moves fresh_timer_def fun_upd_twist add.commute)
  moreover have "engine_move E (Call c (Api_UnRegister (?n + 2))) ?t = Inr ?u"
    using assms(3,6) b by (simp add: moves flag_in_def outside_def)
  ultimately show ?thesis
    using a b assms(3)
    by (intro exI [of _ ?t] exI [of _ ?u] exI [of _ ?a] exI [of _ ?b]) (simp add: Let_def map_find_assign fresh_timer_def)
qed

text \<open>
  The increment of the counter is guarded by no mutex: two timers may get the same id, and
  then the second one is dropped without a word, its caller being given the id of the first.
\<close>
theorem counter_race_loses_a_timer:
  "(case engine_run still_env torn_turns (engine_start 43200 43200) of
      Inl _ \<Rightarrow> False
    | Inr s \<Rightarrow>
        client s 0 = K_Returned 1 1 \<and> client s 1 = K_Returned 1 1 \<and>
        map_keys (timers1 (engine s)) = [] \<and> map_keys (timers2 (engine s)) = [1] \<and>
        map_option t_fp (map_find (timers2 (engine s)) 1) = Some (Some 10))"
  by code_simp

section \<open>Witnesses\<close>

theorem engine_threads_safe_witness:
  "tt_inv (engine (still_run busy_turns)) \<and> entry_at (updater (still_run busy_turns)) = Some (Timers2, 1) \<and>
   map_find (timers Timers2 (engine (still_run busy_turns))) 1 \<noteq> None"
  using engine_threads_safe [OF busy_run] busy_state(2) by auto

text \<open>The updating thread is in the callback of a timer of the first map.\<close>

definition first_map_turns :: "nat move list" where
  "first_map_turns = [Updater True, Updater True, Updater True, Call 0 (Api_Register False 0 (Some 10)), Client 0 True,
     Client 0 True, Client 0 True, Client 0 True, Updater True, Updater True, Updater True]"

theorem register_may_return_foreign_id_witness:
  "\<exists>t. engine_run still_env [Call 0 (Api_Register True 5 (Some 30)), Call 1 (Api_Register True 7 (Some 40)), Client 0 True,
      Client 0 True, Client 1 True, Client 1 True, Client 0 True, Client 1 True] (still_run first_map_turns) = Inr t \<and>
     client t 0 = K_Returned 2 3 \<and> client t 1 = K_Returned 3 3"
proof -
  have s: "engine_run still_env first_map_turns (engine_start 43200 43200) = Inr (still_run first_map_turns)"
    by (rule still_run_Inr) code_simp
  have "list_all atomic_count first_map_turns" "outside (client (still_run first_map_turns) 0)"
    "outside (client (still_run first_map_turns) 1)" "cur_timer_id (engine (still_run first_map_turns)) = 1"
    "updater (still_run first_map_turns) = U_Fire Timers1 1 [] K_Out" by code_simp+
  then show ?thesis
    using register_may_return_foreign_id [OF s, of 0 1 True 5 "Some 30" True 7 "Some 40"] by (auto simp: Let_def int_max_def)
qed

theorem uninterrupted_Update_witness:
  "\<exists>n t. engine_run still_env (replicate n (Updater True)) (still_run (take 3 busy_turns)) = Inr t \<and>
    fired (engine t) = [(1, 10)] \<and> timers2 (engine t) = []"
proof -
  let ?s = "still_run (take 3 busy_turns)"
  have u: "updater ?s = U_Out" by code_simp
  have o: "open_locks still_env" by (auto simp: open_locks_def still_env_def intro: exI [of _ True])
  have "case Update still_env 2 (engine ?s) of Inl _ \<Rightarrow> False | Inr e \<Rightarrow> fired e = [(1, 10)] \<and> timers2 e = []" by code_simp
  then obtain e where e: "Update still_env 2 (engine ?s) = Inr e" "fired e = [(1, 10)]" "timers2 e = []"
    by (auto split: sum.splits)
  obtain n where "engine_run still_env (replicate n (Updater True)) ?s = Inr (?s\<lparr>engine := e\<rparr>)"
    using uninterrupted_Update [OF u o e(1)] by blast
  then show ?thesis using e by (intro exI [of _ n] exI [of _ "?s\<lparr>engine := e\<rparr>"]) simp
qed

end
