(* ===== verification/Timer_Updater_Properties.thy ===== *)
theory Timer_Updater_Properties
  imports Timer_Updater_Progress Timer_Updater_Torn Timer_Thread_Properties
begin

text \<open>
  What holds of the timer engine with several threads in \<open>Update\<close>: its safety in every order of
  steps; the deadlock of two threads whose callbacks cancel timers, each waiting, with the
  mutex of one map, for the mutex of the other; and progress where no callback cancels a timer.
\<close>

section \<open>One updating thread\<close>

definition as_group :: "'f engine_threads \<Rightarrow> 'f engine_group" where
  "as_group s = \<lparr>g_engine = engine s, g_updaters = [updater s], g_client = client s\<rparr>"

fun as_group_move :: "'f move \<Rightarrow> 'f group_move" where
  "as_group_move (Updater lucky) = In_Update 0 lucky"
| "as_group_move (Call c a) = G_Call c a"
| "as_group_move (Call_Torn c a) = G_Call_Torn c a"
| "as_group_move (Client c lucky) = G_Client c lucky"

lemma held_single: "held_by_others [u] 0 = (\<lambda>_. False)" "held_by_any [u] = held u"
  by (auto simp: held_by_others_iff held_by_any_def)

lemma group_move_single:
  "group_move E (as_group_move m) (as_group s) = res_bind (engine_move E m s) (\<lambda>s. Inr (as_group s))"
  by (cases m) (auto simp: group_move_def engine_move_def as_group_def g_updater_to_def g_client_to_def updater_move_def
      client_to_def held_single upd_step_among_free res_bind_def split: sum.splits)

text \<open>With one updating thread the model is that of \<open>Timer_Threads\<close>.\<close>

theorem single_updater:
  "group_run E (map as_group_move ms) (as_group s) = res_bind (engine_run E ms s) (\<lambda>s. Inr (as_group s))"
  by (induction ms arbitrary: s) (auto simp: group_move_single res_bind_def split: sum.splits)

section \<open>Deadlock\<close>

text \<open>Every updating thread waits for another one, and neither map can be had.\<close>

definition deadlocked :: "'f engine_group \<Rightarrow> bool" where
  "deadlocked s \<longleftrightarrow> (\<forall>i < length (g_updaters s). waits (held_by_others (g_updaters s) i) (g_updaters s ! i)) \<and>
     held_by_any (g_updaters s) Timers1 \<and> held_by_any (g_updaters s) Timers2"

text \<open>Nothing that the updating threads do or the maps hold changes any more.\<close>

definition frozen :: "'f engine_group \<Rightarrow> 'f engine_group \<Rightarrow> bool" where
  "frozen s t \<longleftrightarrow> g_updaters t = g_updaters s \<and> timers1 (g_engine t) = timers1 (g_engine s) \<and>
     timers2 (g_engine t) = timers2 (g_engine s) \<and> fired (g_engine t) = fired (g_engine s)"

lemma locked_call:
  assumes "h Timers1" "h Timers2"
  shows "begin_call h a p e = Inr (p', e') \<Longrightarrow> timers1 e' = timers1 e \<and> timers2 e' = timers2 e \<and> fired e' = fired e"
    "call_step E h lucky p e = Inr (p', e') \<Longrightarrow> timers1 e' = timers1 e \<and> timers2 e' = timers2 e \<and> fired e' = fired e"
  using assms
  by (auto simp: begin_call_def call_step_def count_up_def get_clock_def try_insert_def split: api.splits call_pc.splits if_splits)

lemma deadlocked_move:
  assumes "deadlocked s" and "group_move E m s = Inr t"
  shows "frozen s t"
proof (cases m)
  case (In_Update i lucky)
  then have "t = s"
    using assms by (auto simp: group_move_def deadlocked_def upd_step_among_def g_updater_to_def split: if_splits)
  then show ?thesis by (simp add: frozen_def)
next
  case (G_Call c a)
  then show ?thesis
    using assms locked_call(1) [of "held_by_any (g_updaters s)" a]
    by (auto simp: group_move_def deadlocked_def g_client_to_def frozen_def split: if_splits)
next
  case (G_Call_Torn c a)
  then show ?thesis
    using assms by (auto simp: group_move_def g_client_to_def frozen_def split: if_splits)
next
  case (G_Client c lucky)
  then show ?thesis
    using assms locked_call(2) [of "held_by_any (g_updaters s)" E lucky]
    by (auto simp: group_move_def deadlocked_def g_client_to_def frozen_def split: if_splits)
qed

lemma deadlocked_frozen: "deadlocked s \<Longrightarrow> frozen s t \<Longrightarrow> deadlocked t"
  by (simp add: deadlocked_def frozen_def)

lemma deadlocked_run:
  assumes "deadlocked s" and "group_run E ms s = Inr t"
  shows "frozen s t"
proof -
  have "deadlocked t \<and> frozen s t"
  proof (rule run_steps_keep [where I = "\<lambda>t. deadlocked t \<and> frozen s t" and ok = "\<lambda>_. True", OF assms(2)])
    show "deadlocked u \<and> frozen s u" if "deadlocked v \<and> frozen s v" "group_move E m v = Inr u" for m v u
      using that deadlocked_move [of v E m u] deadlocked_frozen [of v u] by (auto simp: frozen_def)
  qed (use assms(1) in \<open>simp_all add: frozen_def list_all_iff\<close>)
  then show ?thesis by blast
qed

text \<open>What may still fault is the increment of the counter by a client.\<close>

lemma deadlocked_move_fault:
  assumes "deadlocked s" and "group_move E m s = Inl f"
  shows "f = Signed_Overflow"
  using assms
  by (cases m)
    (auto simp: group_move_def deadlocked_def upd_step_among_def g_updater_to_def g_client_to_def begin_call_def
      call_step_def count_up_def get_clock_def try_insert_def split: if_splits api.splits call_pc.splits)

lemma deadlocked_fault:
  assumes "deadlocked s" and "group_run E ms s = Inl f"
  shows "f = Signed_Overflow"
proof -
  obtain m u where "deadlocked u" "group_move E m u = Inl f"
    by (rule run_steps_fault [where I = deadlocked and ok = "\<lambda>_. True", OF assms(2,1)])
      (auto simp: list_all_iff intro: deadlocked_frozen deadlocked_move)
  then show ?thesis by (rule deadlocked_move_fault)
qed

text \<open>
  Every callback cancels timer 2. Timer 1 is in the second map, and its callback has begun when
  timer 2 gets into the first map and is fired there by another thread.
\<close>

definition cancelling_env :: "nat timer_env" where
  "cancelling_env = still_env\<lparr>behaviour := (\<lambda>_ _. [Api_UnRegister 2])\<rparr>"

definition deadlock_turns :: "nat group_move list" where
  "deadlock_turns = [G_Call 0 (Api_Register True 0 (Some 10)), G_Client 0 True, G_Client 0 True,
     In_Update 1 True, In_Update 1 True, In_Update 1 True, In_Update 1 True,
     G_Call 1 (Api_Register False 0 (Some 20)), G_Client 1 True, G_Client 1 True, G_Client 1 True,
     In_Update 0 True, In_Update 0 True, In_Update 1 True]"

definition deadlock_state :: "nat engine_group" where
  "deadlock_state = (case group_run cancelling_env deadlock_turns (group_start 2 43200 43200) of Inr s \<Rightarrow> s)"

lemma deadlock_turns_run:
  "group_run cancelling_env deadlock_turns (group_start 2 43200 43200) = Inr deadlock_state"
  "list_all g_atomic_count deadlock_turns" "deadlocked deadlock_state"
  "g_updaters deadlock_state = [U_Fire Timers1 2 [Api_UnRegister 2] K_Out, U_Fire Timers2 1 [] (K_UnRegister1 2)]"
proof -
  let ?r = "group_run cancelling_env deadlock_turns (group_start 2 43200 43200)"
  let ?us = "[U_Fire Timers1 2 [Api_UnRegister 2] K_Out, U_Fire Timers2 1 [] (K_UnRegister1 2)]"
  have "case ?r of Inl _ \<Rightarrow> False | Inr s \<Rightarrow> g_updaters s = ?us" by code_simp
  then show r: "?r = Inr deadlock_state" and us: "g_updaters deadlock_state = ?us"
    by (auto simp: deadlock_state_def split: sum.splits)
  show "list_all g_atomic_count deadlock_turns" by (simp add: deadlock_turns_def)
  show "deadlocked deadlock_state"
    by (auto simp: deadlocked_def us waits_def outside_def held_by_others_iff held_by_any_def less_Suc_eq)
qed

text \<open>A thread that is in a call, a client or an updating thread in its callback, makes a step of the call.\<close>

lemma group_call_step:
  assumes "group_move E (case c of Inl i \<Rightarrow> In_Update i lucky | Inr d \<Rightarrow> G_Client d lucky) s = Inr t"
    and "group_calls (g_updaters s) (g_client s) c = K_Try2 tm \<or> group_calls (g_updaters s) (g_client s) c = K_Try1 tm"
  shows "\<exists>p. call_step E (case c of Inl i \<Rightarrow> held_by_others (g_updaters s) i | Inr _ \<Rightarrow> held_by_any (g_updaters s))
      lucky (group_calls (g_updaters s) (g_client s) c) (g_engine s) = Inr (p, g_engine t) \<and>
    group_calls (g_updaters t) (g_client t) c = p"
proof (cases c)
  case (Inr d)
  then show ?thesis using assms(1) by (auto simp: group_move_def g_client_to_def)
next
  case (Inl i)
  have i: "i < length (g_updaters s)" using assms(2) Inl by (auto simp: group_calls_def split: if_splits)
  obtain w k cs p where u: "g_updaters s ! i = U_Fire w k cs p" and p: "p = K_Try2 tm \<or> p = K_Try1 tm"
    using assms(2) Inl i by (cases "g_updaters s ! i") auto
  have "\<not> outside p" using p by (auto simp: outside_def)
  then show ?thesis
    using assms(1) Inl i u by (auto simp: group_move_def g_updater_to_def upd_step_among_call)
qed

section \<open>Properties\<close>

text \<open>
  C19. With any number of threads in \<open>Update\<close> and any number of clients, in every order of their
  steps, also when increments of \<open>_cur_timer_id\<close> are torn: the maps stay well formed, no two threads
  are inside the same map, and the iterator of each updating thread points to an entry, whatever
  the others and their callbacks do, so that no step uses an invalid iterator. If every increment
  is one step, which nothing in the code ensures, the maps also stay disjoint with every timer under its own id, and a
  timer that is being registered is in no map yet.
\<close>
theorem updaters_safe:
  assumes "group_run E ms (group_start n ts_l ts_g) = Inr s"
  shows "(\<forall>w. map_wf (timers w (g_engine s))) \<and> group_move E (In_Update i lucky) s \<noteq> Inl Bad_Iterator \<and>
    (\<forall>i < length (g_updaters s). \<forall>w. held (g_updaters s ! i) w \<longrightarrow> \<not> held_by_others (g_updaters s) i w) \<and>
    (\<forall>i < length (g_updaters s). \<forall>w k. entry_at (g_updaters s ! i) = Some (w, k) \<longrightarrow>
       map_find (timers w (g_engine s)) k \<noteq> None) \<and>
    (list_all g_atomic_count ms \<longrightarrow> tt_inv (g_engine s) \<and>
      (\<forall>c t w. g_client s c = K_Try2 t \<or> g_client s c = K_Try1 t \<longrightarrow> map_find (timers w (g_engine s)) (t_timer_id t) = None))"
proof -
  have ok: "places_ok s" using group_run_places_ok [OF assms] .
  have "upd_step_among E h lucky (g_updaters s ! i) (g_engine s) \<noteq> Inl Bad_Iterator" if "i < length (g_updaters s)" for h
    using ok that upd_step_fault [of "g_updaters s ! i" "g_engine s"] by (auto simp: places_ok_def upd_step_among_def)
  then have fault: "group_move E (In_Update i lucky) s \<noteq> Inl Bad_Iterator"
    by (auto simp: group_move_def g_updater_to_def res_bind_def split: sum.splits)
  have atomic: "tt_inv (g_engine s) \<and>
      (\<forall>c t w. g_client s c = K_Try2 t \<or> g_client s c = K_Try1 t \<longrightarrow> map_find (timers w (g_engine s)) (t_timer_id t) = None)"
    if "list_all g_atomic_count ms"
  proof -
    have calls: "calls_inv (g_engine s) (group_calls (g_updaters s) (g_client s))"
      using group_run_inv [OF assms that] by (simp add: group_inv_def)
    have "map_find (timers w (g_engine s)) (t_timer_id t) = None"
      if "g_client s c = K_Try2 t \<or> g_client s c = K_Try1 t" for c t w
      using calls_invD(3) [OF calls, of "Inr c" "t_timer_id t" w] that by (auto simp: pending_id_def)
    then show ?thesis using calls_invD(1) [OF calls] by blast
  qed
  show ?thesis using ok fault atomic by (simp add: places_ok_def maps_wf_def apart_def)
qed

text \<open>
  C23. If every increment of the counter is one step, a registration takes effect once and at one
  step, whether a client makes it or a callback of any of the updating threads: the step that
  ends it puts the timer into exactly one map, one that no other thread is inside, under an
  id that neither map has; every other entry of both maps stays as it was. (With a torn
  increment the id may be another timer's: \<open>counter_race_loses_a_timer\<close>.)
\<close>
theorem register_takes_effect_once:
  assumes "group_run E ms (group_start n ts_l ts_g) = Inr s" and "list_all g_atomic_count ms"
    and "group_calls (g_updaters s) (g_client s) c = K_Try2 tm \<or> group_calls (g_updaters s) (g_client s) c = K_Try1 tm"
    and "group_move E (case c of Inl i \<Rightarrow> In_Update i lucky | Inr d \<Rightarrow> G_Client d lucky) s = Inr t"
    and "group_calls (g_updaters t) (g_client t) c = K_Inserted j"
  shows "j = t_timer_id tm \<and> (\<forall>v. map_find (timers v (g_engine s)) j = None) \<and>
    (\<exists>w. \<not> (case c of Inl i \<Rightarrow> held_by_others (g_updaters s) i w | Inr _ \<Rightarrow> held_by_any (g_updaters s) w) \<and>
       map_find (timers w (g_engine t)) j = Some tm \<and>
       (\<forall>v k. (v, k) \<noteq> (w, j) \<longrightarrow> map_find (timers v (g_engine t)) k = map_find (timers v (g_engine s)) k))"
proof -
  let ?h = "case c of Inl i \<Rightarrow> held_by_others (g_updaters s) i | Inr _ \<Rightarrow> held_by_any (g_updaters s)"
  have calls: "calls_inv (g_engine s) (group_calls (g_updaters s) (g_client s))"
    using group_run_inv [OF assms(1,2)] by (simp add: group_inv_def)
  obtain p where step: "call_step E ?h lucky (group_calls (g_updaters s) (g_client s) c) (g_engine s) = Inr (p, g_engine t)"
    and p: "group_calls (g_updaters t) (g_client t) c = p"
    using group_call_step [OF assms(4)] assms(3) by blast
  obtain w other where ins: "try_insert w (lucky \<and> \<not> ?h w) tm other (g_engine s) = (p, g_engine t)"
    and o: "other = K_Try1 tm \<or> other = K_Try2 tm"
    using assms(3) step by (auto simp: call_step_def)
  have go: "\<not> ?h w" and j: "j = t_timer_id tm"
    and e: "g_engine t = set_timers w (map_insert (timers w (g_engine s)) (t_timer_id tm) tm) (g_engine s)"
    using assms(5) ins o p by (auto simp: try_insert_def split: if_splits)
  have none: "map_find (timers v (g_engine s)) j = None" for v
    using calls_invD(3) [OF calls, of c j v] assms(3) j by (auto simp: pending_id_def)
  have wf: "map_wf (timers w (g_engine s))" using calls_invD(1) [OF calls] by (rule tt_inv_wf)
  have "map_find (timers w (g_engine t)) j = Some tm" using wf none [of w] by (simp add: e j map_find_insert)
  moreover have "map_find (timers v (g_engine t)) k = map_find (timers v (g_engine s)) k" if "(v, k) \<noteq> (w, j)" for v k
    using that wf by (auto simp: e j map_find_insert)
  ultimately show ?thesis using j none go by (cases c) auto
qed

text \<open>
  C20. Two threads in \<open>Update\<close> may deadlock, with callbacks that do nothing but cancel a timer: the
  one inside the first map waits for the mutex of the second, where \<open>UnRegister\<close> looks first, and
  the one inside the second has not found the timer there and waits for the mutex of the first.
  Whatever any thread does then, neither moves again, no timer is fired, and no
  registration or cancellation by a client ever takes effect; all that can still fault is the
  counter of ids when it overflows.
\<close>
theorem updaters_may_deadlock:
  "\<exists>ms s. group_run cancelling_env ms (group_start 2 43200 43200) = Inr s \<and> list_all g_atomic_count ms \<and>
    held (g_updaters s ! 0) Timers1 \<and> held (g_updaters s ! 1) Timers2 \<and>
    (\<forall>ns. case group_run cancelling_env ns s of
       Inl fault \<Rightarrow> fault = Signed_Overflow
     | Inr t \<Rightarrow> g_updaters t = g_updaters s \<and> timers1 (g_engine t) = timers1 (g_engine s) \<and>
         timers2 (g_engine t) = timers2 (g_engine s) \<and> fired (g_engine t) = fired (g_engine s))"
  using deadlock_turns_run deadlocked_run [OF deadlock_turns_run(3)] deadlocked_fault [OF deadlock_turns_run(3)]
  by (intro exI [of _ deadlock_turns] exI [of _ deadlock_state]) (auto simp: frozen_def split: sum.split)

text \<open>
  C21. Without a cancellation in a callback, or with one updating thread, there is no deadlock: in
  every reachable state with a thread inside \<open>Update\<close>, one of those inside is not blocked, and its
  next step, whatever its \<open>try_lock\<close> says, takes it to another place.
\<close>
theorem updates_make_progress:
  assumes "group_run E ms (group_start n ts_l ts_g) = Inr s" and "list_all g_atomic_count ms"
    and "n \<le> 1 \<or> never_cancels E" and "j < n" and "g_updaters s ! j \<noteq> U_Out"
  shows "\<exists>i < n. g_updaters s ! i \<noteq> U_Out \<and> \<not> blocked (held_by_others (g_updaters s) i) (g_updaters s ! i) \<and>
    (\<forall>lucky t. group_move E (In_Update i lucky) s = Inr t \<longrightarrow> g_updaters t ! i \<noteq> g_updaters s ! i)"
proof -
  have n: "length (g_updaters s) = n" using group_run_length [OF assms(1)] by (simp add: group_start_def)
  have inv: "group_inv s" using group_run_inv [OF assms(1,2)] .
  obtain i where i: "i < n" "g_updaters s ! i \<noteq> U_Out" "\<not> blocked (held_by_others (g_updaters s) i) (g_updaters s ! i)"
  proof (cases "never_cancels E")
    case True
    have "\<forall>u \<in> set (g_updaters s). cancels_nothing u"
      by (rule group_run_places [OF upd_step_place(2) [OF _ True] assms(1)]) (simp_all add: group_start_def cancels_nothing_def)
    then show ?thesis using some_thread_not_blocked [OF inv, of j] assms(4,5) n that by blast
  next
    case False
    then have "held_by_others (g_updaters s) 0 = (\<lambda>_. False)" "j = 0" using assms(3,4) n by (auto simp: held_by_others_iff fun_eq_iff)
    then show ?thesis using that [of j] assms(4,5) by (simp add: not_blocked_free)
  qed
  have "g_updaters t ! i \<noteq> g_updaters s ! i" if "group_move E (In_Update i lucky) s = Inr t" for lucky t
    using that i n
    by (auto simp: group_move_def g_updater_to_def upd_step_among_def blocked_def dest: upd_step_place(1))
  then show ?thesis using i by blast
qed

text \<open>
  C22. Any number of updates under way can finish, in any state the threads can reach: with callbacks
  that do not call the engine, and none of them empty, there is an order in which the threads
  inside \<open>Update\<close> all return, without a fault and in no more steps than two for each entry that
  each has left to visit and a few more.
\<close>
theorem updates_finish:
  assumes "group_run E ms (group_start n ts_l ts_g) = Inr s" and "list_all g_atomic_count ms"
    and "silent E" and "clock_freq E \<noteq> 0" and "callable (g_engine s)"
  shows "\<exists>is t. group_run E (map (\<lambda>i. In_Update i True) is) s = Inr t \<and> length is \<le> group_left s \<and>
    (\<forall>i < n. g_updaters t ! i = U_Out)"
proof -
  have n: "length (g_updaters s) = n" using group_run_length [OF assms(1)] by (simp add: group_start_def)
  have inv: "group_inv s" using group_run_inv [OF assms(1,2)] .
  have "\<forall>u \<in> set (g_updaters s). silent_at u"
    by (rule group_run_places [OF upd_step_silent [OF assms(3)] assms(1)]) (simp_all add: group_start_def silent_at_def)
  then obtain ks t where t: "group_run E (map (\<lambda>i. In_Update i True) ks) s = Inr t" "length ks \<le> group_left s"
    "\<forall>u \<in> set (g_updaters t). u = U_Out"
    using group_finishes [OF inv _ assms(5,4,3)] by blast
  moreover have "length (g_updaters t) = n" using group_run_length [OF t(1)] n by simp
  ultimately show ?thesis by (intro exI [of _ ks] exI [of _ t]) simp
qed

section \<open>Witnesses\<close>

text \<open>The turns that lead to the deadlock, with callbacks that do nothing: two callbacks at once.\<close>

definition two_callbacks :: "nat engine_group" where
  "two_callbacks = (case group_run still_env (butlast deadlock_turns) (group_start 2 43200 43200) of Inr s \<Rightarrow> s)"

lemma two_callbacks_run:
  "group_run still_env (butlast deadlock_turns) (group_start 2 43200 43200) = Inr two_callbacks"
  "list_all g_atomic_count (butlast deadlock_turns)"
  "g_updaters two_callbacks = [U_Fire Timers1 2 [] K_Out, U_Fire Timers2 1 [] K_Out]"
  "group_left two_callbacks = 8" "callable (g_engine two_callbacks)"
proof -
  let ?r = "group_run still_env (butlast deadlock_turns) (group_start 2 43200 43200)"
  have r: "case ?r of Inl _ \<Rightarrow> False | Inr s \<Rightarrow>
      g_updaters s = [U_Fire Timers1 2 [] K_Out, U_Fire Timers2 1 [] K_Out] \<and>
      timers1 (g_engine s) = [(2, fresh_timer 2 False 0 (Some 20) 0)] \<and>
      timers2 (g_engine s) = [(1, fresh_timer 1 True 0 (Some 10) 0)]"
    by code_simp
  then show "?r = Inr two_callbacks"
    and us: "g_updaters two_callbacks = [U_Fire Timers1 2 [] K_Out, U_Fire Timers2 1 [] K_Out]"
    by (auto simp: two_callbacks_def split: sum.splits)
  have e: "timers1 (g_engine two_callbacks) = [(2, fresh_timer 2 False 0 (Some 20) 0)]"
    "timers2 (g_engine two_callbacks) = [(1, fresh_timer 1 True 0 (Some 10) 0)]"
    using r by (auto simp: two_callbacks_def split: sum.splits)
  show "list_all g_atomic_count (butlast deadlock_turns)" by (simp add: deadlock_turns_def)
  show "callable (g_engine two_callbacks)"
    by (auto simp: callable_def timers_def e fresh_timer_def split: which_map.splits if_splits)
  have 1: "{j. (2::int) \<le> j \<and> j = 2} = {2}" "{j. (1::int) \<le> j \<and> j = 1} = {1}" by auto
  show "group_left two_callbacks = 8"
    by (simp add: group_left_def us left_to_do_def e entries_from_def entries_def 1)
qed

theorem updaters_safe_witness:
  "group_move cancelling_env (In_Update 1 True) deadlock_state \<noteq> Inl Bad_Iterator \<and>
   \<not> held_by_others (g_updaters deadlock_state) 0 Timers1 \<and>
   map_find (timers Timers1 (g_engine deadlock_state)) 2 \<noteq> None \<and> tt_inv (g_engine deadlock_state)"
  using updaters_safe [OF deadlock_turns_run(1)] deadlock_turns_run(2,4) by fastforce

text \<open>Two threads are in callbacks; that of the first registers a timer, and its own map is the first.\<close>

definition registering_env :: "nat timer_env" where
  "registering_env = still_env\<lparr>behaviour := (\<lambda>f _. if f = 20 then [Api_Register True 7 (Some 30)] else [])\<rparr>"

definition registering_turns :: "nat group_move list" where
  "registering_turns = butlast deadlock_turns @ [In_Update 0 True, In_Update 0 True, In_Update 0 True]"

definition registering_state :: "nat engine_group" where
  "registering_state = (case group_run registering_env registering_turns (group_start 2 43200 43200) of Inr s \<Rightarrow> s)"

theorem register_takes_effect_once_witness:
  "\<exists>t w. group_move registering_env (In_Update 0 True) registering_state = Inr t \<and>
     \<not> held_by_others (g_updaters registering_state) 0 w \<and> held (g_updaters registering_state ! 0) w \<and>
     map_find (timers w (g_engine t)) 3 = Some (fresh_timer 3 True 7000000 (Some 30) 0)"
proof -
  let ?r = "group_run registering_env registering_turns (group_start 2 43200 43200)"
  let ?tm = "fresh_timer 3 True 7000000 (Some 30) 0 :: nat etimer"
  let ?us = "[U_Fire Timers1 2 [] (K_Try1 ?tm), U_Fire Timers2 1 [] K_Out]"
  have "case ?r of Inl _ \<Rightarrow> False | Inr s \<Rightarrow> g_updaters s = ?us \<and> timers1 (g_engine s) = [(2, fresh_timer 2 False 0 (Some 20) 0)]"
    by code_simp
  then have r: "?r = Inr registering_state" and us: "g_updaters registering_state = ?us"
    by (auto simp: registering_state_def split: sum.splits)
  have a: "list_all g_atomic_count registering_turns" by (simp add: registering_turns_def deadlock_turns_def)
  have free: "\<not> held_by_others ?us 0 Timers1" by (auto simp: held_by_others_iff less_Suc_eq)
  obtain t where t: "group_move registering_env (In_Update 0 True) registering_state = Inr t"
    "g_updaters t ! 0 = U_Fire Timers1 2 [] (K_Inserted 3)" "length (g_updaters t) = 2"
    using free by (auto simp: group_move_def us g_updater_to_def upd_step_among_call outside_def call_step_def
      try_insert_def fresh_timer_def)
  obtain w where w: "\<not> held_by_others (g_updaters registering_state) 0 w" "map_find (timers w (g_engine t)) 3 = Some ?tm"
    using register_takes_effect_once [OF r a, of "Inl 0" ?tm True t 3] t us by (auto simp: group_calls_def)
  moreover have "w = Timers1" using w(1) us by (cases w) (auto simp: held_by_others_iff)
  ultimately show ?thesis using t(1) us by auto
qed

theorem updates_make_progress_witness:
  "\<exists>i < 2. g_updaters two_callbacks ! i \<noteq> U_Out \<and>
     \<not> blocked (held_by_others (g_updaters two_callbacks) i) (g_updaters two_callbacks ! i)"
proof -
  have "never_cancels still_env" by (simp add: never_cancels_def still_env_def)
  then show ?thesis
    using updates_make_progress [OF two_callbacks_run(1,2) disjI2, of 0] two_callbacks_run(3) by auto
qed

theorem updates_finish_witness:
  "\<exists>is t. group_run still_env (map (\<lambda>i. In_Update i True) is) two_callbacks = Inr t \<and> length is \<le> 8 \<and>
     g_updaters t ! 0 = U_Out \<and> g_updaters t ! 1 = U_Out"
proof -
  have E: "silent still_env" "clock_freq still_env \<noteq> 0"
    by (simp_all add: silent_def still_env_def)
  show ?thesis using updates_finish [OF two_callbacks_run(1,2) E two_callbacks_run(5)] two_callbacks_run(4) by fastforce
qed

end
