(* ===== verification/Task_Timer.thy ===== *)
theory Task_Timer
  imports Qing_Prelude "HOL-Library.Multiset"
begin

text \<open>
  \<open>include/qing/util/timer.hpp\<close> and \<open>src/util/timer.cpp\<close>: \<open>Timer::createTask\<close>, which sleeps and
  then calls a task, on the calling thread or on a detached one, and \<open>QTimer::GetLocalTime\<close>.
  Time is in milliseconds. \<open>sleep_for\<close> sleeps at least as long as it is asked to; how much
  longer is a parameter of the call. The state holds the time, the sleeping detached threads
  (when each may wake, and its task) and the calls made (when due, when made, the task).
\<close>

section \<open>createTask\<close>

record 'f tasks =
  now :: nat
  sleeping :: "(nat \<times> 'f) list"
  ran :: "(nat \<times> nat \<times> 'f) list"

definition createTask :: "u32 \<Rightarrow> bool \<Rightarrow> 'f \<Rightarrow> nat \<Rightarrow> 'f tasks \<Rightarrow> 'f tasks" where
  "createTask after async task late s =
     (let due = now s + unat after in
      if async then s\<lparr>sleeping := sleeping s @ [(due, task)]\<rparr>
      else s\<lparr>now := due + late, ran := ran s @ [(due, due + late, task)]\<rparr>)"

text \<open>The \<open>i\<close>-th sleeping thread wakes, calls its task and ends; it cannot before its time.\<close>

definition wake :: "nat \<Rightarrow> 'f tasks \<Rightarrow> 'f tasks" where
  "wake i s =
     (if i < length (sleeping s) \<and> fst (sleeping s ! i) \<le> now s
      then s\<lparr>sleeping := take i (sleeping s) @ drop (Suc i) (sleeping s),
              ran := ran s @ [(fst (sleeping s ! i), now s, snd (sleeping s ! i))]\<rparr>
      else s)"

datatype 'f task_event = Create u32 bool 'f nat | Wake nat | Pass nat

definition task_step :: "'f tasks \<Rightarrow> 'f task_event \<Rightarrow> 'f tasks" where
  "task_step s e =
     (case e of
        Create after async task late \<Rightarrow> createTask after async task late s
      | Wake i \<Rightarrow> wake i s
      | Pass d \<Rightarrow> s\<lparr>now := now s + d\<rparr>)"

definition run_tasks :: "'f task_event list \<Rightarrow> 'f tasks" where
  "run_tasks es = foldl task_step \<lparr>now = 0, sleeping = [], ran = []\<rparr> es"

fun created :: "'f task_event \<Rightarrow> 'f list" where
  "created (Create _ _ task _) = [task]"
| "created _ = []"

section \<open>GetLocalTime\<close>

text \<open>
  The value is \<open>None\<close> where the process exits. \<open>local_time\<close> is the C library's conversion of the
  current time, \<open>None\<close> where it fails; \<open>tm\<close> is the structure handed in, which a build for
  neither system leaves as it was.
\<close>

datatype time_system = Windows_Time | Linux_Time | Other_Time

definition GetLocalTime :: "time_system \<Rightarrow> 'tm option \<Rightarrow> 'tm \<Rightarrow> 'tm option" where
  "GetLocalTime sys local_time tm =
     (case sys of
        Windows_Time \<Rightarrow> local_time
      | Linux_Time \<Rightarrow> Some (case local_time of None \<Rightarrow> tm | Some v \<Rightarrow> v)
      | Other_Time \<Rightarrow> Some tm)"

section \<open>Properties\<close>

lemma mset_remove_nth:
  "i < length xs \<Longrightarrow> mset (take i xs @ drop (Suc i) xs) + {#xs ! i#} = mset xs"
  by (metis add_mset_add_single id_take_nth_drop mset.simps(2) mset_append union_mset_add_mset_right)

lemma task_step_tasks:
  "mset (map (snd \<circ> snd) (ran (task_step s e))) + mset (map snd (sleeping (task_step s e))) =
   mset (map (snd \<circ> snd) (ran s)) + mset (map snd (sleeping s)) + mset (created e)"
proof (cases e)
  case (Wake i)
  show ?thesis
  proof (cases "i < length (sleeping s)")
    case True
    then have "mset (take i (map snd (sleeping s)) @ drop (Suc i) (map snd (sleeping s))) + {#snd (sleeping s ! i)#} =
        mset (map snd (sleeping s))"
      using mset_remove_nth [of i "map snd (sleeping s)"] by simp
    then show ?thesis using Wake by (simp add: task_step_def wake_def take_map drop_map)
  qed (use Wake in \<open>simp add: task_step_def wake_def\<close>)
qed (simp_all add: task_step_def createTask_def Let_def)

definition on_time :: "'f tasks \<Rightarrow> bool" where
  "on_time s \<longleftrightarrow> list_all (\<lambda>(due, at, _). due \<le> at \<and> at \<le> now s) (ran s)"

lemma task_step_on_time: "on_time s \<Longrightarrow> on_time (task_step s e)"
  by (cases e) (auto simp: on_time_def task_step_def createTask_def wake_def Let_def list_all_iff)

lemma run_tasks_snoc: "run_tasks (es @ [e]) = task_step (run_tasks es) e"
  by (simp add: run_tasks_def)

lemma run_tasks_mset:
  "mset (map (snd \<circ> snd) (ran (run_tasks es))) + mset (map snd (sleeping (run_tasks es))) = mset (concat (map created es))"
proof (induction es rule: rev_induct)
  case (snoc e es)
  then show ?case
    using task_step_tasks [of "run_tasks es" e] unfolding run_tasks_snoc by (simp only: map_append concat_append mset_append) simp
qed (simp add: run_tasks_def)

lemma run_tasks_on_time: "on_time (run_tasks es)"
  by (induction es rule: rev_induct) (simp_all add: run_tasks_snoc task_step_on_time, simp add: run_tasks_def on_time_def)

text \<open>
  Over any sequence of calls, of waking threads and of time passing: every task created has
  been called exactly once or is asleep, none is called twice or made up, and none is called
  before its time.
\<close>
theorem tasks_run_once_in_time:
  "mset (map (snd \<circ> snd) (ran (run_tasks es))) + mset (map snd (sleeping (run_tasks es))) =
     mset (concat (map created es)) \<and>
   list_all (\<lambda>(due, at, _). due \<le> at \<and> at \<le> now (run_tasks es)) (ran (run_tasks es))"
  using run_tasks_mset run_tasks_on_time [unfolded on_time_def] by (rule conjI)

text \<open>
  A call that is not asynchronous returns after its task has been called, at least \<open>after\<close>
  milliseconds later; an asynchronous one returns at once and the task can be called from
  \<open>after\<close> milliseconds later on, however many others are asleep.
\<close>
theorem createTask_spec:
  "(let s' = createTask after False task late s in
      now s' = now s + unat after + late \<and> sleeping s' = sleeping s \<and>
      ran s' = ran s @ [(now s + unat after, now s', task)]) \<and>
   (let s' = createTask after True task late s;
        w = wake (length (sleeping s)) (s'\<lparr>now := now s + d\<rparr>) in
      now s' = now s \<and> ran s' = ran s \<and>
      (if d < unat after then w = s'\<lparr>now := now s + d\<rparr>
       else sleeping w = sleeping s \<and> ran w = ran s @ [(now s + unat after, now s + d, task)]))"
  by (simp add: createTask_def wake_def Let_def)

end
