(* ===== verification/Base64.thy ===== *)
theory Base64
  imports Qing_Prelude
begin

text \<open>
  \<open>src/util/base64.cpp\<close>: \<open>encode64\<close> and \<open>decode64\<close>, index by index as the loops run. A
  \<open>char\<close> is a byte; \<open>char\<close> is signed on the platforms of the project, so an operand of a shift
  or a mask is first extended with its sign to a 32-bit \<open>int\<close> (\<open>scast\<close>), \<open>>>\<close> is the
  arithmetic shift, and \<open>static_cast<char>\<close> keeps the low byte (\<open>ucast\<close>). Reading a
  \<open>std::string\<close> at its length gives the terminating NUL; reading further is a fault.
\<close>

section \<open>The code\<close>

definition alphabet64 :: "u8 list" where
  "alphabet64 = map of_char ''ABCDEFGHIJKLMNOPQRSTUVWXYZabcdefghijklmnopqrstuvwxyz0123456789+/''"

definition pad :: u8 where "pad = 61"

definition np :: u8 where "np = 255"

definition table64vals :: "u8 list" where
  "table64vals =
    [62, np, np, np, 63, 52, 53, 54, 55, 56, 57, 58, 59, 60, 61, np, np, np, np, np,
     np, np,  0,  1,  2,  3,  4,  5,  6,  7,  8,  9, 10, 11, 12, 13, 14, 15, 16, 17,
     18, 19, 20, 21, 22, 23, 24, 25, np, np, np, np, np, np, 26, 27, 28, 29, 30, 31,
     32, 33, 34, 35, 36, 37, 38, 39, 40, 41, 42, 43, 44, 45, 46, 47, 48, 49, 50, 51]"

definition table64 :: "u8 \<Rightarrow> u8" where
  "table64 c = (if c < 43 \<or> c > 122 then np else table64vals ! unat (c - 43))"

text \<open>\<open>operator[]\<close> of a const \<open>std::string\<close>.\<close>

definition str_at :: "u8 list \<Rightarrow> nat \<Rightarrow> u8 res" where
  "str_at s i = (if i < length s then Inr (s ! i) else if i = length s then Inr 0
     else Inl Out_Of_Bounds)"

text \<open>Integer promotion, shifts and the conversion back.\<close>

definition to_int :: "u8 \<Rightarrow> u32" where "to_int c = scast c"

definition to_char :: "u32 \<Rightarrow> u8" where "to_char w = ucast w"

definition shr :: "nat \<Rightarrow> u8 \<Rightarrow> u32" where "shr n c = signed_drop_bit n (to_int c)"

definition shl :: "nat \<Rightarrow> u8 \<Rightarrow> u32" where "shl n c = push_bit n (to_int c)"

text \<open>
  One round of the loop of \<open>encode64\<close>, with the increments of \<open>i\<close> in the places the code has
  them; the result is what the round appends and the value of \<open>i\<close> at its end.
\<close>

definition encode_round :: "u8 list \<Rightarrow> nat \<Rightarrow> (u8 list \<times> nat) res" where
  "encode_round input i =
     (let len = length input in
      res_bind (str_at input i) (\<lambda>a.
      res_bind (str_at alphabet64 (unat (to_char (shr 2 a AND 0x3f)))) (\<lambda>e1.
      let c = to_char (shl 4 a AND 0x3f); i = i + 1 in
      res_bind (if i < len
                then res_bind (str_at input i) (\<lambda>b.
                       Inr (to_char (to_int c OR to_int (to_char (shr 4 b AND 0x0f)))))
                else Inr c) (\<lambda>c.
      res_bind (str_at alphabet64 (unat c)) (\<lambda>e2.
      res_bind (if i < len
                then res_bind (str_at input i) (\<lambda>b.
                     let c = to_char (shl 2 b AND 0x3c); i = i + 1 in
                     res_bind (if i < len
                               then res_bind (str_at input i) (\<lambda>d.
                                      Inr (to_char (to_int c OR to_int (to_char (shr 6 d AND 0x03)))))
                               else Inr c) (\<lambda>c.
                     res_bind (str_at alphabet64 (unat c)) (\<lambda>e3. Inr (e3, i))))
                else Inr (pad, i + 1)) (\<lambda>(e3, i).
      res_bind (if i < len
                then res_bind (str_at input i) (\<lambda>d.
                     str_at alphabet64 (unat (to_char (to_int d AND 0x3f))))
                else Inr pad) (\<lambda>e4.
      Inr ([e1, e2, e3, e4], i))))))))"

lemma encode_round_next: "encode_round input i = Inr (out, j) \<Longrightarrow> i < j"
  by (auto simp: encode_round_def Let_def split: if_splits)

function encode_loop :: "u8 list \<Rightarrow> nat \<Rightarrow> u8 list \<Rightarrow> u8 list res" where
  "encode_loop input i encoded =
     (if i < length input
      then res_bind (encode_round input i) (\<lambda>(out, j). encode_loop input (j + 1) (encoded @ out))
      else Inr encoded)"
  by pat_completeness auto
termination
  by (relation "measure (\<lambda>(input, i, _). length input - i)") (auto dest: encode_round_next)

definition encode64 :: "u8 list \<Rightarrow> u8 list res" where
  "encode64 input = encode_loop input 0 []"

text \<open>One round of \<open>decode64\<close>; \<open>None\<close> in place of the index is a \<open>break\<close>.\<close>

definition decode_round :: "u8 list \<Rightarrow> nat \<Rightarrow> (u8 list \<times> nat option) res" where
  "decode_round input i =
     (let len = length input in
      res_bind (str_at input i) (\<lambda>x.
      let c = table64 x; i = i + 1 in
      res_bind (str_at input i) (\<lambda>y.
      let d = table64 y;
          o1 = to_char (shl 2 c OR (shr 4 d AND 0x3)); i = i + 1 in
      res_bind (if i < len
                then res_bind (str_at input i) (\<lambda>z.
                     if z = pad then Inr ([o1], None)
                     else let c = table64 z;
                              o2 = to_char ((shl 4 d AND 0xf0) OR (shr 2 c AND 0xf))
                          in Inr ([o1, o2], Some c))
                else Inr ([o1], Some o1)) (\<lambda>(out, carry).
      case carry of
        None \<Rightarrow> Inr (out, None)
      | Some c \<Rightarrow>
          let i = i + 1 in
          if i < len
          then res_bind (str_at input i) (\<lambda>w.
               if w = pad then Inr (out, None)
               else let d = table64 w; o3 = to_char ((shl 6 c AND 0xc0) OR to_int d)
                    in Inr (out @ [o3], Some i))
          else Inr (out, Some i)))))"

lemma decode_round_next: "decode_round input i = Inr (out, Some j) \<Longrightarrow> i < j"
  by (auto simp: decode_round_def Let_def split: if_splits option.splits)

function decode_loop :: "u8 list \<Rightarrow> nat \<Rightarrow> u8 list \<Rightarrow> u8 list res" where
  "decode_loop input i decoded =
     (if i < length input
      then res_bind (decode_round input i) (\<lambda>(out, next).
             case next of
               None \<Rightarrow> Inr (decoded @ out)
             | Some j \<Rightarrow> decode_loop input (j + 1) (decoded @ out))
      else Inr decoded)"
  by pat_completeness auto
termination
  by (relation "measure (\<lambda>(input, i, _). length input - i)") (auto dest: decode_round_next)

definition decode64 :: "u8 list \<Rightarrow> u8 list res" where
  "decode64 input = decode_loop input 0 []"

declare encode_loop.simps [simp del] decode_loop.simps [simp del]

section \<open>The reference of RFC 3548\<close>

text \<open>
  Three bytes make a group of 24 bits, read as four sextets; a short last group is filled
  with zero bits and its missing sextets are written as pads.
\<close>

definition group24 :: "u8 \<Rightarrow> u8 \<Rightarrow> u8 \<Rightarrow> u32" where
  "group24 a b c = push_bit 16 (ucast a) OR push_bit 8 (ucast b) OR ucast c"

definition sextet :: "nat \<Rightarrow> u32 \<Rightarrow> u8" where
  "sextet k g = ucast (drop_bit (6 * k) g AND 63)"

definition letter :: "u8 \<Rightarrow> u8" where "letter v = alphabet64 ! unat v"

fun rfc_encode :: "u8 list \<Rightarrow> u8 list" where
  "rfc_encode [] = []"
| "rfc_encode [a] =
     (let g = group24 a 0 0 in [letter (sextet 3 g), letter (sextet 2 g), pad, pad])"
| "rfc_encode [a, b] =
     (let g = group24 a b 0 in
      [letter (sextet 3 g), letter (sextet 2 g), letter (sextet 1 g), pad])"
| "rfc_encode (a # b # c # r) =
     (let g = group24 a b c in
      [letter (sextet 3 g), letter (sextet 2 g), letter (sextet 1 g), letter (sextet 0 g)]
      @ rfc_encode r)"

section \<open>Bits\<close>

lemma u8_eqI:
  fixes x y :: u8
  assumes "bit x 0 = bit y 0" "bit x 1 = bit y 1" "bit x 2 = bit y 2" "bit x 3 = bit y 3"
    "bit x 4 = bit y 4" "bit x 5 = bit y 5" "bit x 6 = bit y 6" "bit x 7 = bit y 7"
  shows "x = y"
proof (rule bit_word_eqI)
  fix n assume "n < LENGTH(8)"
  then have "n = 0 \<or> n = 1 \<or> n = 2 \<or> n = 3 \<or> n = 4 \<or> n = 5 \<or> n = 6 \<or> n = 7" by auto
  then show "bit x n = bit y n" using assms by blast
qed

lemma bit_u8_high: "8 \<le> n \<Longrightarrow> \<not> bit (c :: u8) n"
  using bit_imp_le_length [of c n] by auto

lemma bit_to_char: "bit (to_char w) n \<longleftrightarrow> n < 8 \<and> bit w n"
  by (auto simp: to_char_def bit_simps)
lemma bit_to_int: "bit (to_int c) n \<longleftrightarrow> n < 32 \<and> bit c (min n 7)"
  by (auto simp: to_int_def bit_simps min_def)
lemma bit_shr: "k < 24 \<Longrightarrow> bit (shr k c) n \<longleftrightarrow> n < 32 \<and> bit c (min (n + k) 7)"
  by (auto simp: shr_def to_int_def bit_simps min_def add.commute elim: back_subst [of "bit c"])
lemma bit_shl: "bit (shl k c) n \<longleftrightarrow> n < 32 \<and> k \<le> n \<and> bit c (min (n - k) 7)"
  by (auto simp: shl_def to_int_def bit_simps min_def)
lemma bit_group24: "bit (group24 a b c) n \<longleftrightarrow> (if n < 8 then bit c n else if n < 16 then bit b (n - 8) else n < 24 \<and> bit a (n - 16))"
  using bit_u8_high [of n c] bit_u8_high [of "n - 8" b] bit_u8_high [of "n - 16" a]
  by (auto simp: group24_def bit_simps dest: bit_imp_le_length)
lemma mask63: "(63::'a::len word) = mask 6" by (simp add: mask_eq_exp_minus_1)
lemma mask60: "(60::'a::len word) = push_bit 2 (mask 4)" by (simp add: mask_eq_exp_minus_1 push_bit_eq_mult)
lemma mask15: "(15::'a::len word) = mask 4" by (simp add: mask_eq_exp_minus_1)
lemma mask3: "(3::'a::len word) = mask 2" by (simp add: mask_eq_exp_minus_1)
lemma mask240: "(240::'a::len word) = push_bit 4 (mask 4)" by (simp add: mask_eq_exp_minus_1 push_bit_eq_mult)
lemma mask192: "(192::'a::len word) = push_bit 6 (mask 2)" by (simp add: mask_eq_exp_minus_1 push_bit_eq_mult)
lemma bit_sextet: "bit (sextet k g) n \<longleftrightarrow> n < 6 \<and> bit g (6 * k + n)"
  by (auto simp: sextet_def bit_simps mask63)

lemma Suc_numeral_bits: "Suc (Suc 0) = 2" "Suc 2 = 3" by simp_all

lemmas b64_bits = bit_to_char bit_to_int bit_shr bit_shl bit_group24 bit_sextet mask63 mask60 mask15 mask3 mask240 mask192
  Suc_numeral_bits bit_and_iff bit_or_iff bit_mask_iff bit_push_bit_iff
lemma enc_sextet3: "to_char (shr 2 a AND 63) = sextet 3 (group24 a b c)"
  by (rule u8_eqI) (simp_all add: b64_bits)
lemma enc_sextet2: "to_char (to_int (to_char (shl 4 a AND 63)) OR to_int (to_char (shr 4 b AND 15))) = sextet 2 (group24 a b c)"
  by (rule u8_eqI) (simp_all add: b64_bits)
lemma enc_sextet2_last: "to_char (shl 4 a AND 63) = sextet 2 (group24 a 0 c)"
  by (rule u8_eqI) (simp_all add: b64_bits)
lemma enc_sextet1: "to_char (to_int (to_char (shl 2 b AND 60)) OR to_int (to_char (shr 6 c AND 3))) = sextet 1 (group24 a b c)"
  by (rule u8_eqI) (simp_all add: b64_bits)
lemma enc_sextet1_last: "to_char (shl 2 b AND 60) = sextet 1 (group24 a b 0)"
  by (rule u8_eqI) (simp_all add: b64_bits)
lemma enc_sextet0: "to_char (to_int c AND 63) = sextet 0 (group24 a b c)"
  by (rule u8_eqI) (simp_all add: b64_bits)
lemma dec_byte1: "to_char (shl 2 (sextet 3 (group24 a b c)) OR (shr 4 (sextet 2 (group24 a b c)) AND 3)) = a"
  by (rule u8_eqI) (simp_all add: b64_bits)
lemma dec_byte2: "to_char ((shl 4 (sextet 2 (group24 a b c)) AND 240) OR (shr 2 (sextet 1 (group24 a b c)) AND 15)) = b"
  by (rule u8_eqI) (simp_all add: b64_bits)
lemma dec_byte3: "to_char ((shl 6 (sextet 1 (group24 a b c)) AND 192) OR to_int (sextet 0 (group24 a b c))) = c"
  by (rule u8_eqI) (simp_all add: b64_bits)


lemma sextet_less: "unat (sextet k g) < 64"
proof -
  have "sextet k g = take_bit 6 (sextet k g)"
    by (rule u8_eqI) (simp_all add: bit_sextet bit_take_bit_iff)
  then have "unat (sextet k g) = take_bit 6 (unat (sextet k g))"
    by (metis unsigned_take_bit_eq)
  moreover have "take_bit 6 (unat (sextet k g)) < 2 ^ 6"
    by (rule take_bit_nat_less_exp)
  ultimately show ?thesis by simp
qed

lemmas encode_bits = enc_sextet3 enc_sextet2 enc_sextet2_last enc_sextet1 enc_sextet1_last enc_sextet0
lemmas decode_bits = dec_byte1 dec_byte2 dec_byte3

section \<open>The alphabet and its inverse\<close>

lemma length_alphabet64 [simp]: "length alphabet64 = 64" by (simp add: alphabet64_def)

lemma str_at_alphabet64 [simp]:
  "unat v < 64 \<Longrightarrow> str_at alphabet64 (unat v) = Inr (letter v)"
  by (simp add: str_at_def letter_def)

lemma alphabet64_eval:
  "alphabet64 =
    [65, 66, 67, 68, 69, 70, 71, 72, 73, 74, 75, 76, 77, 78, 79, 80, 81, 82, 83, 84, 85, 86,
     87, 88, 89, 90, 97, 98, 99, 100, 101, 102, 103, 104, 105, 106, 107, 108, 109, 110, 111,
     112, 113, 114, 115, 116, 117, 118, 119, 120, 121, 122, 48, 49, 50, 51, 52, 53, 54, 55,
     56, 57, 43, 47]"
  by (simp add: alphabet64_def)

lemma table64_alphabet64: "map table64 alphabet64 = map of_nat [0..<64]"
  by (simp add: alphabet64_eval table64_def table64vals_def word_less_nat_alt upt_rec)

lemma pad_not_alphabet64: "pad \<notin> set alphabet64"
  by (simp add: alphabet64_eval pad_def)

lemma table64_letter [simp]: "unat v < 64 \<Longrightarrow> table64 (letter v) = v"
proof -
  assume less: "unat v < 64"
  have "table64 (letter v) = map table64 alphabet64 ! unat v"
    using less by (simp add: letter_def)
  also have "\<dots> = v" using less by (simp add: table64_alphabet64)
  finally show ?thesis .
qed

lemma letter_in_alphabet64: "unat v < 64 \<Longrightarrow> letter v \<in> set alphabet64"
  by (simp add: letter_def)

lemma letter_not_pad [simp]: "unat v < 64 \<Longrightarrow> letter v \<noteq> pad"
  using letter_in_alphabet64 pad_not_alphabet64 by metis

lemma letter_table64 [simp]:
  assumes "c \<in> set alphabet64"
  shows "letter (table64 c) = c" and "unat (table64 c) < 64"
proof -
  obtain k where k: "k < 64" "c = alphabet64 ! k"
    using assms by (auto simp: in_set_conv_nth)
  have "unat (of_nat k :: u8) = k" using k(1) by (simp add: unat_of_nat_small)
  then have "c = letter (of_nat k)" "unat (of_nat k :: u8) < 64"
    using k by (simp_all add: letter_def)
  then show "letter (table64 c) = c" "unat (table64 c) < 64" by simp_all
qed

lemma table64vals_alphabet64:
  "list_all2 (\<lambda>v c. v = np \<or> unat v < 64 \<and> alphabet64 ! unat v = c) table64vals
     (map of_nat [43..<123])"
  by (simp add: table64vals_def np_def alphabet64_eval upt_rec)

lemma table64_np:
  assumes "c \<notin> set alphabet64"
  shows "table64 c = np"
proof (cases "c < 43 \<or> c > 122")
  case False
  define k where "k = unat (c - 43)"
  have c: "43 \<le> unat c" "unat c \<le> 122"
    using False by (simp_all add: word_less_nat_alt not_less)
  then have k: "k = unat c - 43" using False by (simp add: k_def unat_sub_no_wrap not_less)
  have lt: "k < 123 - 43" using c k by simp
  have "of_nat (43 + k) = c" using c k by simp
  with lt have "(map of_nat [43..<123] :: u8 list) ! k = c"
    by (simp only: nth_map length_upt nth_upt)
  moreover have "k < length (map of_nat [43..<123] :: u8 list)"
    using lt by (simp only: length_map length_upt)
  ultimately have "table64vals ! k = np \<or> unat (table64vals ! k) < 64 \<and> alphabet64 ! unat (table64vals ! k) = c"
    using list_all2_nthD2 [OF table64vals_alphabet64, of k] by metis
  moreover have "alphabet64 ! unat (table64vals ! k) \<noteq> c" if "unat (table64vals ! k) < 64"
    using assms that by (metis length_alphabet64 nth_mem)
  ultimately have "table64vals ! k = np" by blast
  then show ?thesis using False by (simp add: table64_def k_def)
qed (simp add: table64_def)

section \<open>The loops against the reference\<close>

lemma str_at_nth [simp]: "i < length s \<Longrightarrow> str_at s i = Inr (s ! i)"
  by (simp add: str_at_def)

lemma encode_round_3:
  assumes "drop i s = a # b # c # r"
  shows "encode_round s i = Inr (rfc_encode [a, b, c], i + 2)"
proof -
  note D = drop_ConsD [OF assms]
  note E = drop_ConsD [OF D(3)]
  note F = drop_ConsD [OF E(3)]
  show ?thesis
    using D E F enc_sextet3 [of a b c] enc_sextet2 [of a b c] enc_sextet1 [of b c a]
      enc_sextet0 [of c a b]
    by (simp add: encode_round_def sextet_less letter_def Let_def)
qed

lemma encode_round_2:
  assumes "drop i s = [a, b]"
  shows "encode_round s i = Inr (rfc_encode [a, b], i + 2)"
proof -
  note D = drop_ConsD [OF assms]
  note E = drop_ConsD [OF D(3)]
  show ?thesis
    using D E drop_NilD [OF E(3)] enc_sextet3 [of a b 0] enc_sextet2 [of a b 0]
      enc_sextet1_last [of b a]
    by (simp add: encode_round_def sextet_less letter_def Let_def)
qed

lemma encode_round_1:
  assumes "drop i s = [a]"
  shows "encode_round s i = Inr (rfc_encode [a], i + 2)"
proof -
  note D = drop_ConsD [OF assms]
  show ?thesis
    using D drop_NilD [OF D(3)] enc_sextet3 [of a 0 0] enc_sextet2_last [of a 0]
    by (simp add: encode_round_def sextet_less letter_def Let_def)
qed

lemma encode_loop_done [simp]: "\<not> i < length s \<Longrightarrow> encode_loop s i acc = Inr acc"
  by (simp add: encode_loop.simps)

lemma encode_loop_rfc:
  "drop i s = bs \<Longrightarrow> encode_loop s i acc = Inr (acc @ rfc_encode bs)"
proof (induction bs arbitrary: i acc rule: rfc_encode.induct)
  case 1
  then show ?case by (simp add: encode_loop.simps)
next
  case (2 a)
  then show ?case
    using drop_ConsD [OF 2] encode_round_1 [OF 2]
    by (simp add: encode_loop.simps [of s i] del: rfc_encode.simps)
next
  case (3 a b)
  have "length (drop i s) = 2" using 3 by simp
  then have "\<not> i + 3 < length s" by simp
  then show ?case
    using drop_ConsD [OF 3] encode_round_2 [OF 3]
    by (simp add: encode_loop.simps [of s i] del: rfc_encode.simps)
next
  case (4 a b c r)
  note D = drop_ConsD [OF 4(2)]
  have "drop (Suc (Suc (Suc i))) s = r"
    using drop_ConsD [OF drop_ConsD(3) [OF D(3)]] by simp
  note IH = 4(1) [OF refl this]
  show ?case
    using D(1) encode_round_3 [OF 4(2)] IH
    by (simp add: encode_loop.simps [of s i] Let_def)
qed

lemma decode_round_4:
  assumes "drop i s = [w, x, y, z] @ r" and "y \<noteq> pad" and "z \<noteq> pad"
  shows "decode_round s i = Inr ([to_char (shl 2 (table64 w) OR (shr 4 (table64 x) AND 3)),
    to_char ((shl 4 (table64 x) AND 240) OR (shr 2 (table64 y) AND 15)),
    to_char ((shl 6 (table64 y) AND 192) OR to_int (table64 z))], Some (i + 3))"
proof -
  have "drop i s = w # x # y # z # r" using assms by simp
  note D = drop_ConsD [OF this]
  note E = drop_ConsD [OF D(3)]
  note F = drop_ConsD [OF E(3)]
  note G = drop_ConsD [OF F(3)]
  show ?thesis
    using D E F G assms(2,3) by (simp add: decode_round_def Let_def)
qed

lemma decode_round_3:
  assumes "drop i s = [w, x, y, pad]" and "y \<noteq> pad"
  shows "decode_round s i = Inr ([to_char (shl 2 (table64 w) OR (shr 4 (table64 x) AND 3)),
    to_char ((shl 4 (table64 x) AND 240) OR (shr 2 (table64 y) AND 15))], None)"
proof -
  note D = drop_ConsD [OF assms(1)]
  note E = drop_ConsD [OF D(3)]
  note F = drop_ConsD [OF E(3)]
  note G = drop_ConsD [OF F(3)]
  show ?thesis
    using D E F G assms(2) by (simp add: decode_round_def Let_def)
qed

lemma decode_round_2:
  assumes "drop i s = [w, x, pad, pad]"
  shows "decode_round s i = Inr ([to_char (shl 2 (table64 w) OR (shr 4 (table64 x) AND 3))], None)"
proof -
  note D = drop_ConsD [OF assms(1)]
  note E = drop_ConsD [OF D(3)]
  note F = drop_ConsD [OF E(3)]
  show ?thesis
    using D E F by (simp add: decode_round_def Let_def)
qed

lemma decode_loop_rfc:
  "drop i s = rfc_encode bs \<Longrightarrow> decode_loop s i acc = Inr (acc @ bs)"
proof (induction bs arbitrary: i acc rule: rfc_encode.induct)
  case 1
  then show ?case by (simp add: decode_loop.simps)
next
  case (2 a)
  then have drop: "drop i s = [letter (sextet 3 (group24 a 0 0)), letter (sextet 2 (group24 a 0 0)), pad, pad]"
    by (simp add: Let_def)
  show ?case
    using drop_ConsD(1) [OF drop] decode_round_2 [OF drop]
    by (simp add: decode_loop.simps [of s i] decode_bits sextet_less)
next
  case (3 a b)
  then have drop: "drop i s = [letter (sextet 3 (group24 a b 0)), letter (sextet 2 (group24 a b 0)),
      letter (sextet 1 (group24 a b 0)), pad]"
    by (simp add: Let_def)
  show ?case
    using drop_ConsD(1) [OF drop] decode_round_3 [OF drop]
    by (simp add: decode_loop.simps [of s i] decode_bits sextet_less del: One_nat_def)
next
  case (4 a b c r)
  then have drop: "drop i s = [letter (sextet 3 (group24 a b c)), letter (sextet 2 (group24 a b c)),
      letter (sextet 1 (group24 a b c)), letter (sextet 0 (group24 a b c))] @ rfc_encode r"
    by (simp add: Let_def)
  have "drop (4 + i) s = drop 4 (drop i s)" by (simp add: add.commute)
  also have "\<dots> = rfc_encode r" by (simp only: drop) simp
  finally have "drop (4 + i) s = rfc_encode r" .
  note IH = 4(1) [OF refl this]
  have "i < length s" using drop_ConsD(1) [of i s] drop by simp
  then show ?case
    using decode_round_4 [OF drop] IH
    by (simp add: decode_loop.simps [of s i] decode_bits sextet_less del: One_nat_def)
qed

section \<open>Decoding arbitrary text\<close>

lemma decode_round_total:
  assumes "i < length s"
  shows "\<exists>out nx. decode_round s i = Inr (out, nx) \<and> length out \<le> 3 \<and>
    (\<forall>j. nx = Some j \<longrightarrow> j = i + 3)"
  using assms by (auto simp: decode_round_def Let_def str_at_def)

lemma decode_loop_total:
  "\<exists>out. decode_loop s i acc = Inr (acc @ out) \<and> length out \<le> 3 * ((length s - i + 3) div 4)"
proof (induction "length s - i" arbitrary: i acc rule: less_induct)
  case less
  show ?case
  proof (cases "i < length s")
    case True
    obtain out nx where r: "decode_round s i = Inr (out, nx)" "length out \<le> 3"
      and nx: "\<forall>j. nx = Some j \<longrightarrow> j = i + 3"
      using decode_round_total [OF True] by blast
    show ?thesis
    proof (cases nx)
      case None
      have "1 \<le> (length s - i + 3) div 4" using True by simp
      then have "length out \<le> 3 * ((length s - i + 3) div 4)" using r(2) by linarith
      then show ?thesis using True r(1) None by (simp add: decode_loop.simps [of s i])
    next
      case (Some j)
      then have j: "j = i + 3" using nx by simp
      have "length s - (j + 1) < length s - i" using True j by simp
      from less [OF this] obtain out' where
        "decode_loop s (j + 1) (acc @ out) = Inr ((acc @ out) @ out')"
        "length out' \<le> 3 * ((length s - (j + 1) + 3) div 4)" by blast
      then have "decode_loop s i acc = Inr (acc @ (out @ out'))"
        using True r Some by (simp add: decode_loop.simps [of s i])
      moreover have "length (out @ out') \<le> 3 * ((length s - i + 3) div 4)"
      proof (cases "4 \<le> length s - i")
        case True
        then have "(length s - i + 3) div 4 = Suc ((length s - (j + 1) + 3) div 4)"
          using j by (simp add: div_if [of "length s + 3 - i"] Suc_diff_le)
        then show ?thesis
          using \<open>length out' \<le> _\<close> r(2) unfolding length_append by linarith
      next
        case False
        then have "(length s - (j + 1) + 3) div 4 = 0" and "1 \<le> (length s - i + 3) div 4"
          using j \<open>i < length s\<close> by simp_all
        then show ?thesis
          using \<open>length out' \<le> _\<close> r(2) unfolding length_append by linarith
      qed
      ultimately show ?thesis by blast
    qed
  qed (simp add: decode_loop.simps)
qed

text \<open>Quadruples without a pad: what the loop makes of them, for any characters.\<close>

definition quad_bytes :: "u8 \<Rightarrow> u8 \<Rightarrow> u8 \<Rightarrow> u8 \<Rightarrow> u8 list" where
  "quad_bytes w x y z =
     [to_char (shl 2 (table64 w) OR (shr 4 (table64 x) AND 3)),
      to_char ((shl 4 (table64 x) AND 240) OR (shr 2 (table64 y) AND 15)),
      to_char ((shl 6 (table64 y) AND 192) OR to_int (table64 z))]"

fun quads :: "u8 list \<Rightarrow> u8 list" where
  "quads (w # x # y # z # r) = quad_bytes w x y z @ quads r"
| "quads _ = []"

lemma short_not_4:
  "Suc 0 = 4 * n \<Longrightarrow> P" "Suc (Suc 0) = 4 * n \<Longrightarrow> P" "Suc (Suc (Suc 0)) = 4 * n \<Longrightarrow> P"
  for n :: nat
  by presburger+

lemma decode_loop_quads:
  assumes "drop i s = t" and "length t = 4 * n" and "pad \<notin> set t"
  shows "decode_loop s i acc = Inr (acc @ quads t)"
  using assms
proof (induction t arbitrary: i acc n rule: quads.induct)
  case (1 w x y z r)
  have "drop i s = [w, x, y, z] @ r" using 1(2) by simp
  from decode_round_4 [OF this] 1(4)
  have round: "decode_round s i = Inr (quad_bytes w x y z, Some (i + 3))"
    by (auto simp: quad_bytes_def)
  have "drop (4 + i) s = drop 4 (drop i s)" by (simp add: add.commute)
  then have "drop (4 + i) s = r" using 1(2) by simp
  moreover have "length r = 4 * (n - 1)" using 1(3) by simp
  ultimately have "decode_loop s (4 + i) (acc @ quad_bytes w x y z)
      = Inr ((acc @ quad_bytes w x y z) @ quads r)"
    using 1(1) 1(4) by simp
  then show ?case
    using round drop_ConsD(1) [OF 1(2)] by (simp add: decode_loop.simps [of s i] add.commute)
next
  case "2_1" then show ?case by (simp add: decode_loop.simps)
qed (auto dest: short_not_4)

lemma quads_np:
  "length t = 4 * n \<Longrightarrow> (\<And>c. c \<in> set t \<Longrightarrow> table64 c = np) \<Longrightarrow> quads t = replicate (3 * n) 255"
proof (induction t arbitrary: n rule: quads.induct)
  case (1 w x y z r)
  have "quad_bytes w x y z = [255, 255, 255]"
  proof -
    have "to_char (shl 2 np OR (shr 4 np AND 3)) = 255"
      "to_char ((shl 4 np AND 240) OR (shr 2 np AND 15)) = 255"
      "to_char ((shl 6 np AND 192) OR to_int np) = 255" by code_simp+
    then show ?thesis using 1(3) by (simp add: quad_bytes_def)
  qed
  moreover obtain m where "n = Suc m" using 1(2) by (cases n) auto
  ultimately show ?case using 1 by (simp add: numeral_3_eq_3)
qed auto

lemma sextet_quad:
  assumes "unat w < 64" "unat x < 64" "unat y < 64" "unat z < 64"
  defines "g \<equiv> group24 (to_char (shl 2 w OR (shr 4 x AND 3)))
      (to_char ((shl 4 x AND 240) OR (shr 2 y AND 15)))
      (to_char ((shl 6 y AND 192) OR to_int z))"
  shows "sextet 3 g = w" "sextet 2 g = x" "sextet 1 g = y" "sextet 0 g = z"
proof -
  have *: "v = take_bit 6 v" if "unat v < 64" for v :: u8
  proof -
    have "unat (take_bit 6 v) = unat v" using that by (simp add: unsigned_take_bit_eq take_bit_nat_eq_self)
    then show ?thesis by (simp only: word_unat_eq_iff)
  qed
  have "\<not> bit v 6 \<and> \<not> bit v 7" if "unat v < 64" for v :: u8
  proof -
    have "bit (take_bit 6 v) 6 = bit v 6" "bit (take_bit 6 v) 7 = bit v 7"
      by (simp_all only: that [THEN *, symmetric])
    then show ?thesis by (simp add: bit_take_bit_iff)
  qed
  then have "\<not> bit w 6" "\<not> bit w 7" "\<not> bit x 6" "\<not> bit x 7"
    "\<not> bit y 6" "\<not> bit y 7" "\<not> bit z 6" "\<not> bit z 7"
    using assms(1-4) by simp_all
  then show "sextet 3 g = w" "sextet 2 g = x" "sextet 1 g = y" "sextet 0 g = z"
    unfolding g_def by - (rule u8_eqI; simp add: b64_bits)+
qed

lemma rfc_encode_quads:
  "length t = 4 * n \<Longrightarrow> set t \<subseteq> set alphabet64 \<Longrightarrow> rfc_encode (quads t) = t"
proof (induction t arbitrary: n rule: quads.induct)
  case (1 w x y z r)
  have "set r \<subseteq> set alphabet64" "w \<in> set alphabet64" "x \<in> set alphabet64"
    "y \<in> set alphabet64" "z \<in> set alphabet64" using 1(3) by auto
  moreover have "length r = 4 * (n - 1)" using 1(2) by simp
  ultimately show ?case
    using 1(1) by (simp add: quad_bytes_def sextet_quad Let_def del: One_nat_def)
qed (auto dest: short_not_4)

lemma length_rfc_encode: "length (rfc_encode bs) = 4 * ((length bs + 2) div 3)"
proof (induction bs rule: rfc_encode.induct)
  case (4 a b c r)
  have "(length (a # b # c # r) + 2) div 3 = Suc ((length r + 2) div 3)" by simp
  then show ?case using 4 by (simp only: rfc_encode.simps Let_def length_append) simp
qed (simp_all add: Let_def)

lemma set_rfc_encode: "set (rfc_encode bs) \<subseteq> insert pad (set alphabet64)"
  by (induction bs rule: rfc_encode.induct)
    (auto simp: Let_def intro!: letter_in_alphabet64 sextet_less)


section \<open>Properties\<close>

text \<open>
  C31. \<open>encode64\<close> is the encoding of RFC 3548 for every input: it never fails, its result is
  the reference encoding (24-bit groups read as four sextets, padded with \<open>=\<close>), it has four
  characters for every three bytes begun, and it holds only the alphabet and the pad.
\<close>
theorem encode64_rfc:
  "encode64 bs = Inr (rfc_encode bs) \<and> length (rfc_encode bs) = 4 * ((length bs + 2) div 3) \<and>
   set (rfc_encode bs) \<subseteq> insert pad (set alphabet64)"
  by (simp add: encode64_def encode_loop_rfc length_rfc_encode set_rfc_encode)

text \<open>
  C32. Decoding an encoded string gives the bytes back, whatever they are: bytes of 128 and
  more survive the sign extension of \<open>char\<close>, and each of the three lengths of the last group
  comes back with its own length.
\<close>
theorem decode64_encode64: "res_bind (encode64 bs) decode64 = Inr bs"
  by (simp add: encode64_def encode_loop_rfc decode64_def decode_loop_rfc)

text \<open>
  C33. On a text of whole quadruples of the alphabet, \<open>decode64\<close> returns bytes whose encoding
  is that text: no two such texts decode to the same bytes.
\<close>
theorem encode64_decode64:
  assumes "4 dvd length s" and "set s \<subseteq> set alphabet64"
  shows "res_bind (decode64 s) encode64 = Inr s"
proof -
  obtain n where "length s = 4 * n" using assms(1) by (elim dvdE)
  moreover have "pad \<notin> set s" using assms(2) pad_not_alphabet64 by auto
  ultimately show ?thesis
    using assms(2)
    by (simp add: decode64_def decode_loop_quads [of 0 s s n] encode64_def encode_loop_rfc
        rfc_encode_quads)
qed

theorem encode64_decode64_witness:
  "res_bind (decode64 (map of_char ''SGVsbG8h'')) encode64 = Inr (map of_char ''SGVsbG8h'')"
  by (rule encode64_decode64) (rule dvdI [of _ _ 2], simp_all add: alphabet64_eval)

text \<open>
  \<open>decode64\<close> returns on every text, of any length and any characters, without reading
  past the terminating NUL, and the result has at most three bytes for every four characters
  begun.
\<close>
theorem decode64_total:
  "\<exists>out. decode64 s = Inr out \<and> length out \<le> 3 * ((length s + 3) div 4)"
  using decode_loop_total [of s 0 "[]"] by (simp add: decode64_def)

text \<open>
  Characters outside the alphabet are not rejected, as RFC 3548 asks, nor skipped:
  quadruples of them decode to bytes \<open>0xFF\<close> with no error.
\<close>
theorem decode64_accepts_garbage:
  assumes "length s = 4 * n" and "set s \<inter> insert pad (set alphabet64) = {}"
  shows "decode64 s = Inr (replicate (3 * n) 255)"
proof -
  have np: "table64 c = np" if "c \<in> set s" for c
    using assms(2) that table64_np by auto
  moreover have "pad \<notin> set s" using assms(2) by auto
  ultimately show ?thesis
    using assms(1) quads_np [OF assms(1) np]
    by (simp add: decode64_def decode_loop_quads [of 0 s s n])
qed

theorem decode64_accepts_garbage_witness: "decode64 [33, 33, 33, 33] = Inr [255, 255, 255]"
  using decode64_accepts_garbage [of "[33, 33, 33, 33]" 1]
  by (simp add: alphabet64_eval pad_def numeral_3_eq_3)

end
