(* ===== verification/Fifo.thy ===== *)
theory Fifo
  imports Qing_Prelude
begin

text \<open>
  The contract of a queue, as the clients of \<open>Buffer\<close> and of \<open>ReaderWriterQueue\<close> use it:
  locale \<open>byte_stream\<close> for a queue that is written and read in chunks, locale \<open>fifo\<close> for one
  written and read an element at a time. The clients are traces of operations; the lemmas say
  that what comes out, followed by what is still inside, is what was inside at the start,
  followed by what went in. A stream is a fifo of its elements.
\<close>

section \<open>Clients\<close>

datatype 'a chunk_op = Put "'a list" | Take nat

text \<open>The chunks a trace takes (a refused request takes none) and the state at its end.\<close>

fun chunk_run ::
  "('a list \<Rightarrow> 's \<Rightarrow> 's) \<Rightarrow> (nat \<Rightarrow> 's \<Rightarrow> ('a list \<times> 's) option) \<Rightarrow> 'a chunk_op list \<Rightarrow> 's
   \<Rightarrow> 'a list list \<times> 's" where
  "chunk_run put get [] s = ([], s)"
| "chunk_run put get (Put xs # ops) s = chunk_run put get ops (put xs s)"
| "chunk_run put get (Take n # ops) s =
     (case get n s of
        None \<Rightarrow> chunk_run put get ops s
      | Some (xs, s') \<Rightarrow> let (out, t) = chunk_run put get ops s' in (xs # out, t))"

fun puts :: "'a chunk_op list \<Rightarrow> 'a list" where
  "puts [] = []"
| "puts (Put xs # ops) = xs @ puts ops"
| "puts (Take n # ops) = puts ops"

fun chunk_size :: "'a chunk_op \<Rightarrow> nat" where
  "chunk_size (Put xs) = length xs"
| "chunk_size (Take n) = n"

datatype 'a item_op = Push 'a | Pop

text \<open>The items a trace pops, the items it pushed with success, and the state at its end.\<close>

fun item_run ::
  "('a \<Rightarrow> 's \<Rightarrow> 's option) \<Rightarrow> ('s \<Rightarrow> ('a \<times> 's) option) \<Rightarrow> 'a item_op list \<Rightarrow> 's
   \<Rightarrow> 'a list \<times> 'a list \<times> 's" where
  "item_run push pop [] s = ([], [], s)"
| "item_run push pop (Push x # ops) s =
     (case push x s of
        None \<Rightarrow> item_run push pop ops s
      | Some s' \<Rightarrow> let (out, inn, t) = item_run push pop ops s' in (out, x # inn, t))"
| "item_run push pop (Pop # ops) s =
     (case pop s of
        None \<Rightarrow> item_run push pop ops s
      | Some (x, s') \<Rightarrow> let (out, inn, t) = item_run push pop ops s' in (x # out, inn, t))"

section \<open>An element at a time\<close>

locale fifo =
  fixes contents :: "'s \<Rightarrow> 'a list"
    and push :: "'a \<Rightarrow> 's \<Rightarrow> 's option"
    and pop :: "'s \<Rightarrow> ('a \<times> 's) option"
    and invar :: "'s \<Rightarrow> bool"
  assumes push_Some: "\<lbrakk> invar s; push x s = Some s' \<rbrakk> \<Longrightarrow> invar s' \<and> contents s' = contents s @ [x]"
    and pop_None: "invar s \<Longrightarrow> pop s = None \<longleftrightarrow> contents s = []"
    and pop_Some: "\<lbrakk> invar s; pop s = Some (x, s') \<rbrakk> \<Longrightarrow> invar s' \<and> contents s = x # contents s'"
begin

lemma trace_fifo:
  "invar s \<Longrightarrow> item_run push pop ops s = (out, inn, t) \<Longrightarrow>
   invar t \<and> out @ contents t = contents s @ inn"
proof (induction ops arbitrary: s out inn)
  case (Cons op ops)
  show ?case
  proof (cases op)
    case (Push x)
    then show ?thesis
      using Cons push_Some [of s x] by (auto split: option.splits prod.splits)
  next
    case Pop
    then show ?thesis
      using Cons pop_Some [of s] by (auto split: option.splits prod.splits)
  qed
qed simp

lemma trace_from_empty:
  assumes "invar s" and "contents s = []" and "item_run push pop ops s = (out, inn, t)"
  shows "\<exists>rest. inn = out @ rest"
  using trace_fifo [OF assms(1,3)] assms(2) by auto

end

section \<open>In chunks\<close>

locale byte_stream =
  fixes contents :: "'s \<Rightarrow> 'a list"
    and put :: "'a list \<Rightarrow> 's \<Rightarrow> 's"
    and get :: "nat \<Rightarrow> 's \<Rightarrow> ('a list \<times> 's) option"
    and invar :: "'s \<Rightarrow> bool"
    and limit :: nat
  assumes put_contents: "\<lbrakk> invar s; length xs < limit \<rbrakk> \<Longrightarrow> invar (put xs s) \<and> contents (put xs s) = contents s @ xs"
    and get_short: "\<lbrakk> invar s; n < limit; length (contents s) < n \<rbrakk> \<Longrightarrow> get n s = None"
    and get_enough: "\<lbrakk> invar s; n < limit; n \<le> length (contents s) \<rbrakk> \<Longrightarrow>
      \<exists>s'. get n s = Some (take n (contents s), s') \<and> invar s' \<and> contents s' = drop n (contents s)"
    and limit_pos: "1 < limit"
begin

lemma get_SomeD:
  assumes "invar s" and "n < limit" and "get n s = Some (xs, s')"
  shows "n \<le> length (contents s) \<and> xs = take n (contents s) \<and> invar s' \<and> contents s' = drop n (contents s)"
  using get_short [OF assms(1,2)] get_enough [OF assms(1,2)] assms(3)
  by (cases "n \<le> length (contents s)") auto

lemma trace_stream:
  "invar s \<Longrightarrow> (\<forall>op \<in> set ops. chunk_size op < limit) \<Longrightarrow> chunk_run put get ops s = (out, t) \<Longrightarrow>
   invar t \<and> concat out @ contents t = contents s @ puts ops"
proof (induction ops arbitrary: s out)
  case (Cons op ops)
  show ?case
  proof (cases op)
    case (Put xs)
    then show ?thesis using Cons put_contents [of s xs] by fastforce
  next
    case (Take n)
    show ?thesis
    proof (cases "get n s")
      case None
      then show ?thesis using Cons Take by simp
    next
      case (Some p)
      obtain xs s' where p: "p = (xs, s')" by (cases p)
      obtain out' where run: "chunk_run put get ops s' = (out', t)" and out: "out = xs # out'"
        using Cons.prems(3) Take Some p by (auto split: prod.splits)
      have g: "xs = take n (contents s)" "invar s'" "contents s' = drop n (contents s)"
        using get_SomeD [of s n xs s'] Cons.prems(1,2) Take Some p by auto
      have "invar t \<and> concat out' @ contents t = contents s' @ puts ops"
        using Cons.IH [OF g(2) _ run] Cons.prems(2) by simp
      then show ?thesis using g out Take by (metis append_assoc append_take_drop_id concat.simps(2) puts.simps(3))
    qed
  qed
qed simp

end

text \<open>A stream is a fifo of its elements.\<close>

sublocale byte_stream \<subseteq> items: fifo contents "\<lambda>x s. Some (put [x] s)"
    "\<lambda>s. map_option (\<lambda>(xs, s'). (hd xs, s')) (get 1 s)" invar
proof
  fix s :: 's and x :: 'a and s'
  show "\<lbrakk> invar s; Some (put [x] s) = Some s' \<rbrakk> \<Longrightarrow> invar s' \<and> contents s' = contents s @ [x]"
    using put_contents [of s "[x]"] limit_pos by auto
  show "invar s \<Longrightarrow> (map_option (\<lambda>(xs, s'). (hd xs, s')) (get 1 s) = None) = (contents s = [])"
    using get_short [of s 1] get_enough [of s 1] limit_pos
    by (cases "contents s") auto
  show "invar s' \<and> contents s = x # contents s'"
    if "invar s" and m: "map_option (\<lambda>(xs, s'). (hd xs, s')) (get 1 s) = Some (x, s')"
  proof -
    obtain xs where xs: "get 1 s = Some (xs, s')" "x = hd xs" using m by auto
    from get_SomeD [OF that(1) _ xs(1)] limit_pos
    have "1 \<le> length (contents s)" "xs = take 1 (contents s)" "invar s'" "contents s' = drop 1 (contents s)"
      by auto
    then show ?thesis using xs(2) by (cases "contents s") auto
  qed
qed

end
