(* ===== verification/Byte_Buffer.thy ===== *)
theory Byte_Buffer
  imports Fifo
begin

text \<open>
  \<open>src/net/buffer.cpp\<close>: class \<open>Buffer\<close>, a \<open>std::string\<close> written at its end and fetched from
  its start. A pointer argument is \<open>None\<close> for \<open>NULL\<close> and otherwise the bytes of the object it
  points into; reading or writing more bytes than it has is a fault.
\<close>

section \<open>The code\<close>

record buffer = str_buffer :: "u8 list"

definition Buffer_new :: buffer where "Buffer_new = \<lparr>str_buffer = []\<rparr>"

definition Buffer_release :: "buffer \<Rightarrow> buffer" where "Buffer_release b = b\<lparr>str_buffer := []\<rparr>"

text \<open>\<open>&_buffer[0]\<close>: the bytes that can be read from there, with the terminating NUL.\<close>

definition Buffer_buffer :: "buffer \<Rightarrow> u8 list" where
  "Buffer_buffer b = str_buffer b @ [0]"

definition Buffer_size :: "buffer \<Rightarrow> nat" where
  "Buffer_size b = length (str_buffer b)"

definition Buffer_write :: "u8 list option \<Rightarrow> u32 \<Rightarrow> buffer \<Rightarrow> buffer res" where
  "Buffer_write data sz b =
     (case data of
        None \<Rightarrow> Inr b
      | Some bytes \<Rightarrow>
          if sz = 0 then Inr b
          else if length bytes < unat sz then Inl Out_Of_Bounds
          else Inr (b\<lparr>str_buffer := str_buffer b @ take (unat sz) bytes\<rparr>))"

text \<open>The result, the destination and the buffer after the call.\<close>

definition Buffer_fetch :: "u8 list option \<Rightarrow> u32 \<Rightarrow> buffer \<Rightarrow> (bool \<times> u8 list option \<times> buffer) res" where
  "Buffer_fetch data sz b =
     (if unat sz > Buffer_size b then Inr (False, data, b)
      else case data of
        None \<Rightarrow> Inl Null_Deref
      | Some dest \<Rightarrow>
          if length dest < unat sz then Inl Object_Overrun
          else Inr (True, Some (take (unat sz) (str_buffer b) @ drop (unat sz) dest),
                    b\<lparr>str_buffer := drop (unat sz) (str_buffer b)\<rparr>))"

section \<open>A buffer is a stream of bytes\<close>

text \<open>A client writes whole chunks and fetches into a destination of the size it asks for.\<close>

definition put_chunk :: "u8 list \<Rightarrow> buffer \<Rightarrow> buffer" where
  "put_chunk xs b = (case Buffer_write (Some xs) (of_nat (length xs)) b of Inr b' \<Rightarrow> b' | Inl _ \<Rightarrow> b)"

definition get_chunk :: "nat \<Rightarrow> buffer \<Rightarrow> (u8 list \<times> buffer) option" where
  "get_chunk n b =
     (case Buffer_fetch (Some (replicate n 0)) (of_nat n) b of
        Inr (True, Some xs, b') \<Rightarrow> Some (xs, b')
      | _ \<Rightarrow> None)"

lemma write_all:
  assumes "length xs < 2 ^ 32"
  shows "Buffer_write (Some xs) (of_nat (length xs)) b = Inr (b\<lparr>str_buffer := str_buffer b @ xs\<rparr>)"
proof -
  have "unat (of_nat (length xs) :: u32) = length xs"
    using assms by (intro unat_of_nat_small) simp
  moreover from this have "(of_nat (length xs) :: u32) = 0 \<longleftrightarrow> xs = []"
    by (metis length_0_conv unat_eq_zero)
  ultimately show ?thesis by (simp add: Buffer_write_def)
qed

lemma put_chunk_eq:
  "length xs < 2 ^ 32 \<Longrightarrow> put_chunk xs b = b\<lparr>str_buffer := str_buffer b @ xs\<rparr>"
  by (simp add: put_chunk_def write_all)

lemma get_chunk_eq:
  assumes "n < 2 ^ 32"
  shows "get_chunk n b =
    (if n \<le> length (str_buffer b)
     then Some (take n (str_buffer b), b\<lparr>str_buffer := drop n (str_buffer b)\<rparr>) else None)"
proof -
  have "unat (of_nat n :: u32) = n" using assms by (intro unat_of_nat_small) simp
  then show ?thesis by (auto simp: get_chunk_def Buffer_fetch_def Buffer_size_def)
qed

interpretation bs: byte_stream str_buffer put_chunk get_chunk "\<lambda>_. True" "2 ^ 32"
  by unfold_locales (auto simp: put_chunk_eq get_chunk_eq)

section \<open>Properties\<close>

text \<open>
  \<open>write\<close> of the bytes of an object appends exactly the first \<open>size\<close> of them; with a null
  pointer or a size of zero nothing changes; only an object shorter than \<open>size\<close> is a fault.
\<close>
theorem write_spec:
  "(case Buffer_write data sz b of
      Inr b' \<Rightarrow> str_buffer b' = str_buffer b @ (case data of None \<Rightarrow> [] | Some bytes \<Rightarrow> take (unat sz) bytes)
    | Inl e \<Rightarrow> e = Out_Of_Bounds \<and> (\<exists>bytes. data = Some bytes \<and> length bytes < unat sz))"
  by (auto simp: Buffer_write_def split: option.splits)

text \<open>
  \<open>fetch\<close> of more than the buffer holds returns false and changes neither the destination
  nor the buffer; otherwise it moves exactly the first \<open>size\<close> bytes to the start of the
  destination, leaves the rest of the destination alone and keeps the rest of the buffer.
\<close>
theorem fetch_spec:
  assumes "unat sz \<le> length dest"
  shows "Buffer_fetch (Some dest) sz b =
    (if length (str_buffer b) < unat sz then Inr (False, Some dest, b)
     else Inr (True, Some (take (unat sz) (str_buffer b) @ drop (unat sz) dest),
               \<lparr>str_buffer = drop (unat sz) (str_buffer b)\<rparr>))"
  using assms by (cases b) (simp add: Buffer_fetch_def Buffer_size_def)

theorem fetch_spec_witness:
  "Buffer_fetch (Some [9, 9, 9]) 2 \<lparr>str_buffer = [1, 2, 3]\<rparr> = Inr (True, Some [1, 2, 9], \<lparr>str_buffer = [3]\<rparr>)"
  using fetch_spec [of 2 "[9, 9, 9]" "\<lparr>str_buffer = [1, 2, 3]\<rparr>"] by simp

text \<open>
  C34. Over any sequence of writes and fetches the buffer neither loses, nor duplicates, nor
  reorders a byte: the chunks fetched, followed by what the buffer still holds, are what it
  held at first, followed by the chunks written.
\<close>
theorem buffer_trace:
  assumes "\<forall>op \<in> set ops. chunk_size op < 2 ^ 32"
    and "chunk_run put_chunk get_chunk ops b = (out, b')"
  shows "concat out @ str_buffer b' = str_buffer b @ puts ops"
  using bs.trace_stream [OF TrueI assms] by simp

theorem buffer_trace_witness:
  "concat [[1, 2], [3 :: u8]] @ [4] = [] @ puts [Put [1, 2, 3], Take 5, Take 2, Put [4], Take 1]"
proof -
  let ?ops = "[Put [1, 2, 3], Take 5, Take 2, Put [4], Take 1] :: u8 chunk_op list"
  have run: "chunk_run put_chunk get_chunk ?ops Buffer_new = ([[1, 2], [3]], \<lparr>str_buffer = [4]\<rparr>)"
    by (simp add: put_chunk_eq get_chunk_eq Buffer_new_def)
  show ?thesis using buffer_trace [OF _ run] by (simp add: Buffer_new_def)
qed

end
