(* ===== verification/RW_Queue.thy ===== *)
theory RW_Queue
  imports Fifo
begin

text \<open>
  \<open>include/qing/util/readerwriterqueue.h\<close>: the queue of blocks, run by one thread at a time.
  A block is a circular buffer with 64-bit indices; a slot of its data is \<open>None\<close> while it is
  raw memory and \<open>Some x\<close> while an object lives there, so that constructing, moving out and
  destroying elements are visible, and reading a slot with no object is a fault. The address
  of a block is its position in the order of allocation (blocks are only freed by the
  destructor). \<open>malloc\<close> and the layout of \<open>Block\<close> and \<open>T\<close> are parameters. The assertions and the
  reentrancy guards of the debug build are part of the model; fences change nothing for one
  thread.
\<close>

section \<open>ceilToPow2 and align_for\<close>

text \<open>The loop runs for \<open>i = 1, 2, 4\<close>, below \<open>sizeof(size_t) = 8\<close>, and shifts by \<open>8 i\<close>.\<close>

definition smear_step :: "nat \<Rightarrow> u64 \<Rightarrow> u64" where
  "smear_step n x = x OR drop_bit n x"

definition ceilToPow2 :: "u64 \<Rightarrow> u64" where
  "ceilToPow2 x =
     (let x = x - 1;
          x = smear_step 1 x;
          x = smear_step 2 x;
          x = smear_step 4 x;
          x = fold (\<lambda>i. smear_step (push_bit 3 i)) [1, 2, 4] x
      in x + 1)"

definition align_for :: "u64 \<Rightarrow> u64 \<Rightarrow> u64" where
  "align_for alignment ptr = ptr + (alignment - ptr mod alignment) mod alignment"

section \<open>Blocks\<close>

record 'a block =
  blk_front :: u64
  blk_tail :: u64
  blk_next :: "nat option"
  blk_data :: "'a option list"
  blk_size :: u64

record layout =
  sizeof_Block :: u64
  alignof_Block :: u64
  sizeof_T :: u64
  alignof_T :: u64

definition sizeMask :: "'a block \<Rightarrow> u64" where
  "sizeMask b = blk_size b - 1"

text \<open>\<open>Block(_size, rawThis, _data)\<close>, with the slots that lie inside the allocation.\<close>

definition Block :: "u64 \<Rightarrow> nat \<Rightarrow> 'a block" where
  "Block sz slots = \<lparr>blk_front = 0, blk_tail = 0, blk_next = None,
     blk_data = replicate slots None, blk_size = sz\<rparr>"

definition block_bytes :: "layout \<Rightarrow> u64 \<Rightarrow> u64" where
  "block_bytes ly capacity =
     (sizeof_Block ly + alignof_Block ly - 1) + (sizeof_T ly * capacity + alignof_T ly - 1)"

text \<open>
  \<open>malloc n\<close> is the address of \<open>n\<close> fresh bytes, or 0. The header is constructed at the first
  aligned address, the slots follow at the next address aligned for \<open>T\<close>; a header beyond the
  allocation is a fault, and slots beyond it do not exist.
\<close>

definition make_block :: "layout \<Rightarrow> (u64 \<Rightarrow> u64) \<Rightarrow> u64 \<Rightarrow> 'a block option res" where
  "make_block ly malloc capacity =
     (let sz = block_bytes ly capacity;
          newBlockRaw = malloc sz in
      if newBlockRaw = 0 then Inr None
      else
        let newBlockAligned = align_for (alignof_Block ly) newBlockRaw;
            newBlockData = align_for (alignof_T ly) (newBlockAligned + sizeof_Block ly);
            finish = unat newBlockRaw + unat sz in
        if finish < unat newBlockAligned + unat (sizeof_Block ly) then Inl Object_Overrun
        else Inr (Some (Block capacity
               (min (unat capacity) ((finish - unat newBlockData) div unat (sizeof_T ly))))))"

text \<open>Placement new, reading (or moving from) an element, and its destructor.\<close>

definition construct :: "u64 \<Rightarrow> 'a \<Rightarrow> 'a block \<Rightarrow> 'a block res" where
  "construct i x b =
     (if unat i < length (blk_data b) then Inr (b\<lparr>blk_data := (blk_data b)[unat i := Some x]\<rparr>)
      else Inl Object_Overrun)"

definition element_at :: "u64 \<Rightarrow> 'a block \<Rightarrow> 'a res" where
  "element_at i b =
     (if unat i < length (blk_data b)
      then case blk_data b ! unat i of None \<Rightarrow> Inl Dead_Object | Some x \<Rightarrow> Inr x
      else Inl Object_Overrun)"

definition destroy :: "u64 \<Rightarrow> 'a block \<Rightarrow> 'a block res" where
  "destroy i b = res_bind (element_at i b) (\<lambda>_. Inr (b\<lparr>blk_data := (blk_data b)[unat i := None]\<rparr>))"

section \<open>The queue\<close>

record 'a rwq =
  blocks :: "'a block list"
  frontBlock :: nat
  tailBlock :: nat
  largestBlockSize :: u64
  enqueuing :: bool
  dequeuing :: bool

datatype alloc_mode = CanAlloc | CannotAlloc

definition get_block :: "nat \<Rightarrow> 'a rwq \<Rightarrow> 'a block res" where
  "get_block a q = (if a < length (blocks q) then Inr (blocks q ! a) else Inl Null_Deref)"

definition set_block :: "nat \<Rightarrow> 'a block \<Rightarrow> 'a rwq \<Rightarrow> 'a rwq" where
  "set_block a b q = q\<lparr>blocks := (blocks q)[a := b]\<rparr>"

definition deref :: "nat option \<Rightarrow> nat res" where
  "deref p = (case p of None \<Rightarrow> Inl Null_Deref | Some a \<Rightarrow> Inr a)"

definition ReaderWriterQueue :: "layout \<Rightarrow> (u64 \<Rightarrow> u64) \<Rightarrow> u64 \<Rightarrow> 'a rwq res" where
  "ReaderWriterQueue ly malloc maxSize =
     (let largest = ceilToPow2 (maxSize + 1) in
      if maxSize = 0 then Inl Assert_Failed
      else res_bind (make_block ly malloc largest) (\<lambda>firstBlock.
        case firstBlock of
          None \<Rightarrow> Inl Bad_Alloc
        | Some b \<Rightarrow> Inr \<lparr>blocks = [b\<lparr>blk_next := Some 0\<rparr>], frontBlock = 0, tailBlock = 0,
            largestBlockSize = largest, enqueuing = False, dequeuing = False\<rparr>))"

text \<open>\<open>ReentrantGuard\<close>: asserts that the section is free, and frees it when the call returns.\<close>

definition guard_enqueuing :: "('a rwq \<Rightarrow> ('b \<times> 'a rwq) res) \<Rightarrow> 'a rwq \<Rightarrow> ('b \<times> 'a rwq) res" where
  "guard_enqueuing f q =
     (if enqueuing q then Inl Assert_Failed
      else res_bind (f (q\<lparr>enqueuing := True\<rparr>)) (\<lambda>(r, q'). Inr (r, q'\<lparr>enqueuing := False\<rparr>)))"

definition guard_dequeuing :: "('a rwq \<Rightarrow> ('b \<times> 'a rwq) res) \<Rightarrow> 'a rwq \<Rightarrow> ('b \<times> 'a rwq) res" where
  "guard_dequeuing f q =
     (if dequeuing q then Inl Assert_Failed
      else res_bind (f (q\<lparr>dequeuing := True\<rparr>)) (\<lambda>(r, q'). Inr (r, q'\<lparr>dequeuing := False\<rparr>)))"

definition enqueue_body ::
  "layout \<Rightarrow> (u64 \<Rightarrow> u64) \<Rightarrow> alloc_mode \<Rightarrow> 'a \<Rightarrow> 'a rwq \<Rightarrow> (bool \<times> 'a rwq) res" where
  "enqueue_body ly malloc canAlloc x q =
     (let t = tailBlock q in
      res_bind (get_block t q) (\<lambda>tb.
      let blockFront = blk_front tb;
          blockTail = blk_tail tb;
          nextBlockTail = (blockTail + 1) AND sizeMask tb in
      if nextBlockTail \<noteq> blockFront then
        res_bind (construct blockTail x tb) (\<lambda>tb'.
        Inr (True, set_block t (tb'\<lparr>blk_tail := nextBlockTail\<rparr>) q))
      else if blk_next tb \<noteq> Some (frontBlock q) then
        res_bind (deref (blk_next tb)) (\<lambda>n.
        res_bind (get_block n q) (\<lambda>nb.
        let nextBlockFront = blk_front nb;
            nextBlockTail = blk_tail nb in
        if nextBlockFront \<noteq> nextBlockTail then Inl Assert_Failed
        else res_bind (construct nextBlockTail x nb) (\<lambda>nb'.
          Inr (True, (set_block n (nb'\<lparr>blk_tail := (nextBlockTail + 1) AND sizeMask nb'\<rparr>) q)
                     \<lparr>tailBlock := n\<rparr>))))
      else case canAlloc of
        CanAlloc \<Rightarrow>
          res_bind (make_block ly malloc (largestBlockSize q * 2)) (\<lambda>newBlock.
          case newBlock of
            None \<Rightarrow> Inr (False, q)
          | Some nb \<Rightarrow>
              let a = length (blocks q);
                  q = q\<lparr>largestBlockSize := largestBlockSize q * 2\<rparr> in
              res_bind (construct 0 x nb) (\<lambda>nb.
              if blk_front nb \<noteq> 0 then Inl Assert_Failed
              else
                let nb = nb\<lparr>blk_tail := 1, blk_next := blk_next tb\<rparr>;
                    tb = tb\<lparr>blk_next := Some a\<rparr> in
                Inr (True, (set_block t tb q)\<lparr>blocks := blocks (set_block t tb q) @ [nb],
                       tailBlock := a\<rparr>)))
      | CannotAlloc \<Rightarrow> Inr (False, q)))"

definition inner_enqueue ::
  "layout \<Rightarrow> (u64 \<Rightarrow> u64) \<Rightarrow> alloc_mode \<Rightarrow> 'a \<Rightarrow> 'a rwq \<Rightarrow> (bool \<times> 'a rwq) res" where
  "inner_enqueue ly malloc canAlloc x = guard_enqueuing (enqueue_body ly malloc canAlloc x)"

definition try_enqueue :: "layout \<Rightarrow> (u64 \<Rightarrow> u64) \<Rightarrow> 'a \<Rightarrow> 'a rwq \<Rightarrow> (bool \<times> 'a rwq) res" where
  "try_enqueue ly malloc = inner_enqueue ly malloc CannotAlloc"

definition enqueue :: "layout \<Rightarrow> (u64 \<Rightarrow> u64) \<Rightarrow> 'a \<Rightarrow> 'a rwq \<Rightarrow> (bool \<times> 'a rwq) res" where
  "enqueue ly malloc = inner_enqueue ly malloc CanAlloc"

text \<open>The result is the value moved into the argument, or \<open>None\<close> for false.\<close>

definition dequeue_body :: "'a rwq \<Rightarrow> ('a option \<times> 'a rwq) res" where
  "dequeue_body q =
     (let tailBlockAtStart = tailBlock q;
          f = frontBlock q in
      res_bind (get_block f q) (\<lambda>fb.
      let blockTail = blk_tail fb;
          blockFront = blk_front fb in
      if blockFront \<noteq> blockTail then
        res_bind (element_at blockFront fb) (\<lambda>x.
        res_bind (destroy blockFront fb) (\<lambda>fb'.
        let blockFront = (blockFront + 1) AND sizeMask fb' in
        Inr (Some x, set_block f (fb'\<lparr>blk_front := blockFront\<rparr>) q)))
      else if f \<noteq> tailBlockAtStart then
        res_bind (deref (blk_next fb)) (\<lambda>n.
        res_bind (get_block n q) (\<lambda>nb.
        let nextBlockFront = blk_front nb;
            nextBlockTail = blk_tail nb in
        if nextBlockFront = nextBlockTail then Inl Assert_Failed
        else
          let q = q\<lparr>frontBlock := n\<rparr> in
          res_bind (element_at nextBlockFront nb) (\<lambda>x.
          res_bind (destroy nextBlockFront nb) (\<lambda>nb'.
          let nextBlockFront = (nextBlockFront + 1) AND sizeMask nb' in
          Inr (Some x, set_block n (nb'\<lparr>blk_front := nextBlockFront\<rparr>) q)))))
      else Inr (None, q)))"

definition try_dequeue :: "'a rwq \<Rightarrow> ('a option \<times> 'a rwq) res" where
  "try_dequeue = guard_dequeuing dequeue_body"

text \<open>The pointer returned: a block and the index of a slot, or \<open>None\<close> for \<open>nullptr\<close>.\<close>

definition peek_body :: "'a rwq \<Rightarrow> ((nat \<times> u64) option \<times> 'a rwq) res" where
  "peek_body q =
     (let tailBlockAtStart = tailBlock q;
          f = frontBlock q in
      res_bind (get_block f q) (\<lambda>fb.
      let blockTail = blk_tail fb;
          blockFront = blk_front fb in
      if blockFront \<noteq> blockTail then Inr (Some (f, blockFront), q)
      else if f \<noteq> tailBlockAtStart then
        res_bind (deref (blk_next fb)) (\<lambda>n.
        res_bind (get_block n q) (\<lambda>nb.
        let nextBlockFront = blk_front nb in
        if nextBlockFront = blk_tail nb then Inl Assert_Failed
        else Inr (Some (n, nextBlockFront), q)))
      else Inr (None, q)))"

definition peek :: "'a rwq \<Rightarrow> ((nat \<times> u64) option \<times> 'a rwq) res" where
  "peek = guard_dequeuing peek_body"

definition pop_body :: "'a rwq \<Rightarrow> (bool \<times> 'a rwq) res" where
  "pop_body q =
     (let tailBlockAtStart = tailBlock q;
          f = frontBlock q in
      res_bind (get_block f q) (\<lambda>fb.
      let blockTail = blk_tail fb;
          blockFront = blk_front fb in
      if blockFront \<noteq> blockTail then
        res_bind (destroy blockFront fb) (\<lambda>fb'.
        let blockFront = (blockFront + 1) AND sizeMask fb' in
        Inr (True, set_block f (fb'\<lparr>blk_front := blockFront\<rparr>) q))
      else if f \<noteq> tailBlockAtStart then
        res_bind (deref (blk_next fb)) (\<lambda>n.
        res_bind (get_block n q) (\<lambda>nb.
        let nextBlockFront = blk_front nb;
            nextBlockTail = blk_tail nb in
        if nextBlockFront = nextBlockTail then Inl Assert_Failed
        else
          let q = q\<lparr>frontBlock := n\<rparr> in
          res_bind (destroy nextBlockFront nb) (\<lambda>nb'.
          let nextBlockFront = (nextBlockFront + 1) AND sizeMask nb' in
          Inr (True, set_block n (nb'\<lparr>blk_front := nextBlockFront\<rparr>) q))))
      else Inr (False, q)))"

definition pop :: "'a rwq \<Rightarrow> (bool \<times> 'a rwq) res" where
  "pop = guard_dequeuing pop_body"

text \<open>
  The do-while loops follow the \<open>next\<close> pointers until they are back at the front block; the
  fuel bounds the blocks they visit.
\<close>

fun size_loop :: "nat \<Rightarrow> 'a rwq \<Rightarrow> nat \<Rightarrow> u64 \<Rightarrow> u64 res" where
  "size_loop 0 q a result = Inl Out_Of_Fuel"
| "size_loop (Suc fuel) q a result =
     res_bind (get_block a q) (\<lambda>b.
     let blockFront = blk_front b;
         blockTail = blk_tail b;
         result = result + ((blockTail - blockFront) AND sizeMask b) in
     res_bind (deref (blk_next b)) (\<lambda>n.
     if n \<noteq> frontBlock q then size_loop fuel q n result else Inr result))"

definition size_approx :: "nat \<Rightarrow> 'a rwq \<Rightarrow> u64 res" where
  "size_approx fuel q = size_loop fuel q (frontBlock q) 0"

text \<open>
  The destructor: the elements destroyed, in order, and the blocks freed, in order. A block
  that has been freed is not read again.
\<close>

fun destroy_loop :: "nat \<Rightarrow> u64 \<Rightarrow> u64 \<Rightarrow> 'a block \<Rightarrow> 'a list \<Rightarrow> 'a list res" where
  "destroy_loop 0 i blockTail b out = Inl Out_Of_Fuel"
| "destroy_loop (Suc fuel) i blockTail b out =
     (if i \<noteq> blockTail
      then res_bind (element_at i b) (\<lambda>x.
           res_bind (destroy i b) (\<lambda>b'.
           destroy_loop fuel ((i + 1) AND sizeMask b') blockTail b' (out @ [x])))
      else Inr out)"

fun free_loop :: "nat \<Rightarrow> 'a rwq \<Rightarrow> nat \<Rightarrow> nat list \<Rightarrow> 'a list \<Rightarrow> (nat list \<times> 'a list) res" where
  "free_loop 0 q a freed out = Inl Out_Of_Fuel"
| "free_loop (Suc fuel) q a freed out =
     (if a \<in> set freed then Inl Dead_Object
      else res_bind (get_block a q) (\<lambda>b.
        res_bind (deref (blk_next b)) (\<lambda>nextBlock.
        res_bind (destroy_loop (Suc (length (blk_data b))) (blk_front b) (blk_tail b) b out) (\<lambda>out.
        if nextBlock \<noteq> frontBlock q then free_loop fuel q nextBlock (freed @ [a]) out
        else Inr (freed @ [a], out)))))"

definition ReaderWriterQueue_destroy :: "nat \<Rightarrow> 'a rwq \<Rightarrow> (nat list \<times> 'a list) res" where
  "ReaderWriterQueue_destroy fuel q = free_loop fuel q (frontBlock q) [] []"

end
