(* ===== verification/RW_Block.thy ===== *)
theory RW_Block
  imports RW_Queue
begin

text \<open>
  One block of the queue as a list of at most \<open>size - 1\<close> elements: the representation relation
  \<open>block_rep\<close>, what constructing at the tail and destroying at the front do to the list, the
  number of elements as the code computes it, and the rounding and alignment functions.
\<close>

section \<open>Circular indices\<close>

lemma circ_index:
  fixes f n :: nat
  assumes "f < n" and "i < n"
  obtains j where "j < n" and "i = (f + j) mod n"
proof -
  have "(f + (i + n - f) mod n) mod n = (f + (i + n - f)) mod n" by (rule mod_add_right_eq)
  also have "\<dots> = i" using assms by simp
  finally show ?thesis using that [of "(i + n - f) mod n"] assms by simp
qed

lemma circ_inj:
  fixes f n :: nat
  assumes "j < n" and "k < n" and "(f + j) mod n = (f + k) mod n"
  shows "j = k"
proof -
  have "(j + f) mod n = (k + f) mod n" using assms(3) by (simp add: add.commute)
  then obtain q1 q2 where "j + f + n * q1 = k + f + n * q2" by (auto simp: nat_mod_eq_iff)
  then have "j mod n = k mod n" by (metis add.assoc add.commute add_left_cancel mod_mult_self2)
  then show ?thesis using assms(1,2) by simp
qed

lemma circ_distance:
  fixes f n :: nat
  assumes "f < n" and "k < n"
  shows "((f + k) mod n + n - f) mod n = k"
proof (cases "f + k < n")
  case True
  then show ?thesis using assms by simp
next
  case False
  then have "(f + k) mod n = f + k - n" using assms by (simp add: mod_if)
  then show ?thesis using False assms by simp
qed

section \<open>The representation\<close>

definition block_rep :: "'a block \<Rightarrow> 'a list \<Rightarrow> bool" where
  "block_rep b xs \<longleftrightarrow>
     (\<exists>k. 1 \<le> k \<and> k < 64 \<and> blk_size b = 2 ^ k \<and> length (blk_data b) = 2 ^ k) \<and>
     length xs < length (blk_data b) \<and>
     unat (blk_front b) < length (blk_data b) \<and>
     unat (blk_tail b) = (unat (blk_front b) + length xs) mod length (blk_data b) \<and>
     (\<forall>j < length (blk_data b).
        blk_data b ! ((unat (blk_front b) + j) mod length (blk_data b)) =
          (if j < length xs then Some (xs ! j) else None))"

text \<open>The elements of a block, computed.\<close>

definition block_elems :: "'a block \<Rightarrow> 'a list" where
  "block_elems b =
     (let n = length (blk_data b); f = unat (blk_front b) in
      map (\<lambda>j. the (blk_data b ! ((f + j) mod n))) [0..<(unat (blk_tail b) + n - f) mod n])"

lemma block_rep_elems:
  assumes "block_rep b xs"
  shows "block_elems b = xs"
proof -
  define n f where "n = length (blk_data b)" and "f = unat (blk_front b)"
  have n: "length xs < n" "f < n" "unat (blk_tail b) = (f + length xs) mod n"
    and d: "\<forall>j<n. blk_data b ! ((f + j) mod n) = (if j < length xs then Some (xs ! j) else None)"
    using assms by (auto simp: block_rep_def n_def f_def)
  have "(unat (blk_tail b) + n - f) mod n = length xs"
    using circ_distance [OF n(2,1)] n(3) by simp
  then have "block_elems b = map (\<lambda>j. the (blk_data b ! ((f + j) mod n))) [0..<length xs]"
    by (simp add: block_elems_def n_def f_def Let_def)
  also have "\<dots> = map (\<lambda>j. xs ! j) [0..<length xs]" using d n(1) by simp
  also have "\<dots> = xs" by (rule map_nth)
  finally show ?thesis .
qed

lemma block_rep_next [simp]: "block_rep (b\<lparr>blk_next := p\<rparr>) xs = block_rep b xs"
  by (simp add: block_rep_def)

lemma block_elems_next [simp]: "block_elems (b\<lparr>blk_next := p\<rparr>) = block_elems b"
  by (simp add: block_elems_def)

lemma block_rep_Block:
  assumes "1 \<le> k" and "k < 64"
  shows "block_rep (Block (2 ^ k) (2 ^ k)) []"
  using assms by (auto simp: block_rep_def Block_def)

section \<open>The words of a block\<close>

lemma unat_pow2: "k < 64 \<Longrightarrow> unat (2 ^ k :: u64) = 2 ^ k"
proof -
  assume "k < 64"
  then have "(2 :: nat) ^ k < 2 ^ LENGTH(64)" by (intro power_strict_increasing) simp_all
  from unat_of_nat_small [OF this] show ?thesis by simp
qed

text \<open>The increment of an index, masked, is the successor on the circle.\<close>

lemma index_next:
  assumes "block_rep b xs" and "unat i < length (blk_data b)"
  shows "unat ((i + 1) AND sizeMask b) = (unat i + 1) mod length (blk_data b)"
proof -
  obtain k where k: "k < 64" "blk_size b = 2 ^ k" "length (blk_data b) = 2 ^ k"
    using assms(1) by (auto simp: block_rep_def)
  have "(2 :: nat) ^ k \<le> 2 ^ 63" using k(1) by (intro power_increasing) auto
  then have "unat i + 1 < 2 ^ 64" using assms(2) k(3) by simp
  then have "unat (i + 1) = unat i + 1" by (simp add: unat_add_no_wrap)
  then show ?thesis using k by (simp add: sizeMask_def unat_and_pow2_minus_1)
qed

text \<open>The masked difference of the indices is the number of elements.\<close>

lemma count_elems:
  assumes "block_rep b xs"
  shows "(blk_tail b - blk_front b) AND sizeMask b = of_nat (length xs)"
proof -
  obtain k where k: "k < 64" "blk_size b = 2 ^ k" "length (blk_data b) = 2 ^ k"
    using assms(1) by (auto simp: block_rep_def)
  let ?f = "unat (blk_front b)" and ?t = "unat (blk_tail b)" and ?n = "2 ^ k :: nat"
  have r: "length xs < ?n" "?f < ?n" "?t = (?f + length xs) mod ?n"
    using assms k by (auto simp: block_rep_def)
  have "unat ((blk_tail b - blk_front b) AND sizeMask b) = unat (blk_tail b - blk_front b) mod ?n"
    using k by (simp add: sizeMask_def unat_and_pow2_minus_1)
  also have "\<dots> = (?t + ?n - ?f) mod ?n"
  proof (cases "?f \<le> ?t")
    case True
    then have "?t + ?n - ?f = (?t - ?f) + ?n" by simp
    then have "(?t + ?n - ?f) mod ?n = (?t - ?f) mod ?n" by (simp only: mod_add_self2)
    then show ?thesis using True by (simp add: unat_sub_if')
  next
    case False
    have "2 ^ 64 = ?n * 2 ^ (64 - k)" using k(1) by (simp flip: power_add)
    moreover obtain m where "(2 :: nat) ^ (64 - k) = Suc m"
      by (metis not0_implies_Suc power_not_zero zero_neq_numeral)
    ultimately have m: "2 ^ 64 = ?n + ?n * m" by simp
    have "unat (blk_tail b - blk_front b) = ?t + 2 ^ 64 - ?f"
      using False by (simp add: unat_sub_if')
    also have "\<dots> = (?t + ?n - ?f) + ?n * m" using r(2) by (simp only: m)
    finally show ?thesis by (simp only: mod_mult_self2)
  qed
  also have "\<dots> = length xs" using circ_distance [OF r(2,1)] r(3) by simp
  finally have "unat ((blk_tail b - blk_front b) AND sizeMask b) = length xs" .
  then show ?thesis
    using unat_less_pow [of "(blk_tail b - blk_front b) AND sizeMask b"]
    by (simp only: word_unat_eq_iff unat_of_nat_small)
qed

lemma block_full_iff:
  assumes "block_rep b xs"
  shows "(blk_tail b + 1) AND sizeMask b = blk_front b \<longleftrightarrow> length xs + 1 = length (blk_data b)"
proof -
  let ?f = "unat (blk_front b)" and ?n = "length (blk_data b)"
  have r: "length xs < ?n" "?f < ?n" "unat (blk_tail b) = (?f + length xs) mod ?n"
    using assms by (auto simp: block_rep_def)
  have "unat ((blk_tail b + 1) AND sizeMask b) = (unat (blk_tail b) + 1) mod ?n"
    using assms r by (intro index_next) (auto intro!: mod_less_divisor simp: r(3))
  also have "\<dots> = (?f + (length xs + 1)) mod ?n" by (simp add: r(3) mod_Suc_eq)
  finally have "(blk_tail b + 1) AND sizeMask b = blk_front b \<longleftrightarrow> (?f + (length xs + 1)) mod ?n = ?f"
    by (simp add: word_unat_eq_iff)
  also have "\<dots> \<longleftrightarrow> length xs + 1 = ?n"
  proof (cases "length xs + 1 < ?n")
    case True
    have "(?f + 0) mod ?n = ?f" using r(2) by simp
    then have "(?f + (length xs + 1)) mod ?n \<noteq> ?f"
      using circ_inj [OF True, of 0 ?f] r(1) by (metis add_is_0 gr_zeroI less_nat_zero_code one_neq_zero)
    then show ?thesis using True by simp
  next
    case False
    then have "length xs + 1 = ?n" using r(1) by simp
    then show ?thesis using r(2) by simp
  qed
  finally show ?thesis .
qed

lemma block_empty_iff:
  assumes "block_rep b xs"
  shows "blk_front b = blk_tail b \<longleftrightarrow> xs = []"
proof -
  let ?f = "unat (blk_front b)" and ?n = "length (blk_data b)"
  have r: "length xs < ?n" "?f < ?n" "unat (blk_tail b) = (?f + length xs) mod ?n"
    using assms by (auto simp: block_rep_def)
  have "blk_front b = blk_tail b \<longleftrightarrow> (?f + 0) mod ?n = (?f + length xs) mod ?n"
    using r by (simp add: word_unat_eq_iff)
  also have "\<dots> \<longleftrightarrow> 0 = length xs"
    using circ_inj [of 0 ?n "length xs" ?f] r(1) by (metis less_nat_zero_code neq0_conv)
  finally show ?thesis by auto
qed


section \<open>Operations on a block\<close>

text \<open>Constructing at the tail and moving the tail appends.\<close>

lemma block_push:
  assumes "block_rep b xs" and "length xs + 1 \<noteq> length (blk_data b)"
  obtains b' where "construct (blk_tail b) x b = Inr b'"
    and "sizeMask b' = sizeMask b" and "blk_next b' = blk_next b" and "blk_size b' = blk_size b"
    and "block_rep (b'\<lparr>blk_tail := (blk_tail b + 1) AND sizeMask b\<rparr>) (xs @ [x])"
proof -
  define n f where "n = length (blk_data b)" and "f = unat (blk_front b)"
  have r: "length xs < n" "f < n" "unat (blk_tail b) = (f + length xs) mod n"
    and d: "\<forall>j<n. blk_data b ! ((f + j) mod n) = (if j < length xs then Some (xs ! j) else None)"
    and k: "\<exists>k. 1 \<le> k \<and> k < 64 \<and> blk_size b = 2 ^ k \<and> n = 2 ^ k"
    using assms(1) by (auto simp: block_rep_def n_def f_def)
  have room: "length xs + 1 < n" using r(1) assms(2) by (simp add: n_def)
  define t where "t = (f + length xs) mod n"
  have t: "t < n" "unat (blk_tail b) = t" using r by (auto simp: t_def intro!: mod_less_divisor)
  define b' where "b' = b\<lparr>blk_data := (blk_data b)[t := Some x]\<rparr>"
  have next': "unat ((blk_tail b + 1) AND sizeMask b) = (f + length (xs @ [x])) mod n"
    using index_next [OF assms(1), of "blk_tail b"] t by (simp add: n_def [symmetric] t_def mod_Suc_eq)
  have slots: "(blk_data b)[t := Some x] ! ((f + j) mod n) =
      (if j < length (xs @ [x]) then Some ((xs @ [x]) ! j) else None)" if "j < n" for j
  proof (cases "j = length xs")
    case True
    then show ?thesis using t by (simp add: t_def [symmetric] n_def [symmetric])
  next
    case False
    then have "t \<noteq> (f + j) mod n" using circ_inj [OF r(1) that, of f] by (auto simp: t_def)
    then show ?thesis using d that False by (auto simp: nth_append)
  qed
  have "block_rep (b'\<lparr>blk_tail := (blk_tail b + 1) AND sizeMask b\<rparr>) (xs @ [x])"
    using k room r(2) next' slots unfolding block_rep_def
    by (simp add: b'_def n_def [symmetric] f_def [symmetric])
  moreover have "construct (blk_tail b) x b = Inr b'"
    using t by (simp add: construct_def b'_def n_def)
  ultimately show ?thesis using that by (simp add: b'_def sizeMask_def)
qed

text \<open>Reading and destroying at the front and moving the front removes the head.\<close>

lemma block_pop:
  assumes "block_rep b (x # xs)"
  obtains b' where "element_at (blk_front b) b = Inr x" and "destroy (blk_front b) b = Inr b'"
    and "sizeMask b' = sizeMask b" and "blk_next b' = blk_next b" and "blk_size b' = blk_size b"
    and "block_rep (b'\<lparr>blk_front := (blk_front b + 1) AND sizeMask b\<rparr>) xs"
proof -
  define n f where "n = length (blk_data b)" and "f = unat (blk_front b)"
  have r: "length xs + 1 < n" "f < n" "unat (blk_tail b) = (f + length (x # xs)) mod n"
    and d: "\<forall>j<n. blk_data b ! ((f + j) mod n) = (if j < length (x # xs) then Some ((x # xs) ! j) else None)"
    and k: "\<exists>k. 1 \<le> k \<and> k < 64 \<and> blk_size b = 2 ^ k \<and> n = 2 ^ k"
    using assms by (auto simp: block_rep_def n_def f_def)
  define b' where "b' = b\<lparr>blk_data := (blk_data b)[f := None]\<rparr>"
  have "blk_data b ! ((f + 0) mod n) = Some x" using d r(1) by fastforce
  then have el: "element_at (blk_front b) b = Inr x"
    using r(2) by (simp add: element_at_def n_def f_def)
  define f' where "f' = (f + 1) mod n"
  have f': "unat ((blk_front b + 1) AND sizeMask b) = f'" "f' < n"
    using index_next [OF assms, of "blk_front b"] r by (simp_all add: n_def [symmetric] f_def f'_def)
  have shift: "(f' + j) mod n = (f + Suc j) mod n" for j
    by (simp add: f'_def mod_add_left_eq [of "f + 1", symmetric] flip: add_Suc_right) (simp add: mod_add_left_eq)
  have slots: "(blk_data b)[f := None] ! ((f' + j) mod n) = (if j < length xs then Some (xs ! j) else None)"
    if "j < n" for j
  proof (cases "Suc j < n")
    case True
    have "f \<noteq> (f + Suc j) mod n"
      using circ_inj [of 0 n "Suc j" f] True r(2) by auto
    then show ?thesis using d [rule_format, OF True] by (simp add: shift)
  next
    case False
    then have "Suc j = n" using that by simp
    then have "(f' + j) mod n = f" using r(2) by (simp add: shift)
    then show ?thesis using r \<open>Suc j = n\<close> by (simp add: n_def)
  qed
  have "block_rep (b'\<lparr>blk_front := (blk_front b + 1) AND sizeMask b\<rparr>) xs"
    using k r f' slots shift [of "length xs"] unfolding block_rep_def
    by (simp add: b'_def n_def [symmetric] f_def [symmetric])
  moreover have "destroy (blk_front b) b = Inr b'"
    using el by (simp add: destroy_def b'_def f_def)
  ultimately show ?thesis using that el by (simp add: b'_def sizeMask_def)
qed

end
