(* ===== verification/RW_Memory.thy ===== *)
theory RW_Memory
  imports RW_Block
begin

text \<open>
  Rounding to a power of two, alignment, and the block \<open>make_block\<close> lays out in the memory it
  gets. \<open>malloc_ok\<close> is the documented behaviour of \<open>malloc\<close> on a 64-bit system: an object is
  smaller than \<open>PTRDIFF_MAX + 1 = 2 ^ 63\<close> bytes and lies inside the address space.
\<close>

section \<open>ceilToPow2\<close>

text \<open>After each step a bit is set if one is set in a window above it, twice as wide.\<close>

definition smeared :: "nat \<Rightarrow> u64 \<Rightarrow> u64 \<Rightarrow> bool" where
  "smeared w y x \<longleftrightarrow> (\<forall>n. bit x n \<longleftrightarrow> (\<exists>m. n \<le> m \<and> m < n + w \<and> bit y m))"

lemma smeared_1: "smeared 1 y y"
  by (auto simp: smeared_def) (metis le_antisym less_Suc_eq_le)

lemma smeared_step:
  assumes "smeared w y x"
  shows "smeared (w + w) y (smear_step w x)"
  unfolding smeared_def
proof
  fix n
  have "bit (smear_step w x) n \<longleftrightarrow> bit x n \<or> bit x (w + n)"
    by (simp add: smear_step_def bit_or_iff bit_drop_bit_eq)
  also have "\<dots> \<longleftrightarrow> (\<exists>m. n \<le> m \<and> m < n + (w + w) \<and> bit y m)"
  proof
    assume "bit x n \<or> bit x (w + n)"
    then show "\<exists>m. n \<le> m \<and> m < n + (w + w) \<and> bit y m"
    proof
      assume "bit x n"
      then obtain m where "n \<le> m" "m < n + w" "bit y m" using assms unfolding smeared_def by blast
      then show ?thesis by (intro exI [of _ m]) simp
    next
      assume "bit x (w + n)"
      then obtain m where "w + n \<le> m" "m < w + n + w" "bit y m" using assms unfolding smeared_def by blast
      then show ?thesis by (intro exI [of _ m]) simp
    qed
  next
    assume "\<exists>m. n \<le> m \<and> m < n + (w + w) \<and> bit y m"
    then obtain m where m: "n \<le> m" "m < n + (w + w)" "bit y m" by blast
    show "bit x n \<or> bit x (w + n)"
    proof (cases "m < n + w")
      case True
      then show ?thesis using m assms unfolding smeared_def by blast
    next
      case False
      then have "w + n \<le> m" "m < w + n + w" using m by simp_all
      then show ?thesis using m(3) assms unfolding smeared_def by blast
    qed
  qed
  finally show "bit (smear_step w x) n \<longleftrightarrow> (\<exists>m. n \<le> m \<and> m < n + (w + w) \<and> bit y m)" .
qed

lemma smeared_chain:
  "smeared 64 y (fold (\<lambda>i. smear_step (push_bit 3 i)) [1, 2, 4] (smear_step 4 (smear_step 2 (smear_step 1 y))))"
proof -
  have "smeared 8 y (smear_step 4 (smear_step 2 (smear_step 1 y)))"
    using smeared_step [OF smeared_step [OF smeared_step [OF smeared_1 [of y]]]]
    by (simp add: numeral_eq_Suc)
  from smeared_step [OF smeared_step [OF smeared_step [OF this]]]
  show ?thesis by (simp add: push_bit_eq_mult)
qed

lemma top_bit:
  fixes y :: u64
  assumes "y \<noteq> 0"
  obtains p where "p < 64" and "bit y p" and "\<forall>m. p < m \<longrightarrow> \<not> bit y m"
    and "2 ^ p \<le> unat y" and "unat y < 2 ^ Suc p"
proof -
  define S where "S = {n. bit y n}"
  have S: "S \<subseteq> {..<64}" by (auto simp: S_def dest: bit_imp_le_length)
  then have fin: "finite S" by (rule finite_subset) simp
  have "S \<noteq> {}" using assms by (auto simp: S_def bit_eq_iff)
  then have p: "Max S \<in> S" using fin by simp
  have above: "\<not> bit y m" if "Max S < m" for m
    using that Max_ge [OF fin, of m] unfolding S_def by (metis mem_Collect_eq not_le)
  have "bit (unat y) (Max S)" using p by (simp add: S_def bit_unsigned_iff)
  then have "unat y div 2 ^ Max S \<noteq> 0" by (metis bit_iff_odd even_zero)
  then have low: "2 ^ Max S \<le> unat y" by (metis div_less not_le)
  have "take_bit (Suc (Max S)) y = y"
  proof (rule bit_eqI)
    fix n
    show "bit (take_bit (Suc (Max S)) y) n \<longleftrightarrow> bit y n"
      using above [of n] by (cases "Max S < n") (simp_all add: bit_take_bit_iff)
  qed
  then have "unat y = take_bit (Suc (Max S)) (unat y)" by (metis unsigned_take_bit_eq)
  then have "unat y < 2 ^ Suc (Max S)" by (metis take_bit_nat_less_exp)
  moreover have "Max S < 64" using p S by blast
  moreover have "bit y (Max S)" using p unfolding S_def by (rule CollectD)
  ultimately show ?thesis using that [of "Max S"] above low by blast
qed

lemma smeared_mask:
  assumes "smeared 64 y z" and "bit y p" and "\<And>m. p < m \<Longrightarrow> \<not> bit y m"
  shows "z = mask (Suc p)"
proof (rule bit_eqI)
  fix n
  have "m < n + 64" if "bit y m" for m using bit_imp_le_length [OF that] by simp
  then have "bit z n \<longleftrightarrow> (\<exists>m. n \<le> m \<and> bit y m)"
    using assms(1) unfolding smeared_def by blast
  also have "\<dots> \<longleftrightarrow> n \<le> p" using assms(2,3) by (meson le_trans not_le)
  also have "\<dots> \<longleftrightarrow> bit (mask (Suc p) :: u64) n"
    using bit_imp_le_length [OF assms(2)] by (auto simp: bit_mask_iff)
  finally show "bit z n \<longleftrightarrow> bit (mask (Suc p) :: u64) n" .
qed

lemma ceilToPow2_least:
  assumes "1 \<le> unat x" and "unat x \<le> 2 ^ 63"
  obtains k where "k < 64" and "ceilToPow2 x = 2 ^ k" and "unat x \<le> 2 ^ k"
    and "\<And>j. unat x \<le> 2 ^ j \<Longrightarrow> k \<le> j"
proof -
  define y where "y = x - 1"
  have y: "unat y = unat x - 1"
    using assms(1) by (simp add: y_def unat_sub_no_wrap word_le_nat_alt)
  define z where "z = fold (\<lambda>i. smear_step (push_bit 3 i)) [1, 2, 4]
      (smear_step 4 (smear_step 2 (smear_step 1 y)))"
  have c: "ceilToPow2 x = z + 1" by (simp add: ceilToPow2_def y_def z_def Let_def)
  have z: "smeared 64 y z" unfolding z_def by (rule smeared_chain)
  show ?thesis
  proof (cases "y = 0")
    case True
    then have "\<not> bit z n" for n using z by (simp add: smeared_def)
    then have "z = 0" by (simp add: bit_eq_iff)
    moreover have "unat x = 1" using y True assms(1) by simp
    ultimately show ?thesis using that [of 0] c by simp
  next
    case False
    then obtain p where p: "p < 64" "bit y p" "\<forall>m. p < m \<longrightarrow> \<not> bit y m"
      "2 ^ p \<le> unat y" "unat y < 2 ^ Suc p" by (rule top_bit)
    have "z = mask (Suc p)" using z p(2) p(3) [rule_format] by (rule smeared_mask)
    then have "z + 1 = 2 ^ Suc p" by (simp add: mask_eq_exp_minus_1)
    moreover have "p < 63"
    proof (rule ccontr)
      assume "\<not> p < 63"
      then have "(2 :: nat) ^ 63 \<le> 2 ^ p" by (intro power_increasing) auto
      then show False using p(4) y assms by linarith
    qed
    moreover have "Suc p \<le> j" if "unat x \<le> 2 ^ j" for j
    proof (rule ccontr)
      assume "\<not> Suc p \<le> j"
      then have "(2 :: nat) ^ j \<le> 2 ^ p" by (intro power_increasing) auto
      then show False using p(4) y that assms(1) by linarith
    qed
    ultimately show ?thesis using that [of "Suc p"] c p(5) y by simp
  qed
qed

section \<open>Alignment\<close>

lemma align_nat:
  fixes a p :: nat
  assumes "0 < a"
  shows "a dvd p + (a - p mod a) mod a"
proof -
  have "(p + (a - p mod a) mod a) mod a = (p mod a + (a - p mod a)) mod a"
    by (simp only: mod_add_left_eq mod_add_right_eq)
  also have "p mod a + (a - p mod a) = a" using mod_less_divisor [OF assms, of p] by linarith
  finally have "(p + (a - p mod a) mod a) mod a = 0" by (simp only: mod_self)
  then show ?thesis by (rule mod_0_imp_dvd)
qed

lemma align_for_spec:
  assumes "0 < unat a" and "unat p + unat a \<le> 2 ^ 64"
  shows "unat p \<le> unat (align_for a p)" and "unat (align_for a p) < unat p + unat a"
    and "unat a dvd unat (align_for a p)"
proof -
  have pm: "unat (p mod a) = unat p mod unat a" by (rule unat_mod)
  have "unat p mod unat a < unat a" using assms(1) by (rule mod_less_divisor)
  then have "unat (p mod a) \<le> unat a" unfolding pm by (rule less_imp_le)
  then have "unat (a - p mod a) = unat a - unat (p mod a)"
    by (intro unat_sub_no_wrap) (simp only: word_le_nat_alt)
  then have r: "unat ((a - p mod a) mod a) = (unat a - unat p mod unat a) mod unat a"
    by (simp only: unat_mod)
  moreover have "\<dots> < unat a" using assms(1) by simp
  ultimately have "unat (align_for a p) = unat p + (unat a - unat p mod unat a) mod unat a"
    using assms(2) unfolding align_for_def by (subst unat_add_no_wrap) simp_all
  then show "unat p \<le> unat (align_for a p)" "unat (align_for a p) < unat p + unat a"
    "unat a dvd unat (align_for a p)"
    using assms(1) align_nat by simp_all
qed

section \<open>make_block\<close>

definition layout_ok :: "layout \<Rightarrow> bool" where
  "layout_ok ly \<longleftrightarrow> 0 < unat (sizeof_Block ly) \<and> 0 < unat (alignof_Block ly) \<and>
     0 < unat (sizeof_T ly) \<and> 0 < unat (alignof_T ly)"

definition malloc_ok :: "(u64 \<Rightarrow> u64) \<Rightarrow> bool" where
  "malloc_ok malloc \<longleftrightarrow>
     (\<forall>n. malloc n \<noteq> 0 \<longrightarrow> unat n < 2 ^ 63 \<and> unat (malloc n) + unat n \<le> 2 ^ 64)"

text \<open>The bytes a block needs, as a number.\<close>

definition bytes_of :: "layout \<Rightarrow> nat \<Rightarrow> nat" where
  "bytes_of ly capacity = (unat (sizeof_Block ly) + unat (alignof_Block ly) - 1)
     + (unat (sizeof_T ly) * capacity + unat (alignof_T ly) - 1)"

lemma unat_block_bytes:
  assumes "layout_ok ly" and "bytes_of ly (unat c) < 2 ^ 64" and "1 \<le> unat c"
  shows "unat (block_bytes ly c) = bytes_of ly (unat c)"
proof -
  let ?B = "unat (sizeof_Block ly)" and ?A = "unat (alignof_Block ly)"
    and ?T = "unat (sizeof_T ly)" and ?L = "unat (alignof_T ly)"
  have pos: "0 < ?B" "0 < ?A" "0 < ?T * unat c" "0 < ?L"
    using assms by (auto simp: layout_ok_def)
  have le: "?B + ?A - 1 + (?T * unat c + ?L - 1) < 2 ^ 64" using assms(2) by (simp add: bytes_of_def)
  have lim: "?B + ?A < 2 ^ 64" "?T * unat c < 2 ^ 64" "?T * unat c + ?L < 2 ^ 64"
    using le pos by linarith+
  have B: "unat (sizeof_Block ly + alignof_Block ly) = ?B + ?A"
    using lim(1) by (intro unat_add_no_wrap) simp
  have T: "unat (sizeof_T ly * c) = ?T * unat c"
    using lim(2) by (intro unat_mult_no_wrap) simp
  have TL: "unat (sizeof_T ly * c + alignof_T ly) = ?T * unat c + ?L"
    using lim(3) T by (subst unat_add_no_wrap) simp_all
  have B1: "unat (sizeof_Block ly + alignof_Block ly - 1) = ?B + ?A - 1"
    using B pos by (subst unat_sub_no_wrap) (simp_all add: word_le_nat_alt)
  have T1: "unat (sizeof_T ly * c + alignof_T ly - 1) = ?T * unat c + ?L - 1"
    using TL pos by (subst unat_sub_no_wrap) (simp_all add: word_le_nat_alt)
  show ?thesis
    unfolding block_bytes_def bytes_of_def using B1 T1 le by (subst unat_add_no_wrap) simp_all
qed

text \<open>Header and slots lie aligned inside the allocation.\<close>

lemma block_layout:
  assumes "layout_ok ly" and "bytes_of ly (unat c) < 2 ^ 64" and "1 \<le> unat c"
    and "unat raw + bytes_of ly (unat c) \<le> 2 ^ 64"
  defines "aligned \<equiv> align_for (alignof_Block ly) raw"
  defines "data \<equiv> align_for (alignof_T ly) (aligned + sizeof_Block ly)"
  shows "unat raw \<le> unat aligned" and "unat (alignof_Block ly) dvd unat aligned"
    and "unat aligned + unat (sizeof_Block ly) \<le> unat data" and "unat (alignof_T ly) dvd unat data"
    and "unat data + unat (sizeof_T ly) * unat c \<le> unat raw + bytes_of ly (unat c)"
proof -
  let ?B = "unat (sizeof_Block ly)" and ?A = "unat (alignof_Block ly)"
    and ?T = "unat (sizeof_T ly)" and ?L = "unat (alignof_T ly)"
  have pos: "0 < ?B" "0 < ?A" "0 < ?T * unat c" "0 < ?L"
    using assms by (auto simp: layout_ok_def)
  have le: "unat raw + (?B + ?A - 1 + (?T * unat c + ?L - 1)) \<le> 2 ^ 64"
    using assms(4) by (simp add: bytes_of_def)
  have "unat raw + ?A \<le> 2 ^ 64" using le pos by linarith
  note al = align_for_spec [OF pos(2) this, folded aligned_def]
  have sum: "unat (aligned + sizeof_Block ly) = unat aligned + ?B"
  proof (rule unat_add_no_wrap)
    have "unat aligned + ?B < 2 ^ 64" using al(2) le pos by linarith
    then show "unat aligned + ?B < 2 ^ LENGTH(64)" by simp
  qed
  have "unat (aligned + sizeof_Block ly) + ?L \<le> 2 ^ 64"
    unfolding sum using al(2) le pos by linarith
  note dl = align_for_spec [OF pos(4) this, folded data_def]
  show "unat raw \<le> unat aligned" "?A dvd unat aligned" using al by simp_all
  show "unat aligned + ?B \<le> unat data" "?L dvd unat data" using dl sum by simp_all
  show "unat data + ?T * unat c \<le> unat raw + bytes_of ly (unat c)"
    using dl(2) al(2) pos unfolding bytes_of_def sum by linarith
qed

lemma make_block_eq:
  assumes "layout_ok ly" and "malloc_ok malloc" and "bytes_of ly (unat c) < 2 ^ 64" and "1 \<le> unat c"
  shows "make_block ly malloc c =
    Inr (if malloc (block_bytes ly c) = 0 then None else Some (Block c (unat c)))"
proof (cases "malloc (block_bytes ly c) = 0")
  case True
  then show ?thesis by (simp add: make_block_def Let_def)
next
  case False
  let ?raw = "malloc (block_bytes ly c)"
  have size: "unat (block_bytes ly c) = bytes_of ly (unat c)"
    using assms(1,3,4) by (rule unat_block_bytes)
  have "unat ?raw + bytes_of ly (unat c) \<le> 2 ^ 64"
    using assms(2) False size by (metis malloc_ok_def)
  note L = block_layout [OF assms(1,3,4) this]
  have T: "0 < unat (sizeof_T ly)" using assms(1) by (simp add: layout_ok_def)
  let ?data = "unat (align_for (alignof_T ly) (align_for (alignof_Block ly) ?raw + sizeof_Block ly))"
  have "unat c * unat (sizeof_T ly) \<le> unat ?raw + bytes_of ly (unat c) - ?data"
    using L(5) by (simp add: mult.commute)
  then have "unat c \<le> (unat ?raw + bytes_of ly (unat c) - ?data) div unat (sizeof_T ly)"
    using T by (simp add: less_eq_div_iff_mult_less_eq)
  then have "min (unat c) ((unat ?raw + bytes_of ly (unat c) - ?data) div unat (sizeof_T ly)) = unat c"
    by simp
  moreover have "\<not> unat ?raw + bytes_of ly (unat c) < unat (align_for (alignof_Block ly) ?raw) + unat (sizeof_Block ly)"
    using L(3,5) by linarith
  ultimately show ?thesis using False by (simp add: make_block_def Let_def size)
qed

end
