(* ===== verification/RW_Refine.thy ===== *)
theory RW_Refine
  imports RW_Memory
begin

text \<open>
  The ring of blocks as a list. \<open>rwq_rep ly q pre post\<close>: following \<open>next\<close> from the front block
  visits the blocks \<open>pre\<close>, up to the tail block, then the free blocks \<open>post\<close>, and is back at
  the front; every block is on the ring once; the blocks of \<open>pre\<close> after the first are not
  empty, those of \<open>post\<close> are. Each operation is shown to keep the relation and to do to the
  list of elements what a queue does.
\<close>

section \<open>The ring\<close>

fun links :: "'a block list \<Rightarrow> nat list \<Rightarrow> bool" where
  "links bs (a # b # r) \<longleftrightarrow> blk_next (bs ! a) = Some b \<and> links bs (b # r)"
| "links bs _ \<longleftrightarrow> True"

lemma links_append: "links bs (xs @ a # ys) \<longleftrightarrow> links bs (xs @ [a]) \<and> links bs (a # ys)"
proof (induction xs)
  case (Cons x xs)
  then show ?case by (cases xs) auto
qed simp

lemma links_cong:
  assumes "\<And>a. a \<in> set (butlast xs) \<Longrightarrow> blk_next (bs ! a) = blk_next (bs' ! a)"
  shows "links bs xs \<longleftrightarrow> links bs' xs"
  using assms by (induction bs xs rule: links.induct) auto

definition elems :: "'a rwq \<Rightarrow> nat \<Rightarrow> 'a list" where
  "elems q a = block_elems (blocks q ! a)"

definition items :: "'a rwq \<Rightarrow> nat list \<Rightarrow> 'a list" where
  "items q pre = concat (map (elems q) pre)"

definition ring_ok :: "'a rwq \<Rightarrow> nat list \<Rightarrow> bool" where
  "ring_ok q r \<longleftrightarrow> r \<noteq> [] \<and> distinct r \<and> set r = {..<length (blocks q)} \<and>
     links (blocks q) (r @ [hd r])"

definition blocks_ok :: "'a rwq \<Rightarrow> bool" where
  "blocks_ok q \<longleftrightarrow> (\<forall>a < length (blocks q). block_rep (blocks q ! a) (elems q a))"

definition largest_ok :: "layout \<Rightarrow> u64 \<Rightarrow> bool" where
  "largest_ok ly w \<longleftrightarrow> (\<exists>k. 1 \<le> k \<and> w = 2 ^ k \<and> k < 63 \<and> bytes_of ly (2 ^ k) < 2 ^ 63)"

text \<open>The relation, apart from the two flags of the reentrancy guards.\<close>

definition rwq_rep :: "layout \<Rightarrow> 'a rwq \<Rightarrow> nat list \<Rightarrow> nat list \<Rightarrow> bool" where
  "rwq_rep ly q pre post \<longleftrightarrow>
     pre \<noteq> [] \<and> hd pre = frontBlock q \<and> last pre = tailBlock q \<and>
     ring_ok q (pre @ post) \<and> blocks_ok q \<and>
     (\<forall>a \<in> set (tl pre). elems q a \<noteq> []) \<and> (\<forall>a \<in> set post. elems q a = []) \<and>
     largest_ok ly (largestBlockSize q)"

lemma rep_flags [simp]:
  "rwq_rep ly (q\<lparr>enqueuing := v\<rparr>) pre post = rwq_rep ly q pre post"
  "rwq_rep ly (q\<lparr>dequeuing := v\<rparr>) pre post = rwq_rep ly q pre post"
  "items (q\<lparr>enqueuing := v\<rparr>) pre = items q pre"
  "items (q\<lparr>dequeuing := v\<rparr>) pre = items q pre"
  by (simp_all add: rwq_rep_def ring_ok_def blocks_ok_def elems_def items_def cong: map_cong)

lemma rep_lt:
  assumes "rwq_rep ly q pre post" and "a \<in> set (pre @ post)"
  shows "a < length (blocks q)"
  using assms by (auto simp: rwq_rep_def ring_ok_def)

lemma rep_block:
  assumes "rwq_rep ly q pre post" and "a \<in> set (pre @ post)"
  shows "get_block a q = Inr (blocks q ! a)" and "block_rep (blocks q ! a) (elems q a)"
  using assms rep_lt [OF assms] by (auto simp: get_block_def rwq_rep_def blocks_ok_def)

text \<open>Replacing a block by one with the same \<open>next\<close> and other elements.\<close>

lemma set_block_parts:
  assumes "ring_ok q r" and "blocks_ok q" and "a < length (blocks q)"
    and "block_rep b xs" and "blk_next b = blk_next (blocks q ! a)"
  defines "q' \<equiv> set_block a b q"
  shows "ring_ok q' r" and "blocks_ok q'" and "\<And>c. c < length (blocks q) \<Longrightarrow> elems q' c = (if c = a then xs else elems q c)"
proof -
  show el: "elems q' c = (if c = a then xs else elems q c)" if "c < length (blocks q)" for c
    using that assms(3) block_rep_elems [OF assms(4)] by (simp add: elems_def q'_def set_block_def)
  have "blk_next (blocks q' ! c) = blk_next (blocks q ! c)" if "c < length (blocks q)" for c
    using that assms(5) by (cases "c = a") (simp_all add: q'_def set_block_def)
  then have "links (blocks q') (r @ [hd r]) \<longleftrightarrow> links (blocks q) (r @ [hd r])"
    using assms(1) by (intro links_cong) (auto simp: ring_ok_def)
  then show "ring_ok q' r" using assms(1) by (simp add: ring_ok_def q'_def set_block_def)
  show "blocks_ok q'"
    using assms(2-4) el by (auto simp: blocks_ok_def q'_def set_block_def nth_list_update)
qed

lemma ring_ok_ptrs [simp]:
  "ring_ok (q\<lparr>frontBlock := a\<rparr>) r = ring_ok q r" "ring_ok (q\<lparr>tailBlock := a\<rparr>) r = ring_ok q r"
  "blocks_ok (q\<lparr>frontBlock := a\<rparr>) = blocks_ok q" "blocks_ok (q\<lparr>tailBlock := a\<rparr>) = blocks_ok q"
  "elems (q\<lparr>frontBlock := a\<rparr>) c = elems q c" "elems (q\<lparr>tailBlock := a\<rparr>) c = elems q c"
  by (simp_all add: ring_ok_def blocks_ok_def elems_def)

lemma set_block_sel [simp]:
  "frontBlock (set_block a b q) = frontBlock q" "tailBlock (set_block a b q) = tailBlock q"
  "largestBlockSize (set_block a b q) = largestBlockSize q"
  "length (blocks (set_block a b q)) = length (blocks q)"
  "enqueuing (set_block a b q) = enqueuing q" "dequeuing (set_block a b q) = dequeuing q"
  by (simp_all add: set_block_def)

lemma map_elems_cong:
  assumes "\<And>c. c \<in> set cs \<Longrightarrow> elems q' c = elems q c"
  shows "concat (map (elems q') cs) = concat (map (elems q) cs)"
  using assms by (metis map_eq_conv)

lemma in_set_tlD: "x \<in> set (tl xs) \<Longrightarrow> x \<in> set xs"
  by (cases xs) auto

lemma items_snoc: "items q (p @ [t]) = items q p @ elems q t"
  by (simp add: items_def)

section \<open>Enqueue\<close>

text \<open>The tail block has room.\<close>

lemma enqueue_here:
  assumes rep: "rwq_rep ly q pre post"
    and room: "length (elems q (tailBlock q)) + 1 \<noteq> length (blk_data (blocks q ! tailBlock q))"
  shows "\<exists>q'. enqueue_body ly malloc mode x q = Inr (True, q') \<and> rwq_rep ly q' pre post \<and>
    items q' pre = items q pre @ [x] \<and> enqueuing q' = enqueuing q \<and> dequeuing q' = dequeuing q \<and>
    length (blocks q') = length (blocks q) \<and>
    (\<forall>a < length (blocks q). blk_size (blocks q' ! a) = blk_size (blocks q ! a))"
proof -
  let ?t = "tailBlock q"
  define tb where "tb = blocks q ! ?t"
  have pre: "pre = butlast pre @ [?t]" and t: "?t \<in> set (pre @ post)"
    using rep unfolding rwq_rep_def by (metis append_butlast_last_id, metis UnCI last_in_set set_append)
  note B = rep_block [OF rep t, folded tb_def]
  have room': "length (elems q ?t) + 1 \<noteq> length (blk_data tb)" using room by (simp add: tb_def)
  obtain b' where b': "construct (blk_tail tb) x tb = Inr b'" "sizeMask b' = sizeMask tb"
    "blk_next b' = blk_next tb" "blk_size b' = blk_size tb"
    "block_rep (b'\<lparr>blk_tail := (blk_tail tb + 1) AND sizeMask tb\<rparr>) (elems q ?t @ [x])"
    using B(2) room' by (rule block_push)
  define nb where "nb = b'\<lparr>blk_tail := (blk_tail tb + 1) AND sizeMask tb\<rparr>"
  define q' where "q' = set_block ?t nb q"
  have body: "enqueue_body ly malloc mode x q = Inr (True, q')"
    using B(1) b'(1) room' block_full_iff [OF B(2)]
    by (simp add: enqueue_body_def Let_def q'_def nb_def)
  have R: "ring_ok q (pre @ post)" "blocks_ok q" "distinct (pre @ post)"
    using rep by (auto simp: rwq_rep_def ring_ok_def)
  have "blk_next nb = blk_next (blocks q ! ?t)" using b'(3) by (simp add: nb_def tb_def)
  note S = set_block_parts [OF R(1,2) rep_lt [OF rep t] b'(5) [folded nb_def] this, folded q'_def]
  have el: "elems q' c = (if c = ?t then elems q ?t @ [x] else elems q c)" if "c \<in> set (pre @ post)" for c
    using S(3) [OF rep_lt [OF rep that]] .
  have tp: "?t \<notin> set (butlast pre)" "?t \<notin> set post"
    using R(3) pre by (metis distinct_append not_distinct_conv_prefix)
      (use R(3) pre in \<open>metis Int_iff append_is_Nil_conv disjoint_iff distinct_append last_in_set last_snoc snoc_eq_iff_butlast\<close>)
  have "elems q' c = elems q c" if "c \<in> set (butlast pre)" for c
    using el [of c] that tp(1) in_set_butlastD [OF that] by auto
  then have it: "items q' pre = items q pre @ [x]"
    using items_snoc [of q' "butlast pre" ?t] items_snoc [of q "butlast pre" ?t] el [OF t] pre
    by (simp add: items_def map_elems_cong [of _ q' q])
  have "elems q' a \<noteq> []" if "a \<in> set (tl pre)" for a
    using el [of a] that in_set_tlD [OF that] rep by (auto simp: rwq_rep_def)
  then have "rwq_rep ly q' pre post"
    using rep S(1,2) el tp(2) unfolding rwq_rep_def by (auto simp: q'_def)
  moreover have "\<forall>a < length (blocks q). blk_size (blocks q' ! a) = blk_size (blocks q ! a)"
    using b'(4) rep_lt [OF rep t] by (auto simp: q'_def set_block_def nb_def tb_def nth_list_update)
  ultimately show ?thesis using body it
    by (intro exI [of _ q'] conjI; (assumption | simp add: q'_def))
qed


text \<open>The tail block is full and the next block is free.\<close>

lemma tail_next:
  assumes "rwq_rep ly q pre post"
  shows "blk_next (blocks q ! tailBlock q) = Some (hd (post @ [frontBlock q]))"
proof -
  let ?t = "tailBlock q"
  have ne: "pre \<noteq> []" and hd: "hd pre = frontBlock q" and t: "last pre = ?t"
    using assms by (simp_all add: rwq_rep_def)
  have l: "links (blocks q) ((pre @ post) @ [hd (pre @ post)])"
    using assms unfolding rwq_rep_def ring_ok_def by blast
  have pre: "pre = butlast pre @ [?t]" using ne t append_butlast_last_id [of pre] by simp
  have eq: "(pre @ post) @ [hd (pre @ post)] = butlast pre @ ?t # (post @ [frontBlock q])"
    using ne hd by (subst (1) pre) simp
  have "links (blocks q) (butlast pre @ ?t # (post @ [frontBlock q]))" using l unfolding eq .
  then have "links (blocks q) (?t # (post @ [frontBlock q]))"
    by (rule links_append [THEN iffD1, THEN conjunct2])
  then show ?thesis by (cases post) simp_all
qed

lemma block_rep_size2: "block_rep b xs \<Longrightarrow> 2 \<le> length (blk_data b)"
  unfolding block_rep_def using power_increasing [of 1 _ "2 :: nat"] by fastforce

lemma enqueue_next:
  assumes rep: "rwq_rep ly q pre (n # post)"
    and full: "length (elems q (tailBlock q)) + 1 = length (blk_data (blocks q ! tailBlock q))"
  shows "\<exists>q'. enqueue_body ly malloc mode x q = Inr (True, q') \<and> rwq_rep ly q' (pre @ [n]) post \<and>
    items q' (pre @ [n]) = items q pre @ [x] \<and> enqueuing q' = enqueuing q \<and> dequeuing q' = dequeuing q"
proof -
  let ?t = "tailBlock q" and ?r = "pre @ n # post"
  define tb nb where "tb = blocks q ! ?t" and "nb = blocks q ! n"
  have t: "?t \<in> set ?r" and n: "n \<in> set ?r" and hd: "frontBlock q \<in> set pre"
    using rep unfolding rwq_rep_def by (metis UnCI last_in_set set_append, simp, metis hd_in_set)
  note TB = rep_block [OF rep t, folded tb_def] and NB = rep_block [OF rep n, folded nb_def]
  have R: "ring_ok q ?r" "blocks_ok q" "distinct ?r" "elems q n = []"
    using rep by (auto simp: rwq_rep_def ring_ok_def)
  have next': "blk_next tb = Some n" using tail_next [OF rep] by (simp add: tb_def)
  have nf: "n \<noteq> frontBlock q" using R(3) hd by auto
  have "length (elems q n) + 1 \<noteq> length (blk_data nb)" using R(4) block_rep_size2 [OF NB(2)] by simp
  with NB(2) obtain b' where b': "construct (blk_tail nb) x nb = Inr b'" "sizeMask b' = sizeMask nb"
    "blk_next b' = blk_next nb" "blk_size b' = blk_size nb"
    "block_rep (b'\<lparr>blk_tail := (blk_tail nb + 1) AND sizeMask nb\<rparr>) (elems q n @ [x])"
    by (rule block_push)
  define b where "b = b'\<lparr>blk_tail := (blk_tail nb + 1) AND sizeMask nb\<rparr>"
  define q' where "q' = (set_block n b q)\<lparr>tailBlock := n\<rparr>"
  have "blk_front nb = blk_tail nb" using block_empty_iff [OF NB(2)] R(4) by simp
  then have body: "enqueue_body ly malloc mode x q = Inr (True, q')"
    using TB(1) NB(1) b'(1,2) full [folded tb_def] block_full_iff [OF TB(2)] next' nf
    by (simp add: enqueue_body_def Let_def q'_def b_def deref_def)
  have "blk_next b = blk_next (blocks q ! n)" using b'(3) by (simp add: b_def nb_def)
  note S = set_block_parts [OF R(1,2) rep_lt [OF rep n] b'(5) [folded b_def] this]
  have el: "elems q' c = (if c = n then [x] else elems q c)" if "c \<in> set ?r" for c
    using S(3) [OF rep_lt [OF rep that]] R(4) by (simp add: q'_def)
  have "elems q' c = elems q c" if "c \<in> set pre" for c
    using el [of c] that R(3) by auto
  then have it: "items q' (pre @ [n]) = items q pre @ [x]"
    using el [OF n] by (simp add: items_def map_elems_cong [of pre q' q])
  have "tl (pre @ [n]) = tl pre @ [n]" using rep by (simp add: rwq_rep_def)
  moreover have "elems q' a \<noteq> []" if "a \<in> set (tl pre)" for a
    using el [of a] that in_set_tlD [OF that] rep by (auto simp: rwq_rep_def)
  ultimately have "rwq_rep ly q' (pre @ [n]) post"
    using rep S(1,2) el R(3) unfolding rwq_rep_def by (auto simp: q'_def)
  then show ?thesis using body it by (auto simp: q'_def)
qed

text \<open>The tail block is full and there is no free block.\<close>

lemma largest_double:
  assumes "layout_ok ly" and "largest_ok ly w"
  shows "unat (w * 2) = 2 * unat w" and "1 \<le> unat (w * 2)" and "bytes_of ly (unat (w * 2)) < 2 ^ 64"
    and "\<exists>k. 1 \<le> k \<and> k < 64 \<and> w * 2 = 2 ^ k \<and> unat (w * 2) = 2 ^ k"
proof -
  obtain k where k: "1 \<le> k" "w = 2 ^ k" "k < 63" "bytes_of ly (2 ^ k) < 2 ^ 63"
    using assms(2) by (auto simp: largest_ok_def)
  have w: "w * 2 = 2 ^ Suc k" "unat w = 2 ^ k" "unat (2 ^ Suc k :: u64) = 2 ^ Suc k"
    using k(2,3) unat_pow2 [of k] unat_pow2 [of "Suc k"] by simp_all
  then show d: "unat (w * 2) = 2 * unat w" by simp
  show "1 \<le> unat (w * 2)" unfolding d w(2) by simp
  have "bytes_of ly (2 * 2 ^ k) \<le> 2 * bytes_of ly (2 ^ k)"
  proof -
    have pos: "0 < unat (sizeof_Block ly)" "0 < unat (alignof_Block ly)" "0 < unat (alignof_T ly)"
      using assms(1) by (simp_all add: layout_ok_def)
    have gen: "B + A - 1 + (2 * c + L - 1) \<le> 2 * (B + A - 1 + (c + L - 1))"
      if "0 < B" "0 < A" "0 < L" for A B L c :: nat
      using that by (cases B; cases A; cases L) simp_all
    show ?thesis unfolding bytes_of_def mult.left_commute [of "unat (sizeof_T ly)" 2] by (rule gen [OF pos])
  qed
  then show "bytes_of ly (unat (w * 2)) < 2 ^ 64" using k(4) unfolding d w(2) by simp
  show "\<exists>k. 1 \<le> k \<and> k < 64 \<and> w * 2 = 2 ^ k \<and> unat (w * 2) = 2 ^ k"
    using w k(3) by (intro exI [of _ "Suc k"]) simp
qed

lemma largest_okI:
  assumes "layout_ok ly" and "malloc_ok malloc" and k: "1 \<le> k" "k < 64" "w = 2 ^ k"
    and "bytes_of ly (2 ^ k) < 2 ^ 64" and "malloc (block_bytes ly w) \<noteq> 0"
  shows "largest_ok ly w"
proof -
  have w: "unat w = 2 ^ k" using unat_pow2 [OF k(2)] k(3) by simp
  have "unat (block_bytes ly w) < 2 ^ 63" using assms(2,7) by (metis malloc_ok_def)
  then have b: "bytes_of ly (2 ^ k) < 2 ^ 63"
    using unat_block_bytes [OF assms(1), of w] assms(6) w by simp
  have "(2 :: nat) ^ k \<le> bytes_of ly (2 ^ k)"
  proof -
    have "(2 :: nat) ^ k \<le> unat (sizeof_T ly) * 2 ^ k" using assms(1) by (simp add: layout_ok_def)
    then show ?thesis using assms(1) unfolding bytes_of_def layout_ok_def by linarith
  qed
  then have "(2 :: nat) ^ k < 2 ^ 63" using b by simp
  then have "k < 63" by (rule power_less_imp_less_exp [rotated]) simp
  then show ?thesis using k b by (auto simp: largest_ok_def)
qed

lemma largest_ok_double:
  assumes "layout_ok ly" and "malloc_ok malloc" and "largest_ok ly w"
    and "malloc (block_bytes ly (w * 2)) \<noteq> 0"
  shows "largest_ok ly (w * 2)"
proof -
  note D = largest_double [OF assms(1,3)]
  obtain k where k: "1 \<le> k" "k < 64" "w * 2 = 2 ^ k" "unat (w * 2) = 2 ^ k" using D(4) by blast
  then have "bytes_of ly (2 ^ k) < 2 ^ 64" using D(3) by simp
  from largest_okI [OF assms(1,2) k(1-3) this assms(4)] show ?thesis .
qed

text \<open>The new block with its element.\<close>

lemma new_block:
  fixes nb :: "'a block"
  assumes nb: "block_rep nb []" and z: "blk_front nb = 0" "blk_tail nb = 0"
  obtains b' where "construct 0 x nb = Inr b'" and "blk_front b' = 0"
    and "block_rep (b'\<lparr>blk_tail := 1, blk_next := v\<rparr>) [x]"
proof -
  have two: "2 \<le> length (blk_data nb)" using block_rep_size2 [OF nb] .
  then have "length ([] :: 'a list) + 1 \<noteq> length (blk_data nb)" by simp
  with nb obtain b' where b': "construct (blk_tail nb) x nb = Inr b'" "sizeMask b' = sizeMask nb"
    "blk_next b' = blk_next nb" "blk_size b' = blk_size nb"
    "block_rep (b'\<lparr>blk_tail := (blk_tail nb + 1) AND sizeMask nb\<rparr>) ([] @ [x])"
    by (rule block_push)
  have "unat (blk_tail nb) < length (blk_data nb)" using two z(2) by (metis not_numeral_le_zero not_gr_zero unsigned_0)
  from index_next [OF nb this] have "unat ((blk_tail nb + 1) AND sizeMask nb) = 1" using two z(2) by simp
  then have "(1 :: u64) AND sizeMask nb = 1" by (simp add: z word_unat_eq_iff)
  then have "block_rep (b'\<lparr>blk_tail := 1\<rparr>) [x]" using b'(5) z(2) by simp
  moreover have "b'\<lparr>blk_tail := 1, blk_next := v\<rparr> = b'\<lparr>blk_tail := 1\<rparr>\<lparr>blk_next := v\<rparr>" by simp
  ultimately have "block_rep (b'\<lparr>blk_tail := 1, blk_next := v\<rparr>) [x]" by (simp only: block_rep_next)
  moreover have "blk_front b' = 0" using b'(1) z(1) by (auto simp: construct_def split: if_splits)
  ultimately show ?thesis using that b'(1) z(2) by simp
qed

text \<open>A block is linked in behind the last block of the ring.\<close>

lemma ring_grow:
  assumes ring: "ring_ok q pre" and b: "blk_next b = blk_next (blocks q ! last pre)"
    and q': "blocks q' = (blocks q)[last pre := (blocks q ! last pre)\<lparr>blk_next := Some (length (blocks q))\<rparr>] @ [b]"
  shows "ring_ok q' (pre @ [length (blocks q)])"
proof -
  let ?t = "last pre" and ?a = "length (blocks q)"
  have pre: "pre \<noteq> []" "distinct pre" "set pre = {..<?a}" and l: "links (blocks q) (pre @ [hd pre])"
    using ring by (auto simp: ring_ok_def)
  have t: "?t < ?a" using pre(1,3) last_in_set by blast
  have split: "butlast pre @ [?t] = pre" using pre(1) by simp
  have tb: "?t \<notin> set (butlast pre)" using pre(2) split by (metis distinct_append not_distinct_conv_prefix)
  have nth: "blocks q' ! c = blocks q ! c" if "c \<in> set (butlast pre)" for c
  proof -
    have "c < ?a" "c \<noteq> ?t" using that tb pre(3) in_set_butlastD [OF that] by auto
    then show ?thesis by (simp add: q' nth_append)
  qed
  have l': "links (blocks q) (butlast pre @ ?t # [hd pre])" using l split by (metis append.assoc append_Cons append_Nil)
  then have "links (blocks q) (butlast pre @ [?t])" and nx: "blk_next (blocks q ! ?t) = Some (hd pre)"
    using links_append [of "blocks q" "butlast pre" ?t "[hd pre]"] by simp_all
  then have "links (blocks q') (butlast pre @ [?t])"
    using links_cong [of "butlast pre @ [?t]" "blocks q" "blocks q'"] nth by simp
  moreover have "links (blocks q') (?t # [?a, hd pre])"
    using t nx b by (simp add: q' nth_append)
  ultimately have "links (blocks q') (butlast pre @ ?t # [?a, hd pre])"
    by (rule links_append [THEN iffD2, OF conjI])
  then have "links (blocks q') ((pre @ [?a]) @ [hd (pre @ [?a])])"
    using pre(1) split by (metis append.assoc append_Cons append_Nil hd_append2)
  moreover have "set (pre @ [?a]) = {..<length (blocks q')}" using pre(3) by (simp add: q' lessThan_Suc)
  moreover have "distinct (pre @ [?a])" using pre(2,3) by simp
  ultimately show ?thesis by (simp only: ring_ok_def) simp
qed

lemma enqueue_new:
  assumes rep: "rwq_rep ly q pre []" and ly: "layout_ok ly" and m: "malloc_ok malloc"
    and full: "length (elems q (tailBlock q)) + 1 = length (blk_data (blocks q ! tailBlock q))"
    and got: "malloc (block_bytes ly (largestBlockSize q * 2)) \<noteq> 0"
  shows "\<exists>q'. enqueue_body ly malloc CanAlloc x q = Inr (True, q') \<and>
    rwq_rep ly q' (pre @ [length (blocks q)]) [] \<and>
    items q' (pre @ [length (blocks q)]) = items q pre @ [x] \<and>
    enqueuing q' = enqueuing q \<and> dequeuing q' = dequeuing q"
proof -
  let ?t = "tailBlock q" and ?a = "length (blocks q)" and ?w = "largestBlockSize q * 2"
  define tb where "tb = blocks q ! ?t"
  have pre: "pre \<noteq> []" "hd pre = frontBlock q" "last pre = ?t" "set pre = {..<?a}"
    and ring: "ring_ok q pre" and bs: "blocks_ok q" and lg: "largest_ok ly (largestBlockSize q)"
    and ne: "\<forall>a \<in> set (tl pre). elems q a \<noteq> []"
    using rep by (auto simp: rwq_rep_def ring_ok_def)
  have t: "?t \<in> set pre" "?t < ?a" using pre by (metis last_in_set, metis last_in_set lessThan_iff)
  have "?t \<in> set (pre @ [])" using t by simp
  note TB = rep_block [OF rep this, folded tb_def]
  note D = largest_double [OF ly lg]
  obtain k where k: "1 \<le> k" "k < 64" "?w = 2 ^ k" "unat ?w = 2 ^ k" using D(4) by blast
  define nb :: "'a block" where "nb = Block ?w (unat ?w)"
  have mk: "(make_block ly malloc ?w :: 'a block option res) = Inr (Some nb)"
    using make_block_eq [OF ly m D(3,2)] got by (simp add: nb_def)
  have nb: "block_rep nb []" using block_rep_Block [OF k(1,2)] k by (simp add: nb_def)
  have z: "blk_front nb = 0" "blk_tail nb = 0" by (simp_all add: nb_def Block_def)
  obtain b' where b': "construct 0 x nb = Inr b'" "blk_front b' = 0"
    "block_rep (b'\<lparr>blk_tail := 1, blk_next := blk_next tb\<rparr>) [x]"
    using nb z by (rule new_block)
  define b where "b = b'\<lparr>blk_tail := 1, blk_next := blk_next tb\<rparr>"
  define tb' where "tb' = tb\<lparr>blk_next := Some ?a\<rparr>"
  define q' where "q' = q\<lparr>largestBlockSize := ?w, blocks := (blocks q)[?t := tb'] @ [b], tailBlock := ?a\<rparr>"
  have next': "blk_next tb = Some (frontBlock q)" using tail_next [OF rep] by (simp add: tb_def)
  have body: "enqueue_body ly malloc CanAlloc x q = Inr (True, q')"
    using TB(1) b'(1,2) full [folded tb_def] block_full_iff [OF TB(2)] next' mk
    by (simp add: enqueue_body_def Let_def q'_def b_def tb'_def set_block_def)
  have nth: "blocks q' ! c = (if c = ?a then b else if c = ?t then tb' else blocks q ! c)" if "c \<le> ?a" for c
    using that t(2) by (auto simp: q'_def nth_append)
  have el: "elems q' c = (if c = ?a then [x] else elems q c)" if "c \<le> ?a" for c
    using nth [OF that] block_rep_elems [OF b'(3)] by (simp add: elems_def b_def tb'_def tb_def)
  have "block_rep (blocks q' ! c) (elems q' c)" if "c \<le> ?a" for c
    using nth [OF that] el [OF that] b'(3) TB(2) bs that
    by (cases "c = ?a") (auto simp: blocks_ok_def b_def tb'_def tb_def)
  then have bs': "blocks_ok q'" by (simp add: blocks_ok_def q'_def less_Suc_eq_le)
  have ring': "ring_ok q' ((pre @ [?a]) @ [])"
    using ring_grow [OF ring, of b q'] pre(3) by (simp add: q'_def b_def tb'_def tb_def)
  have old: "elems q' c = elems q c" if "c \<in> set pre" for c
    using el [of c] that pre(4) by auto
  then have it: "items q' (pre @ [?a]) = items q pre @ [x]"
    using el [of ?a] by (simp add: items_def map_elems_cong [of pre q' q])
  have "tl (pre @ [?a]) = tl pre @ [?a]" using pre(1) by simp
  moreover have "elems q' a \<noteq> []" if "a \<in> set (tl pre)" for a
    using old [of a] that in_set_tlD [OF that] ne by auto
  moreover have "largest_ok ly ?w" using ly m lg got by (rule largest_ok_double)
  ultimately have "rwq_rep ly q' (pre @ [?a]) []"
    using pre(1,2) ring' bs' el [of ?a] unfolding rwq_rep_def by (auto simp: q'_def)
  then show ?thesis using body it by (auto simp: q'_def)
qed

end
