(* ===== verification/RW_Consume.thy ===== *)
theory RW_Consume
  imports RW_Refine
begin

text \<open>
  The consumer's side on the ring of blocks: \<open>try_dequeue\<close>, \<open>peek\<close> and \<open>pop\<close>, then the two
  loops over the ring, \<open>size_approx\<close> and the destructor.
\<close>

section \<open>Dequeue, peek and pop\<close>

text \<open>What the consumer's three operations do when the first element is \<open>x\<close>.\<close>

definition consumes :: "layout \<Rightarrow> 'a rwq \<Rightarrow> 'a \<Rightarrow> 'a list \<Rightarrow> bool" where
  "consumes ly q x xs \<longleftrightarrow>
     (\<exists>q' pre' post' a i. dequeue_body q = Inr (Some x, q') \<and> pop_body q = Inr (True, q') \<and>
        peek_body q = Inr (Some (a, i), q) \<and> res_bind (get_block a q) (element_at i) = Inr x \<and>
        rwq_rep ly q' pre' post' \<and> items q' pre' = xs \<and>
        set (pre' @ post') = {..<length (blocks q)} \<and>
        enqueuing q' = enqueuing q \<and> dequeuing q' = dequeuing q)"

lemma rep_Cons:
  assumes "rwq_rep ly q pre post"
  shows "pre = frontBlock q # tl pre"
  using assms list.collapse [of pre] by (simp add: rwq_rep_def)

lemma consume_here:
  assumes rep: "rwq_rep ly q pre post" and el: "elems q (frontBlock q) = x # xs"
  shows "\<exists>rest. items q pre = x # rest \<and> consumes ly q x rest"
proof -
  let ?f = "frontBlock q"
  define fb where "fb = blocks q ! ?f"
  have pre: "pre = ?f # tl pre" using rep by (rule rep_Cons)
  then have f: "?f \<in> set (pre @ post)" by (metis UnI1 list.set_intros(1) set_append)
  note B = rep_block [OF rep f, folded fb_def]
  have R: "ring_ok q (pre @ post)" "blocks_ok q" "distinct (pre @ post)"
    using rep by (auto simp: rwq_rep_def ring_ok_def)
  from B(2) el obtain b' where b': "element_at (blk_front fb) fb = Inr x" "destroy (blk_front fb) fb = Inr b'"
    "sizeMask b' = sizeMask fb" "blk_next b' = blk_next fb" "blk_size b' = blk_size fb"
    "block_rep (b'\<lparr>blk_front := (blk_front fb + 1) AND sizeMask fb\<rparr>) xs"
    by (metis block_pop)
  define b where "b = b'\<lparr>blk_front := (blk_front fb + 1) AND sizeMask fb\<rparr>"
  define q' where "q' = set_block ?f b q"
  have ne: "blk_front fb \<noteq> blk_tail fb" using block_empty_iff [OF B(2)] el by simp
  have bodies: "dequeue_body q = Inr (Some x, q')" "pop_body q = Inr (True, q')"
    "peek_body q = Inr (Some (?f, blk_front fb), q)"
    "res_bind (get_block ?f q) (element_at (blk_front fb)) = Inr x"
    using B(1) b'(1-3) ne
    by (simp_all add: dequeue_body_def pop_body_def peek_body_def Let_def q'_def b_def)
  have "blk_next b = blk_next (blocks q ! ?f)" using b'(4) by (simp add: b_def fb_def)
  note S = set_block_parts [OF R(1,2) rep_lt [OF rep f] b'(6) [folded b_def] this, folded q'_def]
  have e: "elems q' c = (if c = ?f then xs else elems q c)" if "c \<in> set (pre @ post)" for c
    using S(3) [OF rep_lt [OF rep that]] .
  have nf: "?f \<notin> set (tl pre)" "?f \<notin> set post"
    using R(3) pre by (metis distinct.simps(2) distinct_append, metis append_Cons distinct.simps(2) set_append UnCI)
  have same: "elems q' a = elems q a" if "a \<in> set (tl pre)" for a
    using e [of a] that nf(1) in_set_tlD [OF that] by auto
  define rest where "rest = xs @ items q (tl pre)"
  have it: "items q pre = x # rest" using el by (subst pre) (simp add: items_def rest_def)
  have "consumes ly q x rest"
    unfolding consumes_def
  proof (intro exI conjI)
    show "dequeue_body q = Inr (Some x, q')" "pop_body q = Inr (True, q')"
      "peek_body q = Inr (Some (?f, blk_front fb), q)"
      "res_bind (get_block ?f q) (element_at (blk_front fb)) = Inr x" by fact+
    show "items q' pre = rest"
      using e [OF f] by (subst pre) (simp add: items_def rest_def map_elems_cong [OF same])
    have "elems q' a = []" if "a \<in> set post" for a
      using e [of a] that nf(2) rep by (auto simp: rwq_rep_def)
    then show "rwq_rep ly q' pre post"
      using rep S(1,2) same unfolding rwq_rep_def by (simp add: q'_def)
    show "set (pre @ post) = {..<length (blocks q)}"
      using R(1) by (simp add: ring_ok_def)
    show "enqueuing q' = enqueuing q" "dequeuing q' = dequeuing q" by (simp_all add: q'_def)
  qed
  then show ?thesis using it by blast
qed

lemma front_next:
  assumes "rwq_rep ly q (f # n # r) post"
  shows "blk_next (blocks q ! f) = Some n"
  using assms by (auto simp: rwq_rep_def ring_ok_def)

lemma consume_next:
  assumes rep: "rwq_rep ly q (f # n # r) post" and empty: "elems q f = []"
  shows "\<exists>x rest. items q (f # n # r) = x # rest \<and> consumes ly q x rest"
proof -
  let ?pre = "f # n # r"
  define fb nb where "fb = blocks q ! f" and "nb = blocks q ! n"
  have fq: "f = frontBlock q" and tq: "last ?pre = tailBlock q" using rep by (auto simp: rwq_rep_def)
  have fn: "f \<in> set (?pre @ post)" "n \<in> set (?pre @ post)" by simp_all
  note FB = rep_block [OF rep fn(1), folded fb_def] and NB = rep_block [OF rep fn(2), folded nb_def]
  have R: "ring_ok q (?pre @ post)" "blocks_ok q" "distinct (?pre @ post)" "elems q n \<noteq> []"
    using rep by (auto simp: rwq_rep_def ring_ok_def)
  then obtain x xs where el: "elems q n = x # xs" by (cases "elems q n") auto
  from NB(2) el obtain b' where b': "element_at (blk_front nb) nb = Inr x" "destroy (blk_front nb) nb = Inr b'"
    "sizeMask b' = sizeMask nb" "blk_next b' = blk_next nb" "blk_size b' = blk_size nb"
    "block_rep (b'\<lparr>blk_front := (blk_front nb + 1) AND sizeMask nb\<rparr>) xs"
    by (metis block_pop)
  define b where "b = b'\<lparr>blk_front := (blk_front nb + 1) AND sizeMask nb\<rparr>"
  define q' where "q' = set_block n b (q\<lparr>frontBlock := n\<rparr>)"
  have ne: "blk_front nb \<noteq> blk_tail nb" using block_empty_iff [OF NB(2)] el by simp
  have eq: "blk_front fb = blk_tail fb" using block_empty_iff [OF FB(2)] empty by simp
  have ft: "f \<noteq> tailBlock q" using R(3) tq last_in_set [of "n # r"] by auto
  have next': "blk_next fb = Some n" using front_next [OF rep] by (simp add: fb_def)
  have bodies: "dequeue_body q = Inr (Some x, q')" "pop_body q = Inr (True, q')"
    "peek_body q = Inr (Some (n, blk_front nb), q)"
    "res_bind (get_block n q) (element_at (blk_front nb)) = Inr x"
    using FB(1) NB(1) b'(1-3) ne eq ft next' fq
    by (simp_all add: dequeue_body_def pop_body_def peek_body_def Let_def q'_def b_def deref_def)
  have "blk_next b = blk_next (blocks q ! n)" using b'(4) by (simp add: b_def nb_def)
  note S = set_block_parts [OF R(1,2) rep_lt [OF rep fn(2)] b'(6) [folded b_def] this]
  have q'_eq: "q' = (set_block n b q)\<lparr>frontBlock := n\<rparr>" by (simp add: q'_def set_block_def)
  have e: "elems q' c = (if c = n then xs else elems q c)" if "c \<in> set (?pre @ post)" for c
    using S(3) [OF rep_lt [OF rep that]] by (simp add: q'_eq)
  have "links (blocks q') (?pre @ post @ [f])"
    using S(1) by (simp add: ring_ok_def q'_eq)
  then have "links (blocks q') ((n # r @ post) @ f # [])" and "links (blocks q') (f # [n])"
    by (cases r; simp)+
  then have "links (blocks q') ((n # r @ post) @ f # [n])"
    using links_append [of "blocks q'" "n # r @ post" f "[n]"] by simp
  then have ring: "ring_ok q' ((n # r) @ (post @ [f]))"
    using S(1) by (auto simp: ring_ok_def q'_eq)
  have nn: "n \<notin> set r" "n \<notin> set post" "f \<noteq> n" using R(3) by auto
  have same: "elems q' a = elems q a" if "a \<in> set r" for a
    using e [of a] that nn(1) by auto
  have "items q ?pre = x # xs @ items q r" using el empty by (simp add: items_def)
  moreover have "consumes ly q x (xs @ items q r)"
    unfolding consumes_def
  proof (intro exI conjI)
    show "dequeue_body q = Inr (Some x, q')" "pop_body q = Inr (True, q')"
      "peek_body q = Inr (Some (n, blk_front nb), q)"
      "res_bind (get_block n q) (element_at (blk_front nb)) = Inr x" by fact+
    show "items q' (n # r) = xs @ items q r"
    using e [OF fn(2)] by (simp add: items_def map_elems_cong [OF same])
    have "elems q' a = []" if "a \<in> set (post @ [f])" for a
      using e [of a] that empty nn rep by (auto simp: rwq_rep_def)
    then show "rwq_rep ly q' (n # r) (post @ [f])"
      using rep ring S(2) same unfolding rwq_rep_def by (auto simp: q'_eq)
    show "set ((n # r) @ (post @ [f])) = {..<length (blocks q)}"
      using R(1) by (auto simp: ring_ok_def)
    show "enqueuing q' = enqueuing q" "dequeuing q' = dequeuing q" by (simp_all add: q'_def)
  qed
  ultimately show ?thesis by blast
qed

lemma consume_Cons:
  assumes rep: "rwq_rep ly q pre post" and it: "items q pre = x # xs"
  shows "consumes ly q x xs"
proof (cases "elems q (frontBlock q)")
  case (Cons y ys)
  then show ?thesis using consume_here [OF rep Cons] it by auto
next
  case Nil
  have cons: "pre = frontBlock q # tl pre" using rep by (rule rep_Cons)
  have "tl pre \<noteq> []"
  proof
    assume "tl pre = []"
    then have "pre = [frontBlock q]" using cons by simp
    then show False using it Nil by (simp add: items_def)
  qed
  then obtain n r where "tl pre = n # r" by (metis list.exhaust)
  then have pre: "pre = frontBlock q # n # r" using cons by simp
  show ?thesis using consume_next [OF rep [unfolded pre] Nil] it [unfolded pre] by auto
qed

lemma consume_Nil:
  assumes rep: "rwq_rep ly q pre post" and it: "items q pre = []"
  shows "dequeue_body q = Inr (None, q)" and "pop_body q = Inr (False, q)" and "peek_body q = Inr (None, q)"
proof -
  let ?f = "frontBlock q"
  have pre: "pre = ?f # tl pre" using rep by (rule rep_Cons)
  have all: "elems q a = []" if "a \<in> set pre" for a using it that by (auto simp: items_def)
  then have tl: "tl pre = []" using rep in_set_tlD [of _ pre] unfolding rwq_rep_def
    by (metis list.set_intros(1) neq_Nil_conv)
  then have t: "tailBlock q = ?f" using rep pre unfolding rwq_rep_def by (metis last.simps)
  have f: "?f \<in> set (pre @ post)" and fe: "elems q ?f = []"
    using pre all by (metis UnI1 list.set_intros(1) set_append, metis list.set_intros(1))
  note B = rep_block [OF rep f]
  have "blk_front (blocks q ! ?f) = blk_tail (blocks q ! ?f)" using block_empty_iff [OF B(2)] fe by simp
  then show "dequeue_body q = Inr (None, q)" "pop_body q = Inr (False, q)" "peek_body q = Inr (None, q)"
    using B(1) t by (simp_all add: dequeue_body_def pop_body_def peek_body_def Let_def)
qed

section \<open>Once around the ring\<close>

lemma ring_next:
  assumes rep: "rwq_rep ly q pre post" and split: "pre @ post = d @ a # todo"
  shows "blk_next (blocks q ! a) = Some (hd (todo @ [frontBlock q]))"
    and "a \<in> set (pre @ post)" and "\<And>n. n \<in> set todo \<Longrightarrow> n \<noteq> frontBlock q" and "a \<notin> set d"
proof -
  have R: "ring_ok q (pre @ post)" and hd: "hd (pre @ post) = frontBlock q"
    using rep by (auto simp: rwq_rep_def)
  then have "links (blocks q) (d @ a # (todo @ [frontBlock q]))"
    unfolding ring_ok_def split by simp
  then have "links (blocks q) (a # (todo @ [frontBlock q]))"
    by (rule links_append [THEN iffD1, THEN conjunct2])
  then show "blk_next (blocks q ! a) = Some (hd (todo @ [frontBlock q]))"
    by (cases todo) simp_all
  have dist: "distinct (d @ a # todo)" using R unfolding ring_ok_def split by blast
  then show "a \<notin> set d" by simp
  show "a \<in> set (pre @ post)" by (simp add: split)
  show "n \<noteq> frontBlock q" if "n \<in> set todo" for n
    using that dist hd unfolding split by (cases d) auto
qed

lemma size_loop_eq:
  assumes rep: "rwq_rep ly q pre post"
  shows "pre @ post = d @ a # todo \<Longrightarrow> length (a # todo) \<le> fuel \<Longrightarrow>
    size_loop fuel q a s = Inr (s + of_nat (length (items q (a # todo))))"
proof (induction todo arbitrary: d a fuel s)
  case Nil
  note N = ring_next [OF rep Nil(1)]
  obtain g where "fuel = Suc g" using Nil(2) by (cases fuel) auto
  then show ?case
    using N(1) rep_block [OF rep N(2)] count_elems [OF rep_block(2) [OF rep N(2)]]
    by (simp add: deref_def items_def Let_def)
next
  case (Cons b todo)
  note N = ring_next [OF rep Cons(2)]
  obtain g where g: "fuel = Suc g" "length (b # todo) \<le> g" using Cons(3) by (cases fuel) auto
  have "pre @ post = (d @ [a]) @ b # todo" using Cons(2) by simp
  note IH = Cons(1) [OF this g(2)]
  show ?case
    using N(1) N(3) [of b] rep_block [OF rep N(2)] count_elems [OF rep_block(2) [OF rep N(2)]] IH g(1)
    by (simp add: deref_def items_def Let_def add.assoc)
qed

lemma element_at_front [simp]: "element_at i (b\<lparr>blk_front := f\<rparr>) = element_at i b"
  by (simp add: element_at_def)

lemma destroy_loop_eq:
  "block_rep (b\<lparr>blk_front := i\<rparr>) xs \<Longrightarrow> length xs < fuel \<Longrightarrow>
   destroy_loop fuel i (blk_tail b) b out = Inr (out @ xs)"
proof (induction xs arbitrary: b i fuel out)
  case Nil
  obtain g where "fuel = Suc g" using Nil(2) by (cases fuel) auto
  then show ?case using block_empty_iff [OF Nil(1)] by simp
next
  case (Cons x xs)
  obtain g where g: "fuel = Suc g" "length xs < g" using Cons(3) by (cases fuel) auto
  define b' where "b' = b\<lparr>blk_data := (blk_data b)[unat i := None]\<rparr>"
  obtain c where c: "element_at i (b\<lparr>blk_front := i\<rparr>) = Inr x" "destroy i (b\<lparr>blk_front := i\<rparr>) = Inr c"
    "block_rep (c\<lparr>blk_front := (i + 1) AND sizeMask (b\<lparr>blk_front := i\<rparr>)\<rparr>) xs"
    using block_pop [OF Cons(2)] by auto
  have el: "element_at i b = Inr x" using c(1) by simp
  then have d: "destroy i b = Inr b'" by (simp add: destroy_def b'_def)
  have "c = b'\<lparr>blk_front := i\<rparr>"
    using c(2) el by (auto simp: destroy_def b'_def intro: block.equality)
  then have "block_rep (b'\<lparr>blk_front := (i + 1) AND sizeMask b'\<rparr>) xs"
    using c(3) by (simp add: b'_def sizeMask_def)
  from Cons.IH [OF this g(2)]
  have "destroy_loop g ((i + 1) AND sizeMask b') (blk_tail b') b' (out @ [x]) = Inr ((out @ [x]) @ xs)" .
  moreover have "i \<noteq> blk_tail b" using block_empty_iff [OF Cons(2)] by simp
  ultimately show ?case using el d g(1) by (simp add: b'_def)
qed

lemma destroy_block:
  assumes "block_rep b xs"
  shows "destroy_loop (Suc (length (blk_data b))) (blk_front b) (blk_tail b) b out = Inr (out @ xs)"
  using assms by (intro destroy_loop_eq) (auto simp: block_rep_def)

lemma free_loop_eq:
  assumes rep: "rwq_rep ly q pre post"
  shows "pre @ post = d @ a # todo \<Longrightarrow> length (a # todo) \<le> fuel \<Longrightarrow>
    free_loop fuel q a d out = Inr (pre @ post, out @ items q (a # todo))"
proof (induction todo arbitrary: d a fuel out)
  case Nil
  note N = ring_next [OF rep Nil(1)]
  obtain g where "fuel = Suc g" using Nil(2) by (cases fuel) auto
  then show ?case
    using N(1,4) rep_block [OF rep N(2)] destroy_block [OF rep_block(2) [OF rep N(2)]] Nil(1)
    by (simp add: deref_def items_def del: destroy_loop.simps)
next
  case (Cons b todo)
  note N = ring_next [OF rep Cons(2)]
  obtain g where g: "fuel = Suc g" "length (b # todo) \<le> g" using Cons(3) by (cases fuel) auto
  have "pre @ post = (d @ [a]) @ b # todo" using Cons(2) by simp
  note IH = Cons(1) [OF this g(2)]
  show ?case
    using N(1,4) N(3) [of b] rep_block [OF rep N(2)] destroy_block [OF rep_block(2) [OF rep N(2)]]
      IH g(1)
    by (simp add: deref_def items_def del: destroy_loop.simps)
qed

lemma ring_length:
  assumes "rwq_rep ly q pre post"
  shows "length (pre @ post) = length (blocks q)"
proof -
  have "distinct (pre @ post)" and "set (pre @ post) = {..<length (blocks q)}"
    using assms by (auto simp: rwq_rep_def ring_ok_def)
  then show ?thesis by (metis card_lessThan distinct_card)
qed

text \<open>Both loops, from the front block.\<close>

lemma whole_ring:
  assumes rep: "rwq_rep ly q pre post" and fuel: "length (blocks q) \<le> fuel"
  shows "size_approx fuel q = Inr (of_nat (length (items q pre)))"
    and "ReaderWriterQueue_destroy fuel q = Inr (pre @ post, items q pre)"
proof -
  have "pre = frontBlock q # tl pre" using rep by (rule rep_Cons)
  then have split: "pre @ post = [] @ frontBlock q # (tl pre @ post)"
    by (metis append_Cons append_Nil)
  have len: "length (frontBlock q # (tl pre @ post)) \<le> fuel"
    using fuel ring_length [OF rep] split by simp
  have "items q (frontBlock q # (tl pre @ post)) = items q (pre @ post)"
    unfolding split append_Nil ..
  also have "\<dots> = items q pre" using rep by (simp add: items_def rwq_rep_def)
  finally have it: "items q (frontBlock q # (tl pre @ post)) = items q pre" .
  show "size_approx fuel q = Inr (of_nat (length (items q pre)))"
    using size_loop_eq [OF rep split len, of 0] by (simp add: size_approx_def it)
  show "ReaderWriterQueue_destroy fuel q = Inr (pre @ post, items q pre)"
    using free_loop_eq [OF rep split len, of "[]"] by (simp add: ReaderWriterQueue_destroy_def it)
qed

end
