(* ===== verification/RW_Properties.thy ===== *)
theory RW_Properties
  imports RW_Consume
begin

text \<open>
  The queue of blocks implements a queue of elements: the abstraction \<open>rwq_contents\<close>, which
  follows the ring from the front block to the tail block, the invariant \<open>rwq_inv\<close>, the
  interpretation of the fifo contract on \<open>enqueue\<close> and \<open>try_dequeue\<close>, and the properties of
  the public operations.
\<close>

section \<open>Abstraction and invariant\<close>

fun live_path :: "nat \<Rightarrow> 'a rwq \<Rightarrow> nat \<Rightarrow> nat list" where
  "live_path 0 q a = [a]"
| "live_path (Suc n) q a =
     (if a = tailBlock q then [a]
      else case blk_next (blocks q ! a) of None \<Rightarrow> [a] | Some b \<Rightarrow> a # live_path n q b)"

definition rwq_contents :: "'a rwq \<Rightarrow> 'a list" where
  "rwq_contents q = items q (live_path (length (blocks q)) q (frontBlock q))"

definition rwq_inv :: "layout \<Rightarrow> 'a rwq \<Rightarrow> bool" where
  "rwq_inv ly q \<longleftrightarrow> (\<exists>pre post. rwq_rep ly q pre post) \<and> \<not> enqueuing q \<and> \<not> dequeuing q"

lemma live_path_eq:
  assumes rep: "rwq_rep ly q pre post"
  shows "pre = d @ a # todo \<Longrightarrow> length todo \<le> n \<Longrightarrow> live_path n q a = a # todo"
proof (induction todo arbitrary: d a n)
  case Nil
  then have "a = tailBlock q" using rep by (simp add: rwq_rep_def)
  then show ?case by (cases n) simp_all
next
  case (Cons b todo)
  obtain m where m: "n = Suc m" "length todo \<le> m" using Cons(3) by (cases n) auto
  have "pre @ post = d @ a # ((b # todo) @ post)" using Cons(2) by simp
  note N = ring_next [OF rep this]
  have "a \<noteq> tailBlock q"
  proof
    assume "a = tailBlock q"
    then have "a = last (b # todo)" using rep Cons(2) by (simp add: rwq_rep_def)
    then have "a \<in> set (b # todo)" by (metis last_in_set list.distinct(1))
    moreover have "distinct pre" using rep by (auto simp: rwq_rep_def ring_ok_def)
    ultimately show False using Cons(2) by auto
  qed
  moreover have "pre = (d @ [a]) @ b # todo" using Cons(2) by simp
  ultimately show ?case using Cons(1) [OF _ m(2)] N(1) m(1) by simp
qed

lemma contents_items:
  assumes rep: "rwq_rep ly q pre post"
  shows "rwq_contents q = items q pre"
proof -
  have cons: "pre = frontBlock q # tl pre" using rep by (rule rep_Cons)
  then have "pre = [] @ frontBlock q # tl pre" by simp
  moreover have "length (tl pre) \<le> length (blocks q)" using ring_length [OF rep] by simp
  ultimately have "live_path (length (blocks q)) q (frontBlock q) = frontBlock q # tl pre"
    by (rule live_path_eq [OF rep])
  then show ?thesis using cons by (simp add: rwq_contents_def)
qed

lemma flag_off:
  "\<not> enqueuing q \<Longrightarrow> q\<lparr>enqueuing := False\<rparr> = q"
  "\<not> dequeuing q \<Longrightarrow> q\<lparr>dequeuing := False\<rparr> = q"
  by (cases q; simp)+

lemma elems_flags [simp]:
  "elems (q\<lparr>enqueuing := v\<rparr>) a = elems q a" "elems (q\<lparr>dequeuing := v\<rparr>) a = elems q a"
  by (simp_all add: elems_def)

section \<open>The operations on lists\<close>

lemma enqueue_body_cases:
  assumes rep: "rwq_rep ly q pre post" and ly: "layout_ok ly" and m: "malloc_ok malloc"
  shows "(\<exists>q' pre' post'. enqueue_body ly malloc mode x q = Inr (True, q') \<and> rwq_rep ly q' pre' post' \<and>
      items q' pre' = items q pre @ [x] \<and> enqueuing q' = enqueuing q \<and> dequeuing q' = dequeuing q) \<or>
    enqueue_body ly malloc mode x q = Inr (False, q) \<and>
      (mode = CanAlloc \<longrightarrow> malloc (block_bytes ly (largestBlockSize q * 2)) = 0)"
proof (cases "length (elems q (tailBlock q)) + 1 = length (blk_data (blocks q ! tailBlock q))")
  case False
  show ?thesis using enqueue_here [OF rep False, of malloc mode x] by blast
next
  case full: True
  show ?thesis
  proof (cases post)
    case (Cons n r)
    show ?thesis using enqueue_next [OF rep [unfolded Cons] full, of malloc mode x] by blast
  next
    case Nil
    have t: "tailBlock q \<in> set (pre @ post)"
      using rep by (metis UnI1 last_in_set rwq_rep_def set_append)
    note B = rep_block [OF rep t]
    have stop: "blk_next (blocks q ! tailBlock q) = Some (frontBlock q)"
      "(blk_tail (blocks q ! tailBlock q) + 1) AND sizeMask (blocks q ! tailBlock q) = blk_front (blocks q ! tailBlock q)"
      using tail_next [OF rep] Nil block_full_iff [OF B(2)] full by simp_all
    show ?thesis
    proof (cases "mode = CanAlloc \<and> malloc (block_bytes ly (largestBlockSize q * 2)) \<noteq> 0")
      case True
      then show ?thesis using enqueue_new [OF rep [unfolded Nil] ly m full, of x] by blast
    next
      case False
      have lg: "largest_ok ly (largestBlockSize q)" using rep by (simp add: rwq_rep_def)
      have "(make_block ly malloc (largestBlockSize q * 2) :: 'a block option res) = Inr None"
        if "malloc (block_bytes ly (largestBlockSize q * 2)) = 0"
        using make_block_eq [OF ly m largest_double(3,2) [OF ly lg]] that by simp
      then have "enqueue_body ly malloc mode x q = Inr (False, q)"
        using False B(1) stop
        by (cases mode) (simp_all add: enqueue_body_def Let_def)
      then show ?thesis using False by blast
    qed
  qed
qed

lemma inner_enqueue_spec:
  assumes inv: "rwq_inv ly q" and ly: "layout_ok ly" and m: "malloc_ok malloc"
  obtains r q' where "inner_enqueue ly malloc mode x q = Inr (r, q')" and "rwq_inv ly q'"
    and "rwq_contents q' = rwq_contents q @ (if r then [x] else [])" and "\<not> r \<longrightarrow> q' = q"
    and "\<not> r \<and> mode = CanAlloc \<longrightarrow> malloc (block_bytes ly (largestBlockSize q * 2)) = 0"
proof -
  let ?g = "q\<lparr>enqueuing := True\<rparr>"
  obtain pre post where rep: "rwq_rep ly q pre post" and off: "\<not> enqueuing q" "\<not> dequeuing q"
    using inv by (auto simp: rwq_inv_def)
  have g: "rwq_rep ly ?g pre post" using rep by simp
  note c = contents_items [OF rep]
  from enqueue_body_cases [OF g ly m, of mode x] show ?thesis
  proof (elim disjE exE conjE)
    fix q' pre' post'
    assume e: "enqueue_body ly malloc mode x ?g = Inr (True, q')" and r: "rwq_rep ly q' pre' post'"
      and i: "items q' pre' = items ?g pre @ [x]" and f: "dequeuing q' = dequeuing ?g"
    have r': "rwq_rep ly (q'\<lparr>enqueuing := False\<rparr>) pre' post'" using r by simp
    show ?thesis
    proof (rule that [of True "q'\<lparr>enqueuing := False\<rparr>"])
      show "inner_enqueue ly malloc mode x q = Inr (True, q'\<lparr>enqueuing := False\<rparr>)"
        using e off by (simp add: inner_enqueue_def guard_enqueuing_def)
      show "rwq_inv ly (q'\<lparr>enqueuing := False\<rparr>)" using r' f off by (auto simp: rwq_inv_def)
      show "rwq_contents (q'\<lparr>enqueuing := False\<rparr>) = rwq_contents q @ (if True then [x] else [])"
        using contents_items [OF r'] i c by simp
    qed simp_all
  next
    assume e: "enqueue_body ly malloc mode x ?g = Inr (False, ?g)"
      and a: "mode = CanAlloc \<longrightarrow> malloc (block_bytes ly (largestBlockSize ?g * 2)) = 0"
    show ?thesis
    proof (rule that [of False q])
      show "inner_enqueue ly malloc mode x q = Inr (False, q)"
        using e off flag_off(1) [OF off(1)] by (simp add: inner_enqueue_def guard_enqueuing_def)
    qed (use inv a in simp_all)
  qed
qed

lemma consumer_empty:
  assumes inv: "rwq_inv ly q" and empty: "rwq_contents q = []"
  shows "try_dequeue q = Inr (None, q)" and "pop q = Inr (False, q)" and "peek q = Inr (None, q)"
proof -
  let ?g = "q\<lparr>dequeuing := True\<rparr>"
  obtain pre post where rep: "rwq_rep ly q pre post" and off: "\<not> enqueuing q" "\<not> dequeuing q"
    using inv by (auto simp: rwq_inv_def)
  have g: "rwq_rep ly ?g pre post" and "items ?g pre = []"
    using rep empty contents_items [OF rep] by simp_all
  from consume_Nil [OF this]
  show "try_dequeue q = Inr (None, q)" "pop q = Inr (False, q)" "peek q = Inr (None, q)"
    using off flag_off(2) [OF off(2)]
    by (simp_all add: try_dequeue_def pop_def peek_def guard_dequeuing_def)
qed

lemma consumer_Cons:
  assumes inv: "rwq_inv ly q" and el: "rwq_contents q = x # xs"
  obtains q' a i where "try_dequeue q = Inr (Some x, q')" and "pop q = Inr (True, q')"
    and "peek q = Inr (Some (a, i), q)" and "res_bind (get_block a q) (element_at i) = Inr x"
    and "rwq_inv ly q'" and "rwq_contents q' = xs"
proof -
  let ?g = "q\<lparr>dequeuing := True\<rparr>"
  obtain pre post where rep: "rwq_rep ly q pre post" and off: "\<not> enqueuing q" "\<not> dequeuing q"
    using inv by (auto simp: rwq_inv_def)
  have g: "rwq_rep ly ?g pre post" and it: "items ?g pre = x # xs"
    using rep el contents_items [OF rep] by simp_all
  obtain q' pre' post' a i where r: "dequeue_body ?g = Inr (Some x, q')" "pop_body ?g = Inr (True, q')"
    "peek_body ?g = Inr (Some (a, i), ?g)" "res_bind (get_block a ?g) (element_at i) = Inr x"
    "rwq_rep ly q' pre' post'" "items q' pre' = xs" "enqueuing q' = enqueuing ?g"
    using consume_Cons [OF g it] unfolding consumes_def by (elim exE conjE)
  have r': "rwq_rep ly (q'\<lparr>dequeuing := False\<rparr>) pre' post'" using r(5) by simp
  show ?thesis
  proof (rule that [of "q'\<lparr>dequeuing := False\<rparr>" a i])
    show "try_dequeue q = Inr (Some x, q'\<lparr>dequeuing := False\<rparr>)" "pop q = Inr (True, q'\<lparr>dequeuing := False\<rparr>)"
      "peek q = Inr (Some (a, i), q)"
      using r(1-3) off flag_off(2) [OF off(2)]
      by (simp_all add: try_dequeue_def pop_def peek_def guard_dequeuing_def)
    show "res_bind (get_block a q) (element_at i) = Inr x" using r(4) by (simp add: get_block_def split: if_splits)
    show "rwq_inv ly (q'\<lparr>dequeuing := False\<rparr>)" using r' r(7) off by (auto simp: rwq_inv_def)
    show "rwq_contents (q'\<lparr>dequeuing := False\<rparr>) = xs" using contents_items [OF r'] r(6) by simp
  qed
qed

section \<open>The contract\<close>

definition push_item :: "layout \<Rightarrow> (u64 \<Rightarrow> u64) \<Rightarrow> alloc_mode \<Rightarrow> 'a \<Rightarrow> 'a rwq \<Rightarrow> 'a rwq option" where
  "push_item ly malloc mode x q =
     (case inner_enqueue ly malloc mode x q of Inr (True, q') \<Rightarrow> Some q' | _ \<Rightarrow> None)"

definition pop_item :: "'a rwq \<Rightarrow> ('a \<times> 'a rwq) option" where
  "pop_item q = (case try_dequeue q of Inr (Some x, q') \<Rightarrow> Some (x, q') | _ \<Rightarrow> None)"

text \<open>The contract holds for every layout and every allocator of the documented behaviour.\<close>

definition rwq_env_inv :: "layout \<Rightarrow> (u64 \<Rightarrow> u64) \<Rightarrow> 'a rwq \<Rightarrow> bool" where
  "rwq_env_inv ly malloc q \<longleftrightarrow> rwq_inv ly q \<and> layout_ok ly \<and> malloc_ok malloc"

lemma push_item_Some:
  assumes "rwq_env_inv ly malloc q" and "push_item ly malloc mode x q = Some q'"
  shows "rwq_env_inv ly malloc q' \<and> rwq_contents q' = rwq_contents q @ [x]"
proof -
  have a: "rwq_inv ly q" "layout_ok ly" "malloc_ok malloc" using assms(1) by (auto simp: rwq_env_inv_def)
  obtain r p where r: "inner_enqueue ly malloc mode x q = Inr (r, p)" "rwq_inv ly p"
    "rwq_contents p = rwq_contents q @ (if r then [x] else [])"
    using inner_enqueue_spec [OF a, of mode x] by metis
  then show ?thesis using assms a by (cases r) (simp_all add: push_item_def rwq_env_inv_def)
qed

lemma pop_item_eq:
  assumes inv: "rwq_env_inv ly malloc q"
  shows "(pop_item q = None) = (rwq_contents q = [])"
    and "pop_item q = Some (x, q') \<Longrightarrow> rwq_env_inv ly malloc q' \<and> rwq_contents q = x # rwq_contents q'"
proof -
  have i: "rwq_inv ly q" using inv by (simp add: rwq_env_inv_def)
  have "(pop_item q = None) = (rwq_contents q = []) \<and>
    (pop_item q = Some (x, q') \<longrightarrow> rwq_env_inv ly malloc q' \<and> rwq_contents q = x # rwq_contents q')"
  proof (cases "rwq_contents q")
    case Nil
    then show ?thesis using consumer_empty [OF i Nil] by (simp add: pop_item_def)
  next
    case (Cons y ys)
    obtain p where "try_dequeue q = Inr (Some y, p)" "rwq_inv ly p" "rwq_contents p = ys"
      using consumer_Cons [OF i Cons] by metis
    then show ?thesis using Cons inv by (auto simp: pop_item_def rwq_env_inv_def)
  qed
  then show "(pop_item q = None) = (rwq_contents q = [])"
    "pop_item q = Some (x, q') \<Longrightarrow> rwq_env_inv ly malloc q' \<and> rwq_contents q = x # rwq_contents q'"
    by blast+
qed

interpretation rwq: fifo rwq_contents "push_item ly malloc mode" pop_item "rwq_env_inv ly malloc"
  for ly malloc mode
  by unfold_locales (auto dest: push_item_Some pop_item_eq)

section \<open>Construction and reserved room\<close>

lemma block_rep_length:
  assumes "block_rep b xs"
  shows "length (blk_data b) = unat (blk_size b)"
  using assms by (auto simp: block_rep_def unat_pow2)

lemma constructed:
  assumes ly: "layout_ok ly" and m: "malloc_ok malloc" and n: "1 \<le> unat n" "unat n < 2 ^ 63"
    and bytes: "bytes_of ly (unat (ceilToPow2 (n + 1))) < 2 ^ 64"
  shows "if malloc (block_bytes ly (ceilToPow2 (n + 1))) = 0
    then (ReaderWriterQueue ly malloc n :: 'a rwq res) = Inl Bad_Alloc
    else \<exists>q :: 'a rwq. ReaderWriterQueue ly malloc n = Inr q \<and> rwq_rep ly q [0] [] \<and> rwq_inv ly q \<and>
      rwq_contents q = [] \<and> unat n + 1 \<le> unat (blk_size (blocks q ! 0))"
proof -
  let ?w = "ceilToPow2 (n + 1)"
  have n1: "unat (n + 1) = unat n + 1" using n(2) by (simp add: unat_add_no_wrap)
  have "1 \<le> unat (n + 1)" "unat (n + 1) \<le> 2 ^ 63" using n by (simp_all add: n1)
  then obtain k where k: "k < 64" "?w = 2 ^ k" "unat (n + 1) \<le> 2 ^ k" by (rule ceilToPow2_least)
  have wk: "unat ?w = 2 ^ k" using unat_pow2 [OF k(1)] k(2) by simp
  have k1: "1 \<le> k" using k(3) n(1) n1 by (cases k) simp_all
  have n0: "n \<noteq> 0" using n(1) by auto
  have one: "1 \<le> unat ?w" by (simp add: wk)
  have mk: "(make_block ly malloc ?w :: 'a block option res) =
      Inr (if malloc (block_bytes ly ?w) = 0 then None else Some (Block ?w (unat ?w)))"
    using make_block_eq [OF ly m bytes one] .
  show ?thesis
  proof (cases "malloc (block_bytes ly ?w) = 0")
    case True
    then show ?thesis using mk n0 by (simp add: ReaderWriterQueue_def Let_def)
  next
    case False
    define q :: "'a rwq" where "q = \<lparr>blocks = [(Block ?w (unat ?w))\<lparr>blk_next := Some 0\<rparr>],
      frontBlock = 0, tailBlock = 0, largestBlockSize = ?w, enqueuing = False, dequeuing = False\<rparr>"
    have q: "ReaderWriterQueue ly malloc n = Inr q"
      using mk False n0 by (simp add: ReaderWriterQueue_def Let_def q_def)
    have B: "block_rep (Block ?w (unat ?w) :: 'a block) []"
      using block_rep_Block [OF k1 k(1)] k(2) wk by simp
    then have el: "elems q 0 = []" using block_rep_elems [OF B] by (simp add: elems_def q_def)
    have "bytes_of ly (2 ^ k) < 2 ^ 64" using bytes wk by simp
    from largest_okI [OF ly m k1 k(1,2) this False]
    have rep: "rwq_rep ly q [0] []"
      using B el by (simp add: rwq_rep_def ring_ok_def blocks_ok_def q_def lessThan_Suc)
    moreover have "rwq_inv ly q" using rep by (auto simp: rwq_inv_def q_def)
    moreover have "rwq_contents q = []" using contents_items [OF rep] el by (simp add: items_def)
    moreover have "unat n + 1 \<le> unat (blk_size (blocks q ! 0))"
      using k(3) n1 wk by (simp add: q_def Block_def)
    ultimately show ?thesis using q False by auto
  qed
qed

lemma reserved_run:
  "rwq_rep ly q [0] [] \<Longrightarrow> \<not> enqueuing q \<Longrightarrow>
   length (items q [0]) + length xs < unat (blk_size (blocks q ! 0)) \<Longrightarrow>
   \<exists>q'. item_run (push_item ly malloc CannotAlloc) pop_item (map Push xs) q = ([], xs, q') \<and>
     length (blocks q') = length (blocks q)"
proof (induction xs arbitrary: q)
  case (Cons x xs)
  let ?g = "q\<lparr>enqueuing := True\<rparr>"
  have g: "rwq_rep ly ?g [0] []" using Cons.prems(1) by simp
  have t: "tailBlock ?g = 0" "0 \<in> set ([0] @ [])" using g by (simp_all add: rwq_rep_def)
  have "length (blk_data (blocks ?g ! 0)) = unat (blk_size (blocks ?g ! 0))"
    using block_rep_length [OF rep_block(2) [OF g t(2)]] .
  then have room: "length (elems ?g (tailBlock ?g)) + 1 \<noteq> length (blk_data (blocks ?g ! tailBlock ?g))"
    using Cons.prems(3) by (simp add: items_def t(1))
  obtain p where p: "enqueue_body ly malloc CannotAlloc x ?g = Inr (True, p)" "rwq_rep ly p [0] []"
    "items p [0] = items ?g [0] @ [x]" "length (blocks p) = length (blocks ?g)"
    "\<forall>a < length (blocks ?g). blk_size (blocks p ! a) = blk_size (blocks ?g ! a)"
    using enqueue_here [OF g room, of malloc CannotAlloc x] by blast
  let ?p = "p\<lparr>enqueuing := False\<rparr>"
  have push: "push_item ly malloc CannotAlloc x q = Some ?p"
    using p(1) Cons.prems(2) by (simp add: push_item_def inner_enqueue_def guard_enqueuing_def)
  have "0 < length (blocks ?g)" using rep_lt [OF g t(2)] .
  then have "blk_size (blocks ?p ! 0) = blk_size (blocks q ! 0)" using p(5) by simp
  then have "length (items ?p [0]) + length xs < unat (blk_size (blocks ?p ! 0))"
    using Cons.prems(3) p(3) by simp
  from Cons.IH [OF _ _ this] p(2) obtain q' where
    "item_run (push_item ly malloc CannotAlloc) pop_item (map Push xs) ?p = ([], xs, q')"
    "length (blocks q') = length (blocks ?p)" by auto
  then show ?case using push p(4) by simp
qed simp

section \<open>Properties\<close>

text \<open>An allocator and a layout for the witnesses.\<close>

definition std_layout :: layout where
  "std_layout = \<lparr>sizeof_Block = 256, alignof_Block = 64, sizeof_T = 8, alignof_T = 8\<rparr>"

definition std_malloc :: "u64 \<Rightarrow> u64" where
  "std_malloc n = (if n < 1048576 then 4100 else 0)"

lemma std_ok: "layout_ok std_layout" "malloc_ok std_malloc"
  by (auto simp: layout_ok_def std_layout_def malloc_ok_def std_malloc_def word_less_nat_alt)

definition std_queue :: "u64 \<Rightarrow> nat rwq" where
  "std_queue n = (case ReaderWriterQueue std_layout std_malloc n of Inr q \<Rightarrow> q)"

lemma std_queue_1:
  "ReaderWriterQueue std_layout std_malloc 1 = Inr (std_queue 1) \<and> rwq_inv std_layout (std_queue 1) \<and>
   rwq_contents (std_queue 1) = [] \<and> length (blocks (std_queue 1)) = 1"
proof -
  have c: "ceilToPow2 2 = 2" by code_simp
  have b: "block_bytes std_layout 2 = 342" "bytes_of std_layout 2 = 342"
    by (simp_all add: block_bytes_def bytes_of_def std_layout_def)
  have "\<exists>q :: nat rwq. ReaderWriterQueue std_layout std_malloc 1 = Inr q \<and> rwq_rep std_layout q [0] [] \<and>
      rwq_inv std_layout q \<and> rwq_contents q = [] \<and> unat 1 + 1 \<le> unat (blk_size (blocks q ! 0))"
    using constructed [OF std_ok, of 1] by (simp add: c b std_malloc_def)
  then obtain q :: "nat rwq" where q: "ReaderWriterQueue std_layout std_malloc 1 = Inr q"
    "rwq_rep std_layout q [0] []" "rwq_inv std_layout q" "rwq_contents q = []" by blast
  then have "std_queue 1 = q" by (simp add: std_queue_def)
  then show ?thesis using q ring_length [OF q(2)] by simp
qed

text \<open>
  \<open>ceilToPow2\<close> returns the least power of two that is not below its argument, for every
  argument from 1 to \<open>2 ^ 63\<close>.
\<close>
theorem ceilToPow2_spec:
  assumes "1 \<le> unat x" and "unat x \<le> 2 ^ 63"
  shows "\<exists>k < 64. ceilToPow2 x = 2 ^ k \<and> unat x \<le> 2 ^ k \<and> (\<forall>j. unat x \<le> 2 ^ j \<longrightarrow> k \<le> j)"
  using ceilToPow2_least [OF assms] by metis

theorem ceilToPow2_spec_witness:
  "\<exists>k < 64. ceilToPow2 17 = 2 ^ k \<and> 17 \<le> (2 :: nat) ^ k \<and> (\<forall>j. 17 \<le> (2 :: nat) ^ j \<longrightarrow> k \<le> j)"
  using ceilToPow2_spec [of 17] by simp

text \<open>
  When the size computed for a block does not wrap and the memory lies inside the address
  space, \<open>make_block\<close> returns a block with one slot for every element of its capacity, or none
  when \<open>malloc\<close> fails; header and slots are aligned and lie inside the memory.
\<close>
theorem make_block_spec:
  assumes "layout_ok ly" and "malloc_ok malloc" and "bytes_of ly (unat c) < 2 ^ 64" and "1 \<le> unat c"
  shows "(if malloc (block_bytes ly c) = 0 then make_block ly malloc c = (Inr None :: 'a block option res)
    else make_block ly malloc c = (Inr (Some (Block c (unat c))) :: 'a block option res) \<and>
      (let raw = malloc (block_bytes ly c); aligned = align_for (alignof_Block ly) raw;
           data = align_for (alignof_T ly) (aligned + sizeof_Block ly) in
       unat (alignof_Block ly) dvd unat aligned \<and> unat (alignof_T ly) dvd unat data \<and>
       unat raw \<le> unat aligned \<and> unat aligned + unat (sizeof_Block ly) \<le> unat data \<and>
       unat data + unat (sizeof_T ly) * unat c \<le> unat raw + unat (block_bytes ly c)))"
proof (cases "malloc (block_bytes ly c) = 0")
  case False
  have "unat (malloc (block_bytes ly c)) + bytes_of ly (unat c) \<le> 2 ^ 64"
    using assms(2) False unat_block_bytes [OF assms(1,3,4)] by (metis malloc_ok_def)
  from block_layout [OF assms(1,3,4) this] show ?thesis
    using False make_block_eq [OF assms] unat_block_bytes [OF assms(1,3,4)] by (simp add: Let_def)
qed (simp add: make_block_eq [OF assms])

theorem make_block_spec_witness:
  "make_block std_layout std_malloc 16 = (Inr (Some (Block 16 16)) :: nat block option res)"
proof -
  have b: "bytes_of std_layout 16 = 454" "block_bytes std_layout 16 = 454"
    by (simp_all add: bytes_of_def block_bytes_def std_layout_def)
  show ?thesis using make_block_spec [OF std_ok, of 16, where 'a = nat] by (simp add: b std_malloc_def)
qed

text \<open>
  The constructor either reports the failure of \<open>malloc\<close> or returns an empty queue that
  satisfies the invariant and takes \<open>maxSize\<close> elements in a row by \<open>try_enqueue\<close>, without any
  further allocation.
\<close>
theorem constructor_spec:
  assumes "layout_ok ly" and "malloc_ok malloc" and "1 \<le> unat maxSize" and "unat maxSize < 2 ^ 63"
    and "bytes_of ly (unat (ceilToPow2 (maxSize + 1))) < 2 ^ 64"
  shows "ReaderWriterQueue ly malloc maxSize = (Inl Bad_Alloc :: 'a rwq res) \<or>
    (\<exists>q :: 'a rwq. ReaderWriterQueue ly malloc maxSize = Inr q \<and> rwq_inv ly q \<and> rwq_contents q = [] \<and>
       (\<forall>xs. length xs \<le> unat maxSize \<longrightarrow>
          (\<exists>q'. item_run (push_item ly malloc CannotAlloc) pop_item (map Push xs) q = ([], xs, q') \<and>
             length (blocks q') = length (blocks q))))"
proof (cases "malloc (block_bytes ly (ceilToPow2 (maxSize + 1))) = 0")
  case False
  then obtain q :: "'a rwq" where q: "ReaderWriterQueue ly malloc maxSize = Inr q" "rwq_rep ly q [0] []"
    "rwq_inv ly q" "rwq_contents q = []" "unat maxSize + 1 \<le> unat (blk_size (blocks q ! 0))"
    using constructed [OF assms, where 'a = 'a] by auto
  have "\<not> enqueuing q" using q(3) by (simp add: rwq_inv_def)
  moreover have "items q [0] = []" using q(4) contents_items [OF q(2)] by simp
  ultimately show ?thesis using q reserved_run [OF q(2)] by auto
qed (use constructed [OF assms, where 'a = 'a] in simp)

theorem constructor_spec_witness:
  "\<exists>q :: nat rwq. ReaderWriterQueue std_layout std_malloc 1 = Inr q \<and> rwq_contents q = []"
proof -
  have c: "ceilToPow2 2 = 2" by code_simp
  have b: "bytes_of std_layout 2 = 342" by (simp add: bytes_of_def std_layout_def)
  have "ReaderWriterQueue std_layout std_malloc 1 \<noteq> (Inl Bad_Alloc :: nat rwq res)"
    using std_queue_1 by simp
  moreover have "bytes_of std_layout (unat (ceilToPow2 (1 + 1))) < 2 ^ 64" by (simp add: c b)
  ultimately show ?thesis
    using constructor_spec [OF std_ok, of 1, where 'a = nat] by auto
qed

text \<open>
  C29. \<open>enqueue\<close> never faults: it returns true and the element is the last of the queue, or it
  returns false, which happens only when \<open>malloc\<close> refuses a block twice as large as the
  largest, and the queue is what it was. The invariant is kept.
\<close>
theorem enqueue_spec:
  assumes "rwq_inv ly q" and "layout_ok ly" and "malloc_ok malloc"
  shows "\<exists>r q'. enqueue ly malloc x q = Inr (r, q') \<and> rwq_inv ly q' \<and>
    (if r then rwq_contents q' = rwq_contents q @ [x]
     else q' = q \<and> malloc (block_bytes ly (largestBlockSize q * 2)) = 0)"
proof -
  obtain r q' where "inner_enqueue ly malloc CanAlloc x q = Inr (r, q')" "rwq_inv ly q'"
    "rwq_contents q' = rwq_contents q @ (if r then [x] else [])" "\<not> r \<longrightarrow> q' = q"
    "\<not> r \<and> CanAlloc = CanAlloc \<longrightarrow> malloc (block_bytes ly (largestBlockSize q * 2)) = 0"
    using inner_enqueue_spec [OF assms] by metis
  then show ?thesis by (cases r) (auto simp: enqueue_def)
qed

theorem enqueue_spec_witness:
  "\<exists>r q'. enqueue std_layout std_malloc 5 (std_queue 1) = Inr (r, q') \<and> rwq_inv std_layout q' \<and>
    (if r then rwq_contents q' = [5] else q' = std_queue 1)"
proof -
  have "rwq_inv std_layout (std_queue 1)" and "rwq_contents (std_queue 1) = []" using std_queue_1 by auto
  with enqueue_spec [OF this(1) std_ok, of 5] show ?thesis by (metis append_Nil)
qed

text \<open>
  \<open>try_enqueue\<close> never faults and never allocates: what it does is the same for every
  allocator. It returns true and appends the element, or it returns false and the queue is
  what it was.
\<close>
theorem try_enqueue_spec:
  assumes "rwq_inv ly q" and "layout_ok ly"
  shows "\<exists>r q'. (\<forall>malloc. try_enqueue ly malloc x q = Inr (r, q')) \<and> rwq_inv ly q' \<and>
    (if r then rwq_contents q' = rwq_contents q @ [x] else q' = q)"
proof -
  have "malloc_ok (\<lambda>_. 0)" by (simp add: malloc_ok_def)
  from inner_enqueue_spec [OF assms this, of CannotAlloc x] obtain r q' where
    r: "inner_enqueue ly (\<lambda>_. 0) CannotAlloc x q = Inr (r, q')" "rwq_inv ly q'"
    "rwq_contents q' = rwq_contents q @ (if r then [x] else [])" "\<not> r \<longrightarrow> q' = q" by metis
  have "try_enqueue ly malloc x q = inner_enqueue ly (\<lambda>_. 0) CannotAlloc x q" for malloc
    unfolding try_enqueue_def inner_enqueue_def enqueue_body_def alloc_mode.case ..
  then show ?thesis using r by (intro exI [of _ r] exI [of _ q']) (cases r; simp)
qed

theorem try_enqueue_spec_witness:
  "\<exists>r q'. (\<forall>malloc. try_enqueue std_layout malloc 5 (std_queue 1) = Inr (r, q')) \<and>
    rwq_inv std_layout q' \<and> (if r then rwq_contents q' = [5] else q' = std_queue 1)"
proof -
  have "rwq_inv std_layout (std_queue 1)" and "rwq_contents (std_queue 1) = []" using std_queue_1 by auto
  with try_enqueue_spec [OF this(1) std_ok(1), of 5] show ?thesis by (metis append_Nil)
qed

text \<open>
  \<open>try_dequeue\<close> never faults, no assertion fails, and no element is read that is not there:
  on an empty queue it returns false and changes nothing, otherwise it moves the oldest
  element out and leaves the others in order. The invariant is kept.
\<close>
theorem try_dequeue_spec:
  assumes "rwq_inv ly q"
  shows "(case rwq_contents q of
      [] \<Rightarrow> try_dequeue q = Inr (None, q)
    | x # xs \<Rightarrow> \<exists>q'. try_dequeue q = Inr (Some x, q') \<and> rwq_inv ly q' \<and> rwq_contents q' = xs)"
proof (cases "rwq_contents q")
  case Nil
  then show ?thesis using consumer_empty [OF assms Nil] by simp
next
  case (Cons x xs)
  obtain q' where "try_dequeue q = Inr (Some x, q')" "rwq_inv ly q'" "rwq_contents q' = xs"
    using consumer_Cons [OF assms Cons] by metis
  then show ?thesis unfolding Cons by simp
qed

theorem try_dequeue_spec_witness: "try_dequeue (std_queue 1) = Inr (None, std_queue 1)"
  using try_dequeue_spec [of std_layout "std_queue 1"] std_queue_1 by simp

text \<open>
  \<open>pop\<close> leaves the queue in exactly the state \<open>try_dequeue\<close> leaves it in and succeeds when
  it does; \<open>peek\<close> changes nothing, returns a null pointer when \<open>try_dequeue\<close> would return
  false, and otherwise a pointer to the element that \<open>try_dequeue\<close> would move out.
\<close>
theorem peek_and_pop_spec:
  assumes "rwq_inv ly q" and "try_dequeue q = Inr (r, q')"
  shows "pop q = Inr (r \<noteq> None, q') \<and>
    (\<exists>p. peek q = Inr (p, q) \<and> (p = None \<longleftrightarrow> r = None) \<and>
       (\<forall>a i. p = Some (a, i) \<longrightarrow> map_sum id Some (res_bind (get_block a q) (element_at i)) = Inr r))"
proof (cases "rwq_contents q")
  case Nil
  then show ?thesis using consumer_empty [OF assms(1) Nil] assms(2) by auto
next
  case (Cons x xs)
  obtain p a i where c: "try_dequeue q = Inr (Some x, p)" "pop q = Inr (True, p)"
    "peek q = Inr (Some (a, i), q)" "res_bind (get_block a q) (element_at i) = Inr x"
    using consumer_Cons [OF assms(1) Cons] by metis
  then show ?thesis using assms(2) by auto
qed

theorem peek_and_pop_spec_witness:
  "pop (std_queue 1) = Inr (False, std_queue 1) \<and> peek (std_queue 1) = Inr (None, std_queue 1)"
  using peek_and_pop_spec [of std_layout "std_queue 1" None "std_queue 1"] std_queue_1
    consumer_empty [of std_layout "std_queue 1"]
  by auto

text \<open>
  With no other thread at work \<open>size_approx\<close> is the exact number of elements, modulo the
  width of \<open>size_t\<close>: the loop over the ring returns, after one round.
\<close>
theorem size_approx_spec:
  assumes "rwq_inv ly q" and "length (blocks q) \<le> fuel"
  shows "size_approx fuel q = Inr (of_nat (length (rwq_contents q)))"
proof -
  obtain pre post where rep: "rwq_rep ly q pre post" using assms(1) by (auto simp: rwq_inv_def)
  show ?thesis using whole_ring(1) [OF rep assms(2)] contents_items [OF rep] by simp
qed

theorem size_approx_spec_witness: "size_approx 1 (std_queue 1) = Inr 0"
  using size_approx_spec [of std_layout "std_queue 1" 1] std_queue_1 by simp

text \<open>
  C30. The destructor returns; it destroys every element the queue still holds exactly once, in
  order, frees every block exactly once, and reads no block it has freed.
\<close>
theorem destructor_spec:
  assumes "rwq_inv ly q" and "length (blocks q) \<le> fuel"
  shows "\<exists>freed. ReaderWriterQueue_destroy fuel q = Inr (freed, rwq_contents q) \<and>
    distinct freed \<and> set freed = {..<length (blocks q)}"
proof -
  obtain pre post where rep: "rwq_rep ly q pre post" using assms(1) by (auto simp: rwq_inv_def)
  have "distinct (pre @ post)" "set (pre @ post) = {..<length (blocks q)}"
    using rep by (auto simp: rwq_rep_def ring_ok_def)
  then show ?thesis
    using whole_ring(2) [OF rep assms(2)] contents_items [OF rep] by metis
qed

theorem destructor_spec_witness:
  "\<exists>freed. ReaderWriterQueue_destroy 1 (std_queue 1) = Inr (freed, []) \<and> set freed = {..<1}"
proof -
  have "rwq_inv std_layout (std_queue 1)" "rwq_contents (std_queue 1) = []" "length (blocks (std_queue 1)) = 1"
    using std_queue_1 by auto
  with destructor_spec [OF this(1), of 1] show ?thesis by auto
qed

text \<open>
  C28. Over any sequence of enqueues (of either kind) and dequeues the queue is first in, first
  out: the elements dequeued, followed by those still inside, are those inside at first,
  followed by those whose enqueue returned true.
\<close>
theorem queue_trace:
  assumes "rwq_inv ly q" and "layout_ok ly" and "malloc_ok malloc"
    and "item_run (push_item ly malloc mode) pop_item ops q = (out, inn, q')"
  shows "rwq_inv ly q' \<and> out @ rwq_contents q' = rwq_contents q @ inn"
proof -
  have "rwq_env_inv ly malloc q" using assms(1-3) by (simp add: rwq_env_inv_def)
  from rwq.trace_fifo [OF this assms(4)] show ?thesis by (simp add: rwq_env_inv_def)
qed

theorem queue_trace_witness:
  "\<exists>out inn q'. item_run (push_item std_layout std_malloc CanAlloc) pop_item
     [Push 1, Push 2, Pop, Push 3, Pop, Pop, Pop] (std_queue 1) = (out, inn, q') \<and>
   out @ rwq_contents q' = inn"
proof -
  obtain out inn q' where run: "item_run (push_item std_layout std_malloc CanAlloc) pop_item
     [Push 1, Push 2, Pop, Push 3, Pop, Pop, Pop] (std_queue 1) = (out, inn, q')"
    by (metis prod_cases3)
  have "rwq_inv std_layout (std_queue 1)" "rwq_contents (std_queue 1) = []" using std_queue_1 by auto
  with queue_trace [OF this(1) std_ok run] run show ?thesis by auto
qed

end
