(* ===== verification/RW_Concurrent.thy ===== *)
theory RW_Concurrent
  imports RW_Properties Schedule
begin

text \<open>
  \<open>ReaderWriterQueue\<close> with its two threads at work: one producer in \<open>enqueue\<close> or
  \<open>try_enqueue\<close>, one consumer in \<open>try_dequeue\<close>, \<open>pop\<close> or \<open>peek\<close>. A step of a thread makes at most one access to
  a variable that the other thread writes, or one write that the other thread reads; the
  variables only the thread itself writes are read along with it. Steps interleave in any
  order; the acquire and release fences of the code are what lets the two threads see each
  other's writes in the order they were made, which is the order of the steps. \<open>enq\<close> and
  \<open>deq\<close> record the elements in the order their operations take effect and are not read by
  the code.
\<close>

section \<open>Program points\<close>

text \<open>
  The producer: the front of the tail block has been read; the element has been constructed
  in the tail block; a free next block was seen; the element has been constructed there; its
  tail has been written; a block has to be allocated; it has been made; it has been linked.
\<close>

datatype 'a ppc =
    P_Idle
  | P_Checked alloc_mode 'a nat u64 u64
  | P_Publish 'a nat u64
  | P_Next 'a nat
  | P_Next_Tail 'a nat u64
  | P_Next_Block 'a nat
  | P_Alloc 'a nat
  | P_Link 'a nat nat
  | P_New_Block 'a nat

text \<open>
  The consumer: before its first call; outside its calls, with the answer of the last one: none,
  which is false for \<open>try_dequeue\<close> and \<open>pop\<close> and null for \<open>peek\<close>, or true and the element
  taken; outside, with the pointer its last call, a \<open>peek\<close>, returned; the tail block has been read (and whether the queue was empty then); the front
  block has an element at an index; the element has been moved out, or not, and destroyed; the
  front block is empty and another is ahead; that block has been checked.
\<close>

datatype deq_op = Try_Dequeue | Pop_Front | Peek_Front

datatype 'a cpc =
    C_Idle
  | C_Returned deq_op "'a option"
  | C_Peeked nat u64
  | C_Tail deq_op nat bool
  | C_Take deq_op nat u64
  | C_Front deq_op nat 'a u64
  | C_Advance deq_op nat
  | C_Move deq_op nat u64

definition at_rest :: "'a cpc \<Rightarrow> bool" where
  "at_rest c = (case c of C_Idle \<Rightarrow> True | C_Returned _ _ \<Rightarrow> True | C_Peeked _ _ \<Rightarrow> True | _ \<Rightarrow> False)"

record 'a conc =
  shared :: "'a rwq"
  ppc :: "'a ppc"
  cpc :: "'a cpc"
  enq :: "'a list"
  deq :: "'a list"

section \<open>The producer\<close>

text \<open>Placement new, where an object that is still alive in the slot is a fault.\<close>

definition construct_raw :: "u64 \<Rightarrow> 'a \<Rightarrow> 'a block \<Rightarrow> 'a block res" where
  "construct_raw i x b =
     (if unat i < length (blk_data b) \<and> blk_data b ! unat i \<noteq> None then Inl Dead_Object
      else construct i x b)"

definition p_return :: "'a rwq \<Rightarrow> 'a list \<Rightarrow> 'a conc \<Rightarrow> 'a conc" where
  "p_return q added s = s\<lparr>shared := q\<lparr>enqueuing := False\<rparr>, ppc := P_Idle, enq := enq s @ added\<rparr>"

definition pstep ::
  "layout \<Rightarrow> (u64 \<Rightarrow> u64) \<Rightarrow> alloc_mode \<Rightarrow> 'a \<Rightarrow> 'a conc \<Rightarrow> 'a conc res" where
  "pstep ly malloc mode element s =
     (let q = shared s in
      case ppc s of
        P_Idle \<Rightarrow>
          if enqueuing q then Inl Assert_Failed
          else
            let q = q\<lparr>enqueuing := True\<rparr>; t = tailBlock q in
            res_bind (get_block t q) (\<lambda>tb.
            Inr (s\<lparr>shared := q, ppc := P_Checked mode element t (blk_front tb) (blk_tail tb)\<rparr>))
      | P_Checked m x t blockFront blockTail \<Rightarrow>
          res_bind (get_block t q) (\<lambda>tb.
          let nextBlockTail = (blockTail + 1) AND sizeMask tb in
          if nextBlockTail \<noteq> blockFront then
            res_bind (construct_raw blockTail x tb) (\<lambda>tb'.
            Inr (s\<lparr>shared := set_block t tb' q, ppc := P_Publish x t nextBlockTail\<rparr>))
          else if blk_next tb \<noteq> Some (frontBlock q) then
            res_bind (deref (blk_next tb)) (\<lambda>n. Inr (s\<lparr>ppc := P_Next x n\<rparr>))
          else case m of
            CanAlloc \<Rightarrow> Inr (s\<lparr>ppc := P_Alloc x t\<rparr>)
          | CannotAlloc \<Rightarrow> Inr (p_return q [] s))
      | P_Publish x t nextBlockTail \<Rightarrow>
          res_bind (get_block t q) (\<lambda>tb.
          Inr (p_return (set_block t (tb\<lparr>blk_tail := nextBlockTail\<rparr>) q) [x] s))
      | P_Next x n \<Rightarrow>
          res_bind (get_block n q) (\<lambda>nb.
          if blk_front nb \<noteq> blk_tail nb then Inl Assert_Failed
          else res_bind (construct_raw (blk_tail nb) x nb) (\<lambda>nb'.
            Inr (s\<lparr>shared := set_block n nb' q, ppc := P_Next_Tail x n (blk_tail nb)\<rparr>)))
      | P_Next_Tail x n nextBlockTail \<Rightarrow>
          res_bind (get_block n q) (\<lambda>nb.
          Inr (s\<lparr>shared := set_block n (nb\<lparr>blk_tail := (nextBlockTail + 1) AND sizeMask nb\<rparr>) q,
                 ppc := P_Next_Block x n\<rparr>))
      | P_Next_Block x n \<Rightarrow> Inr (p_return (q\<lparr>tailBlock := n\<rparr>) [x] s)
      | P_Alloc x t \<Rightarrow>
          res_bind (get_block t q) (\<lambda>tb.
          res_bind (make_block ly malloc (largestBlockSize q * 2)) (\<lambda>newBlock.
          case newBlock of
            None \<Rightarrow> Inr (p_return q [] s)
          | Some nb \<Rightarrow>
              res_bind (construct_raw 0 x nb) (\<lambda>nb.
              if blk_front nb \<noteq> 0 then Inl Assert_Failed
              else Inr (s\<lparr>shared := q\<lparr>largestBlockSize := largestBlockSize q * 2,
                       blocks := blocks q @ [nb\<lparr>blk_tail := 1, blk_next := blk_next tb\<rparr>]\<rparr>,
                     ppc := P_Link x t (length (blocks q))\<rparr>))))
      | P_Link x t a \<Rightarrow>
          res_bind (get_block t q) (\<lambda>tb.
          Inr (s\<lparr>shared := set_block t (tb\<lparr>blk_next := Some a\<rparr>) q, ppc := P_New_Block x a\<rparr>))
      | P_New_Block x a \<Rightarrow> Inr (p_return (q\<lparr>tailBlock := a\<rparr>) [x] s))"

section \<open>The consumer\<close>

definition c_return :: "deq_op \<Rightarrow> 'a rwq \<Rightarrow> 'a option \<Rightarrow> 'a conc \<Rightarrow> 'a conc" where
  "c_return op q answer s = s\<lparr>shared := q\<lparr>dequeuing := False\<rparr>, cpc := C_Returned op answer,
     deq := deq s @ (case answer of None \<Rightarrow> [] | Some x \<Rightarrow> [x])\<rparr>"

definition c_begin :: "deq_op \<Rightarrow> 'a conc \<Rightarrow> 'a conc res" where
  "c_begin op s =
     (let q = shared s in
      if dequeuing q then Inl Assert_Failed
      else Inr (s\<lparr>shared := q\<lparr>dequeuing := True\<rparr>, cpc := C_Tail op (tailBlock q) (enq s = deq s)\<rparr>))"

definition c_peeked :: "'a rwq \<Rightarrow> nat \<Rightarrow> u64 \<Rightarrow> 'a conc \<Rightarrow> 'a conc" where
  "c_peeked q a i s = s\<lparr>shared := q\<lparr>dequeuing := False\<rparr>, cpc := C_Peeked a i\<rparr>"

text \<open>
  \<open>op\<close> is the call that a consumer outside its calls begins. \<open>pop\<close> destroys the element without
  reading it; the element in \<open>C_Front\<close>, and in the answer, is then for the record only.
\<close>

definition cstep :: "deq_op \<Rightarrow> 'a conc \<Rightarrow> 'a conc res" where
  "cstep op s =
     (let q = shared s in
      case cpc s of
        C_Idle \<Rightarrow> c_begin op s
      | C_Returned _ _ \<Rightarrow> c_begin op s
      | C_Peeked _ _ \<Rightarrow> c_begin op s
      | C_Tail op tailBlockAtStart _ \<Rightarrow>
          let f = frontBlock q in
          res_bind (get_block f q) (\<lambda>fb.
          let blockTail = blk_tail fb; blockFront = blk_front fb in
          if blockFront \<noteq> blockTail then
            (case op of Peek_Front \<Rightarrow> Inr (c_peeked q f blockFront s) | _ \<Rightarrow> Inr (s\<lparr>cpc := C_Take op f blockFront\<rparr>))
          else if f \<noteq> tailBlockAtStart then Inr (s\<lparr>cpc := C_Advance op f\<rparr>)
          else Inr (c_return op q None s))
      | C_Take op f i \<Rightarrow>
          res_bind (get_block f q) (\<lambda>fb.
          res_bind (case op of Try_Dequeue \<Rightarrow> element_at i fb | _ \<Rightarrow> Inr (the (blk_data fb ! unat i))) (\<lambda>x.
          res_bind (destroy i fb) (\<lambda>fb'.
          Inr (s\<lparr>shared := set_block f fb' q, cpc := C_Front op f x i\<rparr>))))
      | C_Front op f x i \<Rightarrow>
          res_bind (get_block f q) (\<lambda>fb.
          Inr (c_return op (set_block f (fb\<lparr>blk_front := (i + 1) AND sizeMask fb\<rparr>) q) (Some x) s))
      | C_Advance op f \<Rightarrow>
          res_bind (get_block f q) (\<lambda>fb.
          res_bind (deref (blk_next fb)) (\<lambda>n.
          res_bind (get_block n q) (\<lambda>nb.
          if blk_front nb = blk_tail nb then Inl Assert_Failed
          else case op of Peek_Front \<Rightarrow> Inr (c_peeked q n (blk_front nb) s) | _ \<Rightarrow> Inr (s\<lparr>cpc := C_Move op n (blk_front nb)\<rparr>))))
      | C_Move op n i \<Rightarrow> Inr (s\<lparr>shared := q\<lparr>frontBlock := n\<rparr>, cpc := C_Take op n i\<rparr>))"

section \<open>Executions\<close>

definition conc_start :: "'a rwq \<Rightarrow> 'a conc" where
  "conc_start q = \<lparr>shared = q, ppc = P_Idle, cpc = C_Idle, enq = [], deq = []\<rparr>"

text \<open>
  The states reachable from a constructed queue by steps of either thread. The allocator may
  answer differently each time.
\<close>

inductive conc_reach :: "layout \<Rightarrow> 'a conc \<Rightarrow> bool" for ly where
  start: "\<lbrakk> malloc_ok malloc; 1 \<le> unat n; unat n < 2 ^ 63; bytes_of ly (unat (ceilToPow2 (n + 1))) < 2 ^ 64;
            ReaderWriterQueue ly malloc n = Inr q \<rbrakk> \<Longrightarrow> conc_reach ly (conc_start q)"
| producer: "\<lbrakk> conc_reach ly s; malloc_ok malloc; pstep ly malloc mode x s = Inr t \<rbrakk> \<Longrightarrow> conc_reach ly t"
| consumer: "\<lbrakk> conc_reach ly s; cstep op s = Inr t \<rbrakk> \<Longrightarrow> conc_reach ly t"

text \<open>
  A schedule: whose turn it is, and, for a producer that begins a call, which call. The
  measures count the steps a call still has to make.
\<close>

datatype 'a turn = Producer alloc_mode 'a | Consumer deq_op

fun is_producer :: "'a turn \<Rightarrow> bool" where
  "is_producer (Producer m x) = True"
| "is_producer (Consumer op) = False"

definition turn_step :: "layout \<Rightarrow> (u64 \<Rightarrow> u64) \<Rightarrow> 'a turn \<Rightarrow> 'a conc \<Rightarrow> 'a conc res" where
  "turn_step ly malloc a = (case a of Producer m x \<Rightarrow> pstep ly malloc m x | Consumer op \<Rightarrow> cstep op)"

definition conc_run :: "layout \<Rightarrow> (u64 \<Rightarrow> u64) \<Rightarrow> 'a turn list \<Rightarrow> 'a conc \<Rightarrow> 'a conc res" where
  "conc_run ly malloc = run_steps (turn_step ly malloc)"

definition p_left :: "'a ppc \<Rightarrow> nat" where
  "p_left p = (case p of
     P_Idle \<Rightarrow> 0 | P_Checked _ _ _ _ _ \<Rightarrow> 4 | P_Publish _ _ _ \<Rightarrow> 1 | P_Next _ _ \<Rightarrow> 3 | P_Next_Tail _ _ _ \<Rightarrow> 2
   | P_Next_Block _ _ \<Rightarrow> 1 | P_Alloc _ _ \<Rightarrow> 3 | P_Link _ _ _ \<Rightarrow> 2 | P_New_Block _ _ \<Rightarrow> 1)"

definition c_left :: "'a cpc \<Rightarrow> nat" where
  "c_left c = (case c of
     C_Idle \<Rightarrow> 0 | C_Returned _ _ \<Rightarrow> 0 | C_Peeked _ _ \<Rightarrow> 0 | C_Tail _ _ _ \<Rightarrow> 5 | C_Take _ _ _ \<Rightarrow> 2
   | C_Front _ _ _ _ \<Rightarrow> 1
   | C_Advance _ _ \<Rightarrow> 4 | C_Move _ _ _ \<Rightarrow> 3)"

section \<open>The abstract queue\<close>

text \<open>
  What the two threads promise together: a queue whose operations take effect at one moment
  between their call and their return. The state is the element of the enqueue under way and
  whether it may allocate; the elements of the queue; and of the consumer the answer of its last
  call, or the call under way with whether the queue was empty when it began. A call that takes
  an element answers with the oldest and removes it, a \<open>peek\<close> answers with the oldest and removes nothing, and
  no call answers that there is nothing unless the queue was empty when it began. An enqueue adds its
  element, unless it may not allocate or the allocator has no memory for another block (\<open>no_mem\<close>).
\<close>

datatype 'a answer = Not_Called | Answered deq_op "'a option"

datatype 'a deq_call = Outside "'a answer" | Called deq_op bool

type_synonym 'a enq_call = "(alloc_mode \<times> 'a) option"

type_synonym 'a atomic = "'a enq_call \<times> 'a list \<times> 'a deq_call"

definition no_memory :: "layout \<Rightarrow> (u64 \<Rightarrow> u64) \<Rightarrow> 'a rwq \<Rightarrow> bool" where
  "no_memory ly malloc q \<longleftrightarrow> malloc (block_bytes ly (largestBlockSize q * 2)) = 0"

inductive atomic_step :: "bool \<Rightarrow> 'a atomic \<Rightarrow> 'a atomic \<Rightarrow> bool" for no_mem where
  call_enqueue: "atomic_step no_mem (None, xs, c) (Some (m, x), xs, c)"
| enqueued: "atomic_step no_mem (Some (m, x), xs, c) (None, xs @ [x], c)"
| refused: "m = CannotAlloc \<or> no_mem \<Longrightarrow> atomic_step no_mem (Some (m, x), xs, c) (None, xs, c)"
| call_dequeue: "atomic_step no_mem (h, xs, Outside r) (h, xs, Called op (xs = []))"
| dequeued: "op \<noteq> Peek_Front \<Longrightarrow>
    atomic_step no_mem (h, x # xs, Called op e) (h, xs, Outside (Answered op (Some x)))"
| peeked: "atomic_step no_mem (h, x # xs, Called Peek_Front e) (h, x # xs, Outside (Answered Peek_Front (Some x)))"
| nothing: "atomic_step no_mem (h, xs, Called op True) (h, xs, Outside (Answered op None))"

definition in_hand :: "'a ppc \<Rightarrow> 'a option" where
  "in_hand p = (case p of
     P_Idle \<Rightarrow> None | P_Checked _ x _ _ _ \<Rightarrow> Some x | P_Publish x _ _ \<Rightarrow> Some x | P_Next x _ \<Rightarrow> Some x
   | P_Next_Tail x _ _ \<Rightarrow> Some x | P_Next_Block x _ \<Rightarrow> Some x | P_Alloc x _ \<Rightarrow> Some x
   | P_Link x _ _ \<Rightarrow> Some x | P_New_Block x _ \<Rightarrow> Some x)"

definition undecided :: "'a ppc \<Rightarrow> bool" where
  "undecided p = (case p of P_Checked _ _ _ _ _ \<Rightarrow> True | P_Alloc _ _ \<Rightarrow> True | _ \<Rightarrow> False)"

definition enq_seen :: "'a ppc \<Rightarrow> 'a enq_call \<Rightarrow> bool" where
  "enq_seen p h \<longleftrightarrow> in_hand p = map_option snd h \<and>
     (case p of P_Checked m x _ _ _ \<Rightarrow> h = Some (m, x) | _ \<Rightarrow> True)"

text \<open>
  The call under way; whether it has gone on to take an element; and the last answer, where the
  pointer of a \<open>peek\<close> stands for the element it points to.
\<close>

definition call_op :: "'a cpc \<Rightarrow> deq_op option" where
  "call_op p = (case p of
     C_Tail op _ _ \<Rightarrow> Some op | C_Take op _ _ \<Rightarrow> Some op | C_Front op _ _ _ \<Rightarrow> Some op
   | C_Advance op _ \<Rightarrow> Some op | C_Move op _ _ \<Rightarrow> Some op | _ \<Rightarrow> None)"

definition takes :: "'a cpc \<Rightarrow> bool" where
  "takes p = (case p of C_Take _ _ _ \<Rightarrow> True | C_Front _ _ _ _ \<Rightarrow> True | C_Move _ _ _ \<Rightarrow> True | _ \<Rightarrow> False)"

definition last_answer :: "'a rwq \<Rightarrow> 'a cpc \<Rightarrow> 'a answer option" where
  "last_answer q p = (case p of
     C_Idle \<Rightarrow> Some Not_Called
   | C_Returned op r \<Rightarrow> Some (Answered op r)
   | C_Peeked a i \<Rightarrow> (case res_bind (get_block a q) (element_at i) of
       Inr x \<Rightarrow> Some (Answered Peek_Front (Some x)) | Inl _ \<Rightarrow> None)
   | _ \<Rightarrow> None)"

definition call_seen :: "'a rwq \<Rightarrow> 'a cpc \<Rightarrow> 'a deq_call \<Rightarrow> bool" where
  "call_seen q p c = (case c of
     Outside r \<Rightarrow> last_answer q p = Some r
   | Called op e \<Rightarrow> call_op p = Some op \<and> (takes p \<longrightarrow> op \<noteq> Peek_Front) \<and>
       (case p of C_Tail _ _ e' \<Rightarrow> e' = e | _ \<Rightarrow> True))"

definition refines :: "'a conc \<Rightarrow> 'a atomic \<Rightarrow> bool" where
  "refines s a = (case a of (h, xs, c) \<Rightarrow>
     enq_seen (ppc s) h \<and> enq s = deq s @ xs \<and> call_seen (shared s) (cpc s) c)"

end
