(* ===== verification/RW_Conc_Block.thy ===== *)
theory RW_Conc_Block
  imports RW_Concurrent
begin

text \<open>
  A block while the two threads are inside it: the producer may have constructed an element
  in the slot at the tail without publishing it, the consumer may have destroyed the element
  at the front without moving the front. \<open>conc_rep b xs p c\<close>: the elements from front to tail
  are \<open>xs\<close>, \<open>p\<close> is the unpublished element, \<open>c\<close> says that the first slot is already empty.
\<close>

definition conc_rep :: "'a block \<Rightarrow> 'a list \<Rightarrow> 'a option \<Rightarrow> bool \<Rightarrow> bool" where
  "conc_rep b xs p c \<longleftrightarrow>
     (\<exists>k. 1 \<le> k \<and> k < 64 \<and> blk_size b = 2 ^ k \<and> length (blk_data b) = 2 ^ k) \<and>
     length xs + (if p = None then 0 else 1) < length (blk_data b) \<and>
     (c \<longrightarrow> xs \<noteq> []) \<and>
     unat (blk_front b) < length (blk_data b) \<and>
     unat (blk_tail b) = (unat (blk_front b) + length xs) mod length (blk_data b) \<and>
     (\<forall>j < length (blk_data b).
        blk_data b ! ((unat (blk_front b) + j) mod length (blk_data b)) =
          (if j < length xs then (if c \<and> j = 0 then None else Some (xs ! j))
           else if j = length xs then p else None))"

lemma conc_rep_settled: "conc_rep b xs None False \<longleftrightarrow> block_rep b xs"
  by (auto simp: conc_rep_def block_rep_def)

lemma conc_rep_next [simp]: "conc_rep (b\<lparr>blk_next := v\<rparr>) xs p c = conc_rep b xs p c"
  by (simp add: conc_rep_def)

text \<open>The indices alone: a block with the same indices and no operation under way.\<close>

definition settled :: "'a block \<Rightarrow> 'a list \<Rightarrow> 'a block" where
  "settled b xs = b\<lparr>blk_data := map (\<lambda>i.
     let j = (i + length (blk_data b) - unat (blk_front b)) mod length (blk_data b)
     in if j < length xs then Some (xs ! j) else None) [0..<length (blk_data b)]\<rparr>"

lemma settled_rep:
  assumes "conc_rep b xs p c"
  shows "block_rep (settled b xs) xs"
proof -
  let ?n = "length (blk_data b)" and ?f = "unat (blk_front b)"
  have f: "?f < ?n" and rest: "\<exists>k. 1 \<le> k \<and> k < 64 \<and> blk_size b = 2 ^ k \<and> ?n = 2 ^ k"
    "length xs < ?n" "unat (blk_tail b) = (?f + length xs) mod ?n"
    using assms by (auto simp: conc_rep_def)
  have "blk_data (settled b xs) ! ((?f + j) mod ?n) = (if j < length xs then Some (xs ! j) else None)"
    if "j < ?n" for j
  proof -
    have "(?f + j) mod ?n < ?n" using f by (intro mod_less_divisor) linarith
    then show ?thesis using circ_distance [OF f that] by (simp add: settled_def Let_def)
  qed
  then show ?thesis using f rest by (simp add: block_rep_def settled_def)
qed

lemma settled_sel [simp]:
  "blk_front (settled b xs) = blk_front b" "blk_tail (settled b xs) = blk_tail b"
  "sizeMask (settled b xs) = sizeMask b" "length (blk_data (settled b xs)) = length (blk_data b)"
  by (simp_all add: settled_def sizeMask_def)

lemma conc_full_iff:
  "conc_rep b xs p c \<Longrightarrow> (blk_tail b + 1) AND sizeMask b = blk_front b \<longleftrightarrow> length xs + 1 = length (blk_data b)"
  using block_full_iff [OF settled_rep, of b xs p c] by simp

lemma conc_empty_iff:
  "conc_rep b xs p c \<Longrightarrow> blk_front b = blk_tail b \<longleftrightarrow> xs = []"
  using block_empty_iff [OF settled_rep, of b xs p c] by simp

lemma conc_next_index:
  "conc_rep b xs p c \<Longrightarrow> unat i < length (blk_data b) \<Longrightarrow>
   unat ((i + 1) AND sizeMask b) = (unat i + 1) mod length (blk_data b)"
  using index_next [OF settled_rep, of b xs p c i] by simp

lemma conc_size2: "conc_rep b xs p c \<Longrightarrow> 2 \<le> length (blk_data b)"
  using block_rep_size2 [OF settled_rep, of b xs p c] by simp

section \<open>The producer's half steps\<close>

lemma conc_construct:
  assumes rep: "conc_rep b xs None c" and room: "length xs + 1 < length (blk_data b)"
  obtains b' where "construct_raw (blk_tail b) x b = Inr b'" and "conc_rep b' xs (Some x) c"
    and "blk_front b' = blk_front b" and "blk_tail b' = blk_tail b" and "blk_next b' = blk_next b"
    and "sizeMask b' = sizeMask b" and "length (blk_data b') = length (blk_data b)"
proof -
  let ?n = "length (blk_data b)" and ?f = "unat (blk_front b)"
  have f: "?f < ?n" and t: "unat (blk_tail b) = (?f + length xs) mod ?n" and xs: "length xs < ?n"
    and d: "\<forall>j<?n. blk_data b ! ((?f + j) mod ?n) =
      (if j < length xs then (if c \<and> j = 0 then None else Some (xs ! j)) else if j = length xs then None else None)"
    using rep by (auto simp: conc_rep_def)
  have tn: "unat (blk_tail b) < ?n" using f unfolding t by (intro mod_less_divisor) linarith
  have raw: "blk_data b ! unat (blk_tail b) = None" using d [rule_format, OF xs] by (simp add: t)
  define b' where "b' = b\<lparr>blk_data := (blk_data b)[unat (blk_tail b) := Some x]\<rparr>"
  have "blk_data b' ! ((?f + j) mod ?n) =
      (if j < length xs then (if c \<and> j = 0 then None else Some (xs ! j)) else if j = length xs then Some x else None)"
    if "j < ?n" for j
  proof (cases "j = length xs")
    case True
    then show ?thesis using tn by (simp add: b'_def t [symmetric])
  next
    case False
    then have "unat (blk_tail b) \<noteq> (?f + j) mod ?n" using circ_inj [OF xs that, of ?f] by (auto simp: t)
    then show ?thesis using d that False by (auto simp: b'_def)
  qed
  then have "conc_rep b' xs (Some x) c"
    using rep room by (auto simp: conc_rep_def b'_def)
  then show ?thesis
    using that [of b'] tn raw by (simp add: construct_raw_def construct_def b'_def sizeMask_def)
qed

lemma conc_publish:
  assumes rep: "conc_rep b xs (Some x) c"
  shows "conc_rep (b\<lparr>blk_tail := (blk_tail b + 1) AND sizeMask b\<rparr>) (xs @ [x]) None c"
proof -
  let ?n = "length (blk_data b)" and ?f = "unat (blk_front b)"
  have f: "?f < ?n" and t: "unat (blk_tail b) = (?f + length xs) mod ?n" and xs: "length xs + 1 < ?n"
    and d: "\<forall>j<?n. blk_data b ! ((?f + j) mod ?n) =
      (if j < length xs then (if c \<and> j = 0 then None else Some (xs ! j)) else if j = length xs then Some x else None)"
    and c: "c \<longrightarrow> xs \<noteq> []"
    using rep by (auto simp: conc_rep_def)
  have "unat (blk_tail b) < ?n" using f unfolding t by (intro mod_less_divisor) linarith
  from conc_next_index [OF rep this]
  have t': "unat ((blk_tail b + 1) AND sizeMask b) = (?f + length (xs @ [x])) mod ?n"
    by (simp add: t mod_Suc_eq)
  have "blk_data b ! ((?f + j) mod ?n) =
      (if j < length (xs @ [x]) then (if c \<and> j = 0 then None else Some ((xs @ [x]) ! j))
       else if j = length (xs @ [x]) then None else None)" if "j < ?n" for j
    using d [rule_format, OF that] c by (auto simp: nth_append)
  then show ?thesis
    using rep xs t' f by (auto simp: conc_rep_def)
qed

section \<open>The consumer's half steps\<close>

lemma conc_take:
  assumes rep: "conc_rep b (x # xs) p False"
  obtains b' where "element_at (blk_front b) b = Inr x" and "destroy (blk_front b) b = Inr b'"
    and "conc_rep b' (x # xs) p True"
    and "blk_front b' = blk_front b" and "blk_tail b' = blk_tail b" and "blk_next b' = blk_next b"
    and "sizeMask b' = sizeMask b" and "length (blk_data b') = length (blk_data b)"
proof -
  let ?n = "length (blk_data b)" and ?f = "unat (blk_front b)"
  have f: "?f < ?n"
    and d: "\<forall>j<?n. blk_data b ! ((?f + j) mod ?n) =
      (if j < length (x # xs) then Some ((x # xs) ! j) else if j = length (x # xs) then p else None)"
    using rep by (auto simp: conc_rep_def)
  have "blk_data b ! ((?f + 0) mod ?n) = Some x" using d f by fastforce
  then have el: "element_at (blk_front b) b = Inr x" using f by (simp add: element_at_def)
  define b' where "b' = b\<lparr>blk_data := (blk_data b)[?f := None]\<rparr>"
  have "blk_data b' ! ((?f + j) mod ?n) =
      (if j < length (x # xs) then (if True \<and> j = 0 then None else Some ((x # xs) ! j))
       else if j = length (x # xs) then p else None)" if "j < ?n" for j
  proof (cases "j = 0")
    case False
    have "(?f + 0) mod ?n = ?f" using f by simp
    moreover have "0 < ?n" using f by linarith
    ultimately have "?f \<noteq> (?f + j) mod ?n" using circ_inj [of 0 ?n j ?f] that False by metis
    then show ?thesis using d that False by (auto simp: b'_def)
  qed (use f in \<open>simp add: b'_def\<close>)
  then have "conc_rep b' (x # xs) p True" using rep by (auto simp: conc_rep_def b'_def)
  moreover have "destroy (blk_front b) b = Inr b'" using el by (simp add: destroy_def b'_def)
  ultimately show ?thesis using that el by (simp add: b'_def sizeMask_def)
qed

lemma conc_front:
  assumes rep: "conc_rep b (x # xs) p True"
  shows "conc_rep (b\<lparr>blk_front := (blk_front b + 1) AND sizeMask b\<rparr>) xs p False"
proof -
  let ?n = "length (blk_data b)" and ?f = "unat (blk_front b)"
  have f: "?f < ?n" and t: "unat (blk_tail b) = (?f + length (x # xs)) mod ?n"
    and len: "length (x # xs) + (if p = None then 0 else 1) < ?n"
    and d: "\<forall>j<?n. blk_data b ! ((?f + j) mod ?n) =
      (if j < length (x # xs) then (if True \<and> j = 0 then None else Some ((x # xs) ! j))
       else if j = length (x # xs) then p else None)"
    and k: "\<exists>k. 1 \<le> k \<and> k < 64 \<and> blk_size b = 2 ^ k \<and> ?n = 2 ^ k"
    using rep by (auto simp: conc_rep_def)
  define f' where "f' = (?f + 1) mod ?n"
  have f': "unat ((blk_front b + 1) AND sizeMask b) = f'" "f' < ?n"
    using conc_next_index [OF rep f] f by (auto simp: f'_def intro!: mod_less_divisor)
  have shift: "(f' + j) mod ?n = (?f + Suc j) mod ?n" for j
    by (simp add: f'_def mod_add_left_eq [of "?f + 1", symmetric] flip: add_Suc_right) (simp add: mod_add_left_eq)
  have "blk_data b ! ((f' + j) mod ?n) =
      (if j < length xs then (if False \<and> j = 0 then None else Some (xs ! j)) else if j = length xs then p else None)"
    if "j < ?n" for j
  proof (cases "Suc j < ?n")
    case True
    then show ?thesis using d [rule_format, OF True] by (simp add: shift)
  next
    case False
    then have j: "Suc j = ?n" using that by simp
    then have "(f' + j) mod ?n = ?f" using f by (simp add: shift)
    moreover have "blk_data b ! ?f = None" using d f by fastforce
    ultimately show ?thesis using j len by (cases p) auto
  qed
  then show ?thesis
    using k len f' t shift [of "length xs"] by (simp add: conc_rep_def)
qed

end
