(* ===== verification/RW_Conc_Inv.thy ===== *)
theory RW_Conc_Inv
  imports RW_Conc_Block
begin

text \<open>
  The invariant of the two threads. As in \<open>RW_Refine\<close> the ring of blocks is \<open>pre @ post\<close>, from
  the front block to the tail block and on over the free blocks; \<open>E a\<close> is the elements
  published in block \<open>a\<close>. The invariant is a conjunction of parts: the pointers and flags, the
  ring, the data of the blocks, the elements, and one part for the program point of each
  thread. A step of one thread keeps the part of the other because it only grows, for the
  producer, or only shrinks, for the consumer, what the other has seen (\<open>seen_grow\<close>,
  \<open>seen_shrink\<close>).
\<close>

section \<open>The parts\<close>

text \<open>The unpublished element of a block, and whether its first slot is already empty.\<close>

definition pend :: "'a ppc \<Rightarrow> nat \<Rightarrow> 'a option" where
  "pend p a = (case p of
     P_Publish x t _ \<Rightarrow> if a = t then Some x else None
   | P_Next_Tail x n _ \<Rightarrow> if a = n then Some x else None
   | _ \<Rightarrow> None)"

definition taken :: "'a cpc \<Rightarrow> nat \<Rightarrow> bool" where
  "taken c a = (case c of C_Front _ f _ _ \<Rightarrow> a = f | _ \<Rightarrow> False)"

text \<open>What a free block holds: the element the producer is about to make reachable.\<close>

definition hidden :: "'a ppc \<Rightarrow> nat \<Rightarrow> 'a list" where
  "hidden p a = (case p of
     P_Next_Block x n \<Rightarrow> if a = n then [x] else []
   | P_New_Block x n \<Rightarrow> if a = n then [x] else []
   | _ \<Rightarrow> [])"

text \<open>The number of blocks that are on the ring: a block being linked is not.\<close>

definition on_ring :: "'a ppc \<Rightarrow> nat \<Rightarrow> nat" where
  "on_ring p n = (case p of P_Link _ _ _ \<Rightarrow> n - 1 | _ \<Rightarrow> n)"

definition c_ptrs :: "layout \<Rightarrow> 'a conc \<Rightarrow> nat list \<Rightarrow> bool" where
  "c_ptrs ly s pre \<longleftrightarrow> pre \<noteq> [] \<and> hd pre = frontBlock (shared s) \<and> last pre = tailBlock (shared s) \<and>
     largest_ok ly (largestBlockSize (shared s)) \<and>
     enqueuing (shared s) = (ppc s \<noteq> P_Idle) \<and> dequeuing (shared s) = (\<not> at_rest (cpc s))"

definition c_ring :: "'a block list \<Rightarrow> nat \<Rightarrow> nat list \<Rightarrow> nat list \<Rightarrow> bool" where
  "c_ring bs n pre post \<longleftrightarrow> distinct (pre @ post) \<and> set (pre @ post) = {..<n} \<and> n \<le> length bs \<and>
     links bs (pre @ post @ [hd pre])"

definition c_data :: "'a block list \<Rightarrow> 'a ppc \<Rightarrow> 'a cpc \<Rightarrow> (nat \<Rightarrow> 'a list) \<Rightarrow> bool" where
  "c_data bs p c E \<longleftrightarrow> (\<forall>a < length bs. conc_rep (bs ! a) (E a) (pend p a) (taken c a))"

definition c_elems :: "'a conc \<Rightarrow> nat list \<Rightarrow> nat list \<Rightarrow> (nat \<Rightarrow> 'a list) \<Rightarrow> bool" where
  "c_elems s pre post E \<longleftrightarrow> enq s = deq s @ concat (map E pre) \<and>
     (\<forall>a \<in> set (tl pre). E a \<noteq> []) \<and> (\<forall>a \<in> set post. E a = hidden (ppc s) a)"

definition p_seen :: "'a ppc \<Rightarrow> 'a block list \<Rightarrow> nat list \<Rightarrow> nat list \<Rightarrow> (nat \<Rightarrow> 'a list) \<Rightarrow> bool" where
  "p_seen p bs pre post E = (case p of
     P_Idle \<Rightarrow> True
   | P_Checked m x t bf bt \<Rightarrow> t = last pre \<and> bt = blk_tail (bs ! t) \<and>
       ((bt + 1) AND sizeMask (bs ! t) \<noteq> bf \<longrightarrow> length (E t) + 1 < length (blk_data (bs ! t)))
   | P_Publish x t nt \<Rightarrow> t = last pre \<and> nt = (blk_tail (bs ! t) + 1) AND sizeMask (bs ! t)
   | P_Next x n \<Rightarrow> (\<exists>r. post = n # r)
   | P_Next_Tail x n nt \<Rightarrow> (\<exists>r. post = n # r) \<and> nt = blk_tail (bs ! n)
   | P_Next_Block x n \<Rightarrow> (\<exists>r. post = n # r)
   | P_Alloc x t \<Rightarrow> t = last pre
   | P_Link x t a \<Rightarrow> t = last pre \<and> length bs = Suc a \<and> blk_next (bs ! a) = blk_next (bs ! t) \<and> E a = [x]
   | P_New_Block x a \<Rightarrow> (\<exists>r. post = a # r))"

definition c_seen :: "'a cpc \<Rightarrow> 'a block list \<Rightarrow> nat list \<Rightarrow> (nat \<Rightarrow> 'a list) \<Rightarrow> bool" where
  "c_seen c bs pre E = (case c of
     C_Idle \<Rightarrow> True
   | C_Returned _ _ \<Rightarrow> True
   | C_Peeked a i \<Rightarrow> (a = hd pre \<and> E a \<noteq> [] \<or> (\<exists>f r. pre = f # a # r \<and> E f = [])) \<and> i = blk_front (bs ! a)
   | C_Tail op t e \<Rightarrow> t \<in> set pre \<and> (t = hd pre \<and> E t = [] \<longrightarrow> e)
   | C_Take op f i \<Rightarrow> f = hd pre \<and> i = blk_front (bs ! f) \<and> E f \<noteq> []
   | C_Front op f x i \<Rightarrow> f = hd pre \<and> i = blk_front (bs ! f) \<and> (\<exists>xs. E f = x # xs)
   | C_Advance op f \<Rightarrow> f = hd pre \<and> E f = [] \<and> tl pre \<noteq> []
   | C_Move op n i \<Rightarrow> (\<exists>f r. pre = f # n # r \<and> E f = []) \<and> i = blk_front (bs ! n))"

definition cinv_at :: "layout \<Rightarrow> 'a conc \<Rightarrow> nat list \<Rightarrow> nat list \<Rightarrow> (nat \<Rightarrow> 'a list) \<Rightarrow> bool" where
  "cinv_at ly s pre post E \<longleftrightarrow>
     c_ptrs ly s pre \<and>
     c_ring (blocks (shared s)) (on_ring (ppc s) (length (blocks (shared s)))) pre post \<and>
     c_data (blocks (shared s)) (ppc s) (cpc s) E \<and>
     c_elems s pre post E \<and>
     p_seen (ppc s) (blocks (shared s)) pre post E \<and>
     c_seen (cpc s) (blocks (shared s)) pre E"

definition cinv :: "layout \<Rightarrow> 'a conc \<Rightarrow> bool" where
  "cinv ly s \<longleftrightarrow> (\<exists>pre post E. cinv_at ly s pre post E)"

section \<open>What a step of the other thread leaves\<close>

lemma seen_grow:
  assumes "c_seen c bs pre E" and "pre \<noteq> []"
    and "\<forall>a \<in> set pre. \<exists>ys. E' a = E a @ ys"
    and "tl pre \<noteq> [] \<Longrightarrow> E' (hd pre) = E (hd pre)"
    and "\<forall>a \<in> set pre. blk_front (bs' ! a) = blk_front (bs ! a)"
  shows "c_seen c bs' (pre @ new) E'"
proof -
  have h: "hd pre \<in> set pre" "hd (pre @ new) = hd pre" using assms(2) by simp_all
  show ?thesis
  proof (cases c)
    case (C_Front op f x i)
    then have "f \<in> set pre" using assms(1) h by (simp add: c_seen_def)
    then obtain ys where "E' f = E f @ ys" using assms(3) by blast
    then show ?thesis using assms(1,5) C_Front h by (auto simp: c_seen_def)
  next
    case (C_Tail op t e)
    then have "t \<in> set pre" using assms(1) by (simp add: c_seen_def)
    then obtain ys where "E' t = E t @ ys" using assms(3) by blast
    then show ?thesis using assms(1) C_Tail h by (auto simp: c_seen_def)
  next
    case (C_Take op f i)
    then have "f \<in> set pre" using assms(1) h by (simp add: c_seen_def)
    then obtain ys where "E' f = E f @ ys" using assms(3) by blast
    then show ?thesis using assms(1,5) C_Take h by (auto simp: c_seen_def)
  next
    case (C_Advance op f)
    then have "tl pre \<noteq> []" using assms(1) by (simp add: c_seen_def)
    then show ?thesis using assms(1,2,4) C_Advance by (auto simp: c_seen_def)
  next
    case (C_Move op n i)
    then obtain f r where "pre = f # n # r" "E f = []" using assms(1) by (auto simp: c_seen_def)
    then show ?thesis using assms(1,4,5) C_Move by (auto simp: c_seen_def)
  next
    case (C_Peeked a i)
    then consider (here) "a = hd pre" "E a \<noteq> []" | (ahead) f r where "pre = f # a # r" "E f = []"
      using assms(1) by (auto simp: c_seen_def)
    then show ?thesis
    proof cases
      case here
      then obtain ys where "E' a = E a @ ys" using assms(3) h(1) by blast
      then show ?thesis using assms(1,5) C_Peeked h here by (auto simp: c_seen_def)
    next
      case (ahead f r)
      then show ?thesis using assms(1,4,5) C_Peeked by (auto simp: c_seen_def)
    qed
  qed (simp_all add: c_seen_def)
qed

lemma seen_shrink:
  assumes "p_seen p bs pre post E" and "length bs' = length bs" and "last pre' = last pre"
    and "last pre < length bs" and "set post \<subseteq> {..<length bs}"
    and "length (E' (last pre)) \<le> length (E (last pre))"
    and "\<And>x t a. p = P_Link x t a \<Longrightarrow> E' a = E a"
    and "\<forall>a < length bs. blk_tail (bs' ! a) = blk_tail (bs ! a) \<and> blk_next (bs' ! a) = blk_next (bs ! a) \<and>
      sizeMask (bs' ! a) = sizeMask (bs ! a) \<and> length (blk_data (bs' ! a)) = length (blk_data (bs ! a))"
  shows "p_seen p bs' pre' (post @ free) E'"
  using assms by (cases p) (auto simp: p_seen_def)

lemma data_set:
  assumes "c_data bs p c E" and "conc_rep b xs (pend p' a) (taken c' a)"
    and "\<forall>d. d \<noteq> a \<longrightarrow> pend p' d = pend p d \<and> taken c' d = taken c d"
  shows "c_data (bs[a := b]) p' c' (E(a := xs))"
  using assms by (auto simp: c_data_def nth_list_update)

lemma ring_nexts:
  assumes "c_ring bs n pre post" and "pre \<noteq> []" and "n \<le> length bs'"
    and "\<forall>a < n. blk_next (bs' ! a) = blk_next (bs ! a)"
  shows "c_ring bs' n pre post"
proof -
  have "links bs' (pre @ post @ [hd pre]) = links bs (pre @ post @ [hd pre])"
  proof (rule links_cong)
    fix a assume "a \<in> set (butlast (pre @ post @ [hd pre]))"
    then have "a \<in> set (pre @ post)" by (simp add: butlast_append split: if_splits)
    then show "blk_next (bs' ! a) = blk_next (bs ! a)" using assms(1,4) by (auto simp: c_ring_def)
  qed
  then show ?thesis using assms(1,3) by (simp add: c_ring_def)
qed

text \<open>The next block of the tail block.\<close>

lemma ring_next_tail:
  assumes "c_ring bs n pre post" and "pre \<noteq> []"
  shows "blk_next (bs ! last pre) = Some (hd (post @ [hd pre]))"
proof -
  have eq: "pre @ post @ [hd pre] = butlast pre @ last pre # (post @ [hd pre])"
    using assms(2) by simp
  have "links bs (pre @ post @ [hd pre])" using assms(1) by (simp add: c_ring_def)
  then have "links bs (last pre # (post @ [hd pre]))"
    unfolding eq by (rule links_append [THEN iffD1, THEN conjunct2])
  then show ?thesis by (cases post) simp_all
qed

text \<open>The next block of a block before the tail block.\<close>

lemma ring_next_front:
  assumes "c_ring bs n (f # g # r) post"
  shows "blk_next (bs ! f) = Some g"
  using assms by (simp add: c_ring_def)

lemma ring_lt: "c_ring bs n pre post \<Longrightarrow> a \<in> set (pre @ post) \<Longrightarrow> a < n \<and> a < length bs"
  by (auto simp: c_ring_def)

text \<open>The front moves: the ring is rotated.\<close>

lemma ring_rotate:
  assumes "c_ring bs n (f # g # r) post"
  shows "c_ring bs n (g # r) (post @ [f])"
proof -
  have l: "links bs (f # (g # r @ post @ [f]))" using assms by (simp add: c_ring_def)
  then have "blk_next (bs ! f) = Some g" and "links bs (g # r @ post @ [f])" by simp_all
  then have "links bs ((g # r @ post) @ f # [g])"
    by (intro links_append [THEN iffD2]) simp
  then show ?thesis using assms by (auto simp: c_ring_def)
qed

text \<open>The tail moves to the next free block.\<close>

lemma ring_shift: "c_ring bs n pre (a # post) \<Longrightarrow> pre \<noteq> [] \<Longrightarrow> c_ring bs n (pre @ [a]) post"
  by (simp add: c_ring_def)

text \<open>A block is linked behind the tail block.\<close>

lemma ring_link:
  assumes ring: "c_ring bs a pre post" and "pre \<noteq> []" and len: "length bs = Suc a"
    and nx: "blk_next (bs ! a) = blk_next (bs ! last pre)"
  shows "c_ring (bs[last pre := (bs ! last pre)\<lparr>blk_next := Some a\<rparr>]) (Suc a) pre (a # post)"
proof -
  let ?t = "last pre"
  define bs' where "bs' = bs[?t := (bs ! ?t)\<lparr>blk_next := Some a\<rparr>]"
  have t: "?t < a" "?t \<in> set pre" using ring_lt [OF ring, of ?t] assms(2) by auto
  have eq: "pre @ (a # post) @ [hd pre] = butlast pre @ ?t # a # (post @ [hd pre])"
    and eq0: "pre @ post @ [hd pre] = butlast pre @ ?t # (post @ [hd pre])"
    using assms(2) by simp_all
  have d: "distinct (pre @ post)" "set (pre @ post) = {..<a}" and l: "links bs (pre @ post @ [hd pre])"
    using ring by (auto simp: c_ring_def)
  have "?t \<notin> set (butlast pre)"
    using d(1) assms(2) by (metis append_butlast_last_id distinct_append not_distinct_conv_prefix)
  moreover have "?t \<notin> set post" using d(1) t(2) by auto
  moreover have "a \<notin> set pre" and "a \<notin> set post" using d(2) by auto
  ultimately have "c \<noteq> ?t" if "c \<in> set (butlast pre) \<or> c \<in> set post \<or> c = a" for c
    using that t(1) by blast
  then have same: "bs' ! c = bs ! c" if "c \<in> set (butlast pre) \<or> c \<in> set post \<or> c = a" for c
    using that unfolding bs'_def by (metis nth_list_update_neq)
  have "links bs (butlast pre @ [?t])" and l2: "links bs (?t # (post @ [hd pre]))"
    using l unfolding eq0 by (metis links_append)+
  then have p1: "links bs' (butlast pre @ [?t])"
    using links_cong [of "butlast pre @ [?t]" bs bs'] same by simp
  have p2: "links bs' (a # (post @ [hd pre]))"
  proof (cases post)
    case Nil
    then show ?thesis using nx l2 same [of a] by simp
  next
    case (Cons b r)
    have "links bs (b # r @ [hd pre])" using l2 Cons by simp
    then have "links bs' (b # r @ [hd pre])"
      using links_cong [of "b # r @ [hd pre]" bs bs'] same Cons by (simp add: butlast_append)
    then show ?thesis using nx l2 same [of a] Cons by simp
  qed
  have "blk_next (bs' ! ?t) = Some a" using t(1) len by (simp add: bs'_def)
  then have "links bs' (?t # a # (post @ [hd pre]))" using p2 by simp
  then have "links bs' (butlast pre @ ?t # a # (post @ [hd pre]))"
    using p1 by (rule links_append [THEN iffD2, OF conjI, rotated])
  then have "links bs' (pre @ (a # post) @ [hd pre])" unfolding eq .
  moreover have "distinct (pre @ a # post)"
    using d(1) \<open>a \<notin> set pre\<close> \<open>a \<notin> set post\<close> by simp
  moreover have "set (pre @ a # post) = {..<Suc a}" using d(2) by (simp add: lessThan_Suc)
  moreover have "Suc a \<le> length bs'" using len by (simp add: bs'_def)
  ultimately show ?thesis unfolding bs'_def c_ring_def by (intro conjI)
qed

end
