(* ===== verification/RW_Conc_Producer.thy ===== *)
theory RW_Conc_Producer
  imports RW_Conc_Inv
begin

text \<open>
  Every step of the producer succeeds in a state of the invariant and keeps it, one lemma per
  program point.
\<close>

lemmas cinv_parts = pend_def hidden_def on_ring_def taken_def

lemma cinv_block:
  assumes "cinv_at ly s pre post E" and "a < length (blocks (shared s))"
  shows "get_block a (shared s) = Inr (blocks (shared s) ! a)"
    and "conc_rep (blocks (shared s) ! a) (E a) (pend (ppc s) a) (taken (cpc s) a)"
  using assms by (auto simp: cinv_at_def c_data_def get_block_def)

lemma cinv_lt:
  assumes "cinv_at ly s pre post E" and "a \<in> set (pre @ post)"
  shows "a < length (blocks (shared s))"
  using assms ring_lt unfolding cinv_at_def by blast

lemma cinv_tail:
  assumes "cinv_at ly s pre post E"
  shows "pre \<noteq> []" and "last pre \<in> set pre" and "last pre < length (blocks (shared s))"
    and "hd pre \<in> set pre" and "hd pre < length (blocks (shared s))"
proof -
  show "pre \<noteq> []" using assms by (simp add: cinv_at_def c_ptrs_def)
  then show "last pre \<in> set pre" "hd pre \<in> set pre" by simp_all
  then show "last pre < length (blocks (shared s))" "hd pre < length (blocks (shared s))"
    using cinv_lt [OF assms] by auto
qed

text \<open>A block is replaced by one with the same \<open>next\<close>.\<close>

lemma cinv_write:
  assumes inv: "cinv_at ly s pre post E" and a: "a < length (blocks (shared s))"
    and b: "conc_rep b xs (pend p a) (taken c a)" "blk_next b = blk_next (blocks (shared s) ! a)"
    and same: "\<forall>d. d \<noteq> a \<longrightarrow> pend p d = pend (ppc s) d \<and> taken c d = taken (cpc s) d"
    and on: "\<forall>n. on_ring p n = on_ring (ppc s) n"
  shows "c_ring ((blocks (shared s))[a := b]) (on_ring p (length ((blocks (shared s))[a := b]))) pre post"
    and "c_data ((blocks (shared s))[a := b]) p c (E(a := xs))"
proof -
  let ?bs = "blocks (shared s)"
  have C: "c_ring ?bs (on_ring p (length ?bs)) pre post" "c_data ?bs (ppc s) (cpc s) E"
    using inv on by (simp_all add: cinv_at_def)
  have "\<forall>d < length ?bs. blk_next (?bs[a := b] ! d) = blk_next (?bs ! d)"
    using a b(2) by (simp add: nth_list_update)
  moreover have "on_ring p (length ?bs) \<le> length ?bs" by (simp add: on_ring_def split: ppc.splits)
  ultimately show "c_ring (?bs[a := b]) (on_ring p (length (?bs[a := b]))) pre post"
    using ring_nexts [OF C(1) cinv_tail(1) [OF inv], of "?bs[a := b]"] by simp
  show "c_data (?bs[a := b]) p c (E(a := xs))" using C(2) b(1) same by (rule data_set)
qed

lemma cinv_next_tail:
  assumes "cinv_at ly s pre post E"
  shows "blk_next (blocks (shared s) ! last pre) = Some (hd (post @ [hd pre]))"
  using ring_next_tail [of "blocks (shared s)" "on_ring (ppc s) (length (blocks (shared s)))" pre post]
    assms cinv_tail(1) [OF assms] by (simp add: cinv_at_def)

lemma room_of_index:
  assumes "conc_rep b xs None c" and "(blk_tail b + 1) AND sizeMask b \<noteq> blk_front b"
  shows "length xs + 1 < length (blk_data b)"
proof -
  have "length xs < length (blk_data b)" using assms(1) by (simp add: conc_rep_def)
  moreover have "length xs + 1 \<noteq> length (blk_data b)" using conc_full_iff [OF assms(1)] assms(2) by simp
  ultimately show ?thesis by linarith
qed

lemma p_idle:
  assumes inv: "cinv_at ly s pre post E" and pc: "ppc s = P_Idle"
  obtains t where "pstep ly malloc m x s = Inr t" and "cinv_at ly t pre post E"
    and "enq t = enq s" and "deq t = deq s" and "cpc t = cpc s"
    and "\<exists>a bf bt. ppc t = P_Checked m x a bf bt"
proof -
  let ?q = "shared s" and ?t = "last pre"
  let ?b = "blocks ?q ! ?t"
  note L = cinv_tail [OF inv]
  note B = cinv_block [OF inv L(3)]
  define t where "t = s\<lparr>shared := ?q\<lparr>enqueuing := True\<rparr>, ppc := P_Checked m x ?t (blk_front ?b) (blk_tail ?b)\<rparr>"
  have tb: "tailBlock ?q = ?t" "\<not> enqueuing ?q" using inv pc by (auto simp: cinv_at_def c_ptrs_def)
  have "get_block ?t (?q\<lparr>enqueuing := True\<rparr>) = Inr ?b" using L(3) by (simp add: get_block_def)
  then have step: "pstep ly malloc m x s = Inr t"
    using tb pc by (simp add: pstep_def t_def Let_def)
  have "conc_rep ?b (E ?t) None (taken (cpc s) ?t)" using B(2) pc by (simp add: pend_def)
  from room_of_index [OF this]
  have "p_seen (ppc t) (blocks (shared t)) pre post E" by (simp add: p_seen_def t_def)
  then have "cinv_at ly t pre post E"
    using inv pc by (simp add: cinv_at_def t_def c_ptrs_def c_data_def c_elems_def cinv_parts)
  then show ?thesis using that step by (simp add: t_def)
qed

text \<open>The tail block had room when its front was read, and has it still.\<close>

lemma p_checked_room:
  assumes inv: "cinv_at ly s pre post E" and pc: "ppc s = P_Checked md y a bf bt"
    and ne: "(bt + 1) AND sizeMask (blocks (shared s) ! a) \<noteq> bf"
  obtains t where "pstep ly malloc m x s = Inr t" and "cinv_at ly t pre post E"
    and "enq t = enq s" and "deq t = deq s" and "cpc t = cpc s"
    and "\<exists>nt. ppc t = P_Publish y a nt"
proof -
  let ?q = "shared s" and ?t = "last pre"
  let ?b = "blocks ?q ! ?t"
  note L = cinv_tail [OF inv]
  note B = cinv_block [OF inv L(3)]
  have seen: "a = ?t" "bt = blk_tail ?b"
    and room: "(bt + 1) AND sizeMask ?b \<noteq> bf \<Longrightarrow> length (E ?t) + 1 < length (blk_data ?b)"
    using inv pc by (auto simp: cinv_at_def p_seen_def)
  have rep: "conc_rep ?b (E ?t) None (taken (cpc s) ?t)" using B(2) pc by (simp add: pend_def)
  have True: "(bt + 1) AND sizeMask ?b \<noteq> bf" using ne seen(1) by simp
  obtain b' where b': "construct_raw (blk_tail ?b) y ?b = Inr b'" "conc_rep b' (E ?t) (Some y) (taken (cpc s) ?t)"
    "blk_front b' = blk_front ?b" "blk_tail b' = blk_tail ?b" "blk_next b' = blk_next ?b" "sizeMask b' = sizeMask ?b"
    using conc_construct [OF rep room [OF True]] by metis
  define t where "t = s\<lparr>shared := set_block ?t b' ?q, ppc := P_Publish y ?t ((bt + 1) AND sizeMask ?b)\<rparr>"
  have "pstep ly malloc m x s = Inr t"
    using pc B(1) seen b'(1) True by (simp add: pstep_def t_def Let_def)
  moreover have "cinv_at ly t pre post E"
    unfolding cinv_at_def
  proof (intro conjI)
    have pc': "ppc t = P_Publish y ?t ((bt + 1) AND sizeMask ?b)" "cpc t = cpc s"
      and bs: "blocks (shared t) = (blocks ?q)[?t := b']" by (simp_all add: t_def set_block_def)
    have C: "c_seen (cpc s) (blocks ?q) pre E" using inv by (simp add: cinv_at_def)
    show "c_ptrs ly t pre" using inv pc by (simp add: cinv_at_def c_ptrs_def t_def)
    have "conc_rep b' (E ?t) (pend (ppc t) ?t) (taken (cpc t) ?t)" using b'(2) by (simp add: pc' pend_def)
    from cinv_write [OF inv L(3) this b'(5)]
    show "c_ring (blocks (shared t)) (on_ring (ppc t) (length (blocks (shared t)))) pre post"
      "c_data (blocks (shared t)) (ppc t) (cpc t) E"
      by (simp_all add: pc pc' bs on_ring_def pend_def)
    show "c_elems t pre post E" using inv pc by (simp add: cinv_at_def c_elems_def t_def hidden_def)
    show "p_seen (ppc t) (blocks (shared t)) pre post E"
      using b'(4,6) seen L(3) by (simp add: p_seen_def bs pc')
    have "c_seen (cpc s) ((blocks ?q)[?t := b']) (pre @ []) E"
      by (rule seen_grow [OF C L(1)]) (use b'(3) L(3) in \<open>simp_all add: nth_list_update\<close>)
    then show "c_seen (cpc t) (blocks (shared t)) pre E" by (simp add: pc' bs)
  qed
  ultimately show ?thesis using that by (simp add: t_def seen)
qed

text \<open>It was full: the next block is free, or a new block is needed.\<close>

lemma p_checked_full:
  assumes inv: "cinv_at ly s pre post E" and pc: "ppc s = P_Checked md y a bf bt"
    and full: "(bt + 1) AND sizeMask (blocks (shared s) ! a) = bf"
  obtains t where "pstep ly malloc m x s = Inr t" and "cinv_at ly t pre post E"
    and "enq t = enq s" and "deq t = deq s" and "cpc t = cpc s"
    and "(\<exists>n. ppc t = P_Next y n) \<or> ppc t = P_Alloc y a \<or> ppc t = P_Idle \<and> md = CannotAlloc"
proof -
  let ?q = "shared s" and ?t = "last pre"
  let ?b = "blocks ?q ! ?t"
  note L = cinv_tail [OF inv]
  note B = cinv_block [OF inv L(3)]
  have seen: "a = ?t" using inv pc by (auto simp: cinv_at_def p_seen_def)
  note full = full [unfolded seen]
  show ?thesis
  proof (cases "blk_next ?b = Some (frontBlock ?q)")
    case True
    show ?thesis
    proof (cases md)
      case CanAlloc
      define t where "t = s\<lparr>ppc := P_Alloc y ?t\<rparr>"
      have "pstep ly malloc m x s = Inr t"
        using pc B(1) seen full True CanAlloc by (simp add: pstep_def t_def Let_def)
      moreover have "cinv_at ly t pre post E"
        using inv pc by (simp add: cinv_at_def t_def c_ptrs_def c_data_def c_elems_def p_seen_def cinv_parts)
      ultimately show ?thesis using that by (simp add: t_def seen)
    next
      case CannotAlloc
      define t where "t = p_return ?q [] s"
      have "pstep ly malloc m x s = Inr t"
        using pc B(1) seen full True CannotAlloc by (simp add: pstep_def t_def Let_def)
      moreover have "cinv_at ly t pre post E"
        using inv pc by (simp add: cinv_at_def t_def p_return_def c_ptrs_def c_data_def c_elems_def p_seen_def cinv_parts)
      ultimately show ?thesis using that CannotAlloc by (simp add: t_def p_return_def)
    qed
  next
    case False
    have nx: "blk_next ?b = Some (hd (post @ [hd pre]))" by (rule cinv_next_tail [OF inv])
    have "post \<noteq> []" using nx False inv by (auto simp: cinv_at_def c_ptrs_def)
    then obtain n r where n: "post = n # r" by (cases post) auto
    define t where "t = s\<lparr>ppc := P_Next y n\<rparr>"
    have "pstep ly malloc m x s = Inr t"
      using pc B(1) seen full False nx n by (simp add: pstep_def t_def Let_def deref_def)
    moreover have "cinv_at ly t pre post E"
      using inv pc n by (simp add: cinv_at_def t_def c_ptrs_def c_data_def c_elems_def p_seen_def cinv_parts)
    ultimately show ?thesis using that by (simp add: t_def)
  qed
qed

lemma p_checked:
  assumes inv: "cinv_at ly s pre post E" and pc: "ppc s = P_Checked md y a bf bt"
  obtains t where "pstep ly malloc m x s = Inr t" and "cinv_at ly t pre post E"
    and "enq t = enq s" and "deq t = deq s" and "cpc t = cpc s"
    and "(\<exists>nt. ppc t = P_Publish y a nt) \<or> (\<exists>n. ppc t = P_Next y n) \<or> ppc t = P_Alloc y a \<or> ppc t = P_Idle \<and> md = CannotAlloc"
proof (cases "(bt + 1) AND sizeMask (blocks (shared s) ! a) = bf")
  case True
  show ?thesis by (rule p_checked_full [OF inv pc True]) (rule that; blast)
next
  case False
  show ?thesis by (rule p_checked_room [OF inv pc False]) (rule that; blast)
qed

lemma cinv_distinct:
  assumes "cinv_at ly s pre post E"
  shows "distinct (pre @ post)"
  using assms by (simp add: cinv_at_def c_ring_def)

text \<open>The elements of the reachable blocks after one more at the tail.\<close>

lemma concat_snoc_at:
  assumes "pre \<noteq> []" and "distinct pre"
  shows "concat (map (E(last pre := E (last pre) @ [x])) pre) = concat (map E pre) @ [x]"
  using assms by (cases pre rule: rev_cases) simp_all

lemma p_publish:
  assumes inv: "cinv_at ly s pre post E" and pc: "ppc s = P_Publish y a nt"
  obtains t where "pstep ly malloc m x s = Inr t" and "cinv_at ly t pre post (E(last pre := E (last pre) @ [y]))"
    and "enq t = enq s @ [y]" and "deq t = deq s" and "cpc t = cpc s" and "ppc t = P_Idle"
proof -
  let ?q = "shared s" and ?t = "last pre" and ?E = "E(last pre := E (last pre) @ [y])"
  let ?b = "blocks ?q ! ?t"
  note L = cinv_tail [OF inv]
  note B = cinv_block [OF inv L(3)]
  have seen: "a = ?t" "nt = (blk_tail ?b + 1) AND sizeMask ?b"
    using inv pc by (auto simp: cinv_at_def p_seen_def)
  have "conc_rep ?b (E ?t) (Some y) (taken (cpc s) ?t)" using B(2) pc seen by (simp add: pend_def)
  note rep = conc_publish [OF this, folded seen(2)]
  define b' where "b' = ?b\<lparr>blk_tail := nt\<rparr>"
  define t where "t = p_return (set_block ?t b' ?q) [y] s"
  have "pstep ly malloc m x s = Inr t"
    using pc B(1) seen(1) by (simp add: pstep_def t_def b'_def Let_def)
  moreover have pc': "ppc t = P_Idle" "cpc t = cpc s" "enq t = enq s @ [y]" "deq t = deq s"
    and bs: "blocks (shared t) = (blocks ?q)[?t := b']" by (simp_all add: t_def p_return_def set_block_def)
  moreover have "cinv_at ly t pre post ?E"
    unfolding cinv_at_def
  proof (intro conjI)
    have d: "distinct pre" "?t \<notin> set post" using cinv_distinct [OF inv] L(2) by auto
    have C: "c_seen (cpc s) (blocks ?q) pre E" and el: "c_elems s pre post E"
      using inv by (simp_all add: cinv_at_def)
    show "c_ptrs ly t pre" using inv by (simp add: cinv_at_def c_ptrs_def t_def p_return_def)
    have "conc_rep b' (E ?t @ [y]) (pend (ppc t) ?t) (taken (cpc t) ?t)" using rep by (simp add: pc' b'_def pend_def)
    moreover have "blk_next b' = blk_next ?b" by (simp add: b'_def)
    ultimately show "c_ring (blocks (shared t)) (on_ring (ppc t) (length (blocks (shared t)))) pre post"
      "c_data (blocks (shared t)) (ppc t) (cpc t) ?E"
      unfolding bs by (rule cinv_write [OF inv L(3)]; simp add: pc pc' on_ring_def pend_def seen)+
    show "c_elems t pre post ?E"
      using el pc concat_snoc_at [OF L(1) d(1), of E y] d(2) unfolding c_elems_def by (auto simp: pc' hidden_def)
    show "p_seen (ppc t) (blocks (shared t)) pre post ?E" by (simp add: p_seen_def pc')
    have h: "tl pre \<noteq> [] \<Longrightarrow> hd pre \<noteq> ?t" using d(1) by (cases pre) auto
    have "c_seen (cpc s) ((blocks ?q)[?t := b']) (pre @ []) ?E"
      by (rule seen_grow [OF C L(1)]) (use h L(3) in \<open>simp_all add: nth_list_update b'_def\<close>)
    then show "c_seen (cpc t) (blocks (shared t)) pre ?E" by (simp add: pc' bs)
  qed
  ultimately show ?thesis using that by blast
qed

lemma p_next:
  assumes inv: "cinv_at ly s pre post E" and pc: "ppc s = P_Next y n"
  obtains t where "pstep ly malloc m x s = Inr t" and "cinv_at ly t pre post E"
    and "enq t = enq s" and "deq t = deq s" and "cpc t = cpc s" and "\<exists>i. ppc t = P_Next_Tail y n i"
proof -
  let ?q = "shared s"
  let ?b = "blocks ?q ! n"
  note L = cinv_tail [OF inv]
  obtain r where r: "post = n # r" using inv pc by (auto simp: cinv_at_def p_seen_def)
  have n: "n < length (blocks ?q)" using cinv_lt [OF inv, of n] r by simp
  note B = cinv_block [OF inv n]
  have np: "n \<notin> set pre" using cinv_distinct [OF inv] r by simp
  have empty: "E n = []" using inv pc r by (simp add: cinv_at_def c_elems_def hidden_def)
  have rep: "conc_rep ?b [] None (taken (cpc s) n)" using B(2) pc empty by (simp add: pend_def)
  have "length ([] :: 'a list) + 1 < length (blk_data ?b)" using conc_size2 [OF rep] by simp
  then obtain b' where b': "construct_raw (blk_tail ?b) y ?b = Inr b'" "conc_rep b' [] (Some y) (taken (cpc s) n)"
    "blk_front b' = blk_front ?b" "blk_tail b' = blk_tail ?b" "blk_next b' = blk_next ?b" "sizeMask b' = sizeMask ?b"
    using conc_construct [OF rep] by metis
  define t where "t = s\<lparr>shared := set_block n b' ?q, ppc := P_Next_Tail y n (blk_tail ?b)\<rparr>"
  have "blk_front ?b = blk_tail ?b" using conc_empty_iff [OF rep] by simp
  then have "pstep ly malloc m x s = Inr t"
    using pc B(1) b'(1) by (simp add: pstep_def t_def Let_def)
  moreover have pc': "ppc t = P_Next_Tail y n (blk_tail ?b)" "cpc t = cpc s" "enq t = enq s" "deq t = deq s"
    and bs: "blocks (shared t) = (blocks ?q)[n := b']" by (simp_all add: t_def set_block_def)
  moreover have "cinv_at ly t pre post E"
    unfolding cinv_at_def
  proof (intro conjI)
    have C: "c_seen (cpc s) (blocks ?q) pre E" and el: "c_elems s pre post E"
      using inv by (simp_all add: cinv_at_def)
    show "c_ptrs ly t pre" using inv pc by (simp add: cinv_at_def c_ptrs_def t_def)
    have "conc_rep b' (E n) (pend (ppc t) n) (taken (cpc t) n)" using b'(2) by (simp add: pc' pend_def empty)
    from cinv_write [OF inv n this b'(5)]
    show "c_ring (blocks (shared t)) (on_ring (ppc t) (length (blocks (shared t)))) pre post"
      "c_data (blocks (shared t)) (ppc t) (cpc t) E"
      by (simp_all add: pc pc' bs on_ring_def pend_def)
    show "c_elems t pre post E" using el pc by (simp add: c_elems_def t_def hidden_def)
    show "p_seen (ppc t) (blocks (shared t)) pre post E" using b'(4) n r by (simp add: p_seen_def bs pc')
    have "c_seen (cpc s) ((blocks ?q)[n := b']) (pre @ []) E"
      by (rule seen_grow [OF C L(1)]) (use b'(3) n in \<open>simp_all add: nth_list_update\<close>)
    then show "c_seen (cpc t) (blocks (shared t)) pre E" by (simp add: pc' bs)
  qed
  ultimately show ?thesis using that by blast
qed

lemma p_next_tail:
  assumes inv: "cinv_at ly s pre post E" and pc: "ppc s = P_Next_Tail y n i"
  obtains t where "pstep ly malloc m x s = Inr t" and "cinv_at ly t pre post (E(n := [y]))"
    and "enq t = enq s" and "deq t = deq s" and "cpc t = cpc s" and "ppc t = P_Next_Block y n"
proof -
  let ?q = "shared s" and ?E = "E(n := [y])"
  let ?b = "blocks ?q ! n"
  note L = cinv_tail [OF inv]
  obtain r where r: "post = n # r" and i: "i = blk_tail ?b" using inv pc by (auto simp: cinv_at_def p_seen_def)
  have n: "n < length (blocks ?q)" using cinv_lt [OF inv, of n] r by simp
  note B = cinv_block [OF inv n]
  have np: "n \<notin> set pre" "n \<notin> set r" using cinv_distinct [OF inv] r by simp_all
  have empty: "E n = []" using inv pc r by (simp add: cinv_at_def c_elems_def hidden_def)
  have "conc_rep ?b [] (Some y) (taken (cpc s) n)" using B(2) pc empty by (simp add: pend_def)
  note rep = conc_publish [OF this, folded i]
  define b' where "b' = ?b\<lparr>blk_tail := (i + 1) AND sizeMask ?b\<rparr>"
  define t where "t = s\<lparr>shared := set_block n b' ?q, ppc := P_Next_Block y n\<rparr>"
  have "pstep ly malloc m x s = Inr t"
    using pc B(1) by (simp add: pstep_def t_def b'_def Let_def)
  moreover have pc': "ppc t = P_Next_Block y n" "cpc t = cpc s" "enq t = enq s" "deq t = deq s"
    and bs: "blocks (shared t) = (blocks ?q)[n := b']" by (simp_all add: t_def set_block_def)
  moreover have "cinv_at ly t pre post ?E"
    unfolding cinv_at_def
  proof (intro conjI)
    have C: "c_seen (cpc s) (blocks ?q) pre E" and el: "c_elems s pre post E"
      using inv by (simp_all add: cinv_at_def)
    show "c_ptrs ly t pre" using inv pc by (simp add: cinv_at_def c_ptrs_def t_def)
    have "conc_rep b' [y] (pend (ppc t) n) (taken (cpc t) n)" using rep by (simp add: pc' pend_def b'_def)
    moreover have "blk_next b' = blk_next ?b" by (simp add: b'_def)
    ultimately show "c_ring (blocks (shared t)) (on_ring (ppc t) (length (blocks (shared t)))) pre post"
      "c_data (blocks (shared t)) (ppc t) (cpc t) ?E"
      unfolding bs by (rule cinv_write [OF inv n]; simp add: pc pc' on_ring_def pend_def)+
    have "\<forall>a \<in> set (tl pre). ?E a \<noteq> []" using el by (simp add: c_elems_def)
    then show "c_elems t pre post ?E"
      using el pc np r unfolding c_elems_def pc' by (simp add: hidden_def)
    show "p_seen (ppc t) (blocks (shared t)) pre post ?E" using r by (simp add: p_seen_def pc')
    have "\<forall>a \<in> set pre. ?E a = E a" using np(1) by auto
    then have "c_seen (cpc s) ((blocks ?q)[n := b']) (pre @ []) ?E"
      using L(4) np(1) by (intro seen_grow [OF C L(1)]) (use n in \<open>simp_all add: nth_list_update b'_def\<close>)
    then show "c_seen (cpc t) (blocks (shared t)) pre ?E" by (simp add: pc' bs)
  qed
  ultimately show ?thesis using that by blast
qed

text \<open>The two writes of the tail pointer make a filled block reachable.\<close>

lemma p_move_tail:
  assumes inv: "cinv_at ly s pre post E" and pc: "ppc s = P_Next_Block y n \<or> ppc s = P_New_Block y n"
  obtains t where "pstep ly malloc m x s = Inr t" and "cinv_at ly t (pre @ [n]) (tl post) E"
    and "enq t = enq s @ [y]" and "deq t = deq s" and "cpc t = cpc s" and "ppc t = P_Idle"
proof -
  let ?q = "shared s"
  note L = cinv_tail [OF inv]
  have pp: "pend (ppc s) = pend P_Idle" "on_ring (ppc s) = (\<lambda>k. k)" "hidden (ppc s) = (\<lambda>a. if a = n then [y] else [])"
    using pc by (auto simp: cinv_parts fun_eq_iff)
  obtain r where r: "post = n # r" using inv pc by (auto simp: cinv_at_def p_seen_def)
  have nr: "n \<notin> set r" using cinv_distinct [OF inv] r by simp
  define t where "t = p_return (?q\<lparr>tailBlock := n\<rparr>) [y] s"
  have "pstep ly malloc m x s = Inr t" using pc by (auto simp: pstep_def t_def Let_def)
  moreover have pc': "ppc t = P_Idle" "cpc t = cpc s" "enq t = enq s @ [y]" "deq t = deq s"
    and bs: "blocks (shared t) = blocks ?q" by (simp_all add: t_def p_return_def)
  moreover have "cinv_at ly t (pre @ [n]) r E"
    unfolding cinv_at_def
  proof (intro conjI)
    have C: "c_seen (cpc s) (blocks ?q) pre E" and el: "c_elems s pre post E"
      and ring: "c_ring (blocks ?q) (on_ring (ppc s) (length (blocks ?q))) pre post"
      and data: "c_data (blocks ?q) (ppc s) (cpc s) E"
      using inv by (simp_all add: cinv_at_def)
    show "c_ptrs ly t (pre @ [n])" using inv L(1) by (simp add: cinv_at_def c_ptrs_def t_def p_return_def)
    show "c_ring (blocks (shared t)) (on_ring (ppc t) (length (blocks (shared t)))) (pre @ [n]) r"
      using ring_shift [OF ring [unfolded r] L(1)] by (simp add: bs pc' pp on_ring_def)
    show "c_data (blocks (shared t)) (ppc t) (cpc t) E"
      using data by (simp add: c_data_def bs pc' pp)
    have "E n = [y]" "\<forall>a \<in> set r. E a = []" using el r nr by (auto simp: c_elems_def pp)
    then show "c_elems t (pre @ [n]) r E"
      using el L(1) by (auto simp: c_elems_def pc' hidden_def)
    show "p_seen (ppc t) (blocks (shared t)) (pre @ [n]) r E" by (simp add: p_seen_def pc')
    show "c_seen (cpc t) (blocks (shared t)) (pre @ [n]) E"
      unfolding pc' bs by (rule seen_grow [OF C L(1)]) simp_all
  qed
  ultimately show ?thesis using that r by simp
qed

text \<open>The new block with its element, before it is linked.\<close>

lemma fresh_block:
  fixes nb :: "'a block"
  assumes "conc_rep nb [] None False" and "blk_front nb = 0" and "blk_tail nb = 0"
  obtains b' where "construct_raw 0 x nb = Inr b'" and "blk_front b' = 0"
    and "conc_rep (b'\<lparr>blk_tail := 1, blk_next := v\<rparr>) [x] None False"
proof -
  have two: "2 \<le> length (blk_data nb)" using conc_size2 [OF assms(1)] .
  then obtain b' where b': "construct_raw (blk_tail nb) x nb = Inr b'" "conc_rep b' [] (Some x) False"
    "blk_front b' = blk_front nb" "blk_tail b' = blk_tail nb" "sizeMask b' = sizeMask nb"
    using conc_construct [OF assms(1), of x] by (metis add_0 list.size(3) one_less_numeral_iff less_le_trans semiring_norm(76))
  have "unat ((0 :: u64) + 1 AND sizeMask nb) = (0 + 1) mod length (blk_data nb)"
    using conc_next_index [OF assms(1), of 0] two by (metis (no_types) length_greater_0_conv list.size(3) not_numeral_le_zero unsigned_0)
  moreover have "blk_data nb \<noteq> []" using two by auto
  ultimately have "(1 :: u64) AND sizeMask nb = 1" using two by (simp add: word_unat_eq_iff)
  then have "conc_rep (b'\<lparr>blk_tail := 1\<rparr>) [x] None False"
    using conc_publish [OF b'(2)] assms(3) b'(4,5) by simp
  moreover have "b'\<lparr>blk_tail := 1, blk_next := v\<rparr> = b'\<lparr>blk_tail := 1\<rparr>\<lparr>blk_next := v\<rparr>" by simp
  ultimately show ?thesis using that b'(1,3) assms(2,3) by (metis conc_rep_next)
qed

text \<open>The allocator refuses.\<close>

lemma p_alloc_refused:
  assumes inv: "cinv_at ly s pre post E" and pc: "ppc s = P_Alloc y a"
    and ly: "layout_ok ly" and m: "malloc_ok malloc"
    and none: "malloc (block_bytes ly (largestBlockSize (shared s) * 2)) = 0"
  obtains t where "pstep ly malloc md x s = Inr t" and "cinv_at ly t pre post E"
    and "enq t = enq s" and "deq t = deq s" and "cpc t = cpc s"
    and "ppc t = P_Idle"
proof -
  let ?q = "shared s" and ?t = "last pre"
  let ?b = "blocks ?q ! ?t" and ?n = "length (blocks ?q)" and ?w = "largestBlockSize ?q * 2"
  note L = cinv_tail [OF inv]
  note B = cinv_block [OF inv L(3)]
  have seen: "a = ?t" using inv pc by (simp add: cinv_at_def p_seen_def)
  have lg: "largest_ok ly (largestBlockSize ?q)" using inv by (simp add: cinv_at_def c_ptrs_def)
  note D = largest_double [OF ly lg]
  have mk: "(make_block ly malloc ?w :: 'a block option res) =
      Inr (if malloc (block_bytes ly ?w) = 0 then None else Some (Block ?w (unat ?w)))"
    using make_block_eq [OF ly m D(3,2)] .
  define t where "t = p_return ?q [] s"
  have "pstep ly malloc md x s = Inr t"
    using pc B(1) seen mk none by (simp add: pstep_def t_def Let_def)
  moreover have "cinv_at ly t pre post E"
    using inv pc by (simp add: cinv_at_def t_def p_return_def c_ptrs_def c_data_def c_elems_def p_seen_def cinv_parts)
  ultimately show ?thesis using that by (simp add: t_def p_return_def)
qed

lemma p_alloc_new:
  assumes inv: "cinv_at ly s pre post E" and pc: "ppc s = P_Alloc y a"
    and ly: "layout_ok ly" and m: "malloc_ok malloc"
    and got: "malloc (block_bytes ly (largestBlockSize (shared s) * 2)) \<noteq> 0"
  obtains t where "pstep ly malloc md x s = Inr t"
    and "cinv_at ly t pre post (E(length (blocks (shared s)) := [y]))"
    and "enq t = enq s" and "deq t = deq s" and "cpc t = cpc s" and "\<exists>b. ppc t = P_Link y a b"
proof -
  let ?q = "shared s" and ?t = "last pre"
  let ?b = "blocks ?q ! ?t" and ?n = "length (blocks ?q)" and ?w = "largestBlockSize ?q * 2"
  note L = cinv_tail [OF inv]
  note B = cinv_block [OF inv L(3)]
  have seen: "a = ?t" using inv pc by (simp add: cinv_at_def p_seen_def)
  have lg: "largest_ok ly (largestBlockSize ?q)" using inv by (simp add: cinv_at_def c_ptrs_def)
  note D = largest_double [OF ly lg]
  have mk: "(make_block ly malloc ?w :: 'a block option res) =
      Inr (if malloc (block_bytes ly ?w) = 0 then None else Some (Block ?w (unat ?w)))"
    using make_block_eq [OF ly m D(3,2)] .
  define nb :: "'a block" where "nb = Block ?w (unat ?w)"
  obtain k where k: "1 \<le> k" "k < 64" "?w = 2 ^ k" "unat ?w = 2 ^ k" using D(4) by blast
  have "block_rep nb []" using block_rep_Block [OF k(1,2)] k by (simp add: nb_def)
  then have nb: "conc_rep nb [] None False" "blk_front nb = 0" "blk_tail nb = 0"
    by (simp_all add: conc_rep_settled) (simp_all add: nb_def Block_def)
  obtain b' where b': "construct_raw 0 y nb = Inr b'" "blk_front b' = 0"
    "conc_rep (b'\<lparr>blk_tail := 1, blk_next := blk_next ?b\<rparr>) [y] None False"
    using fresh_block [OF nb, of y "blk_next ?b"] by metis
  define b where "b = b'\<lparr>blk_tail := 1, blk_next := blk_next ?b\<rparr>"
  define t where "t = s\<lparr>shared := ?q\<lparr>largestBlockSize := ?w, blocks := blocks ?q @ [b]\<rparr>, ppc := P_Link y a ?n\<rparr>"
  have "pstep ly malloc md x s = Inr t"
    using pc B(1) seen mk got b'(1,2) by (simp add: pstep_def t_def Let_def b_def nb_def)
  moreover have pc': "ppc t = P_Link y a ?n" "cpc t = cpc s" "enq t = enq s" "deq t = deq s"
    and bs: "blocks (shared t) = blocks ?q @ [b]" by (simp_all add: t_def)
  moreover have "cinv_at ly t pre post (E(?n := [y]))"
    unfolding cinv_at_def
  proof (intro conjI)
    have C: "c_seen (cpc s) (blocks ?q) pre E" and el: "c_elems s pre post E"
      and ring: "c_ring (blocks ?q) ?n pre post" and data: "c_data (blocks ?q) (ppc s) (cpc s) E"
      using inv pc by (simp_all add: cinv_at_def on_ring_def)
    have old: "\<forall>c \<in> set (pre @ post). (E(?n := [y])) c = E c" and n: "?n \<notin> set (pre @ post)"
      using ring by (auto simp: c_ring_def)
    have "largest_ok ly ?w" using ly m lg got by (rule largest_ok_double)
    then show "c_ptrs ly t pre" using inv pc by (simp add: cinv_at_def c_ptrs_def t_def)
    show "c_ring (blocks (shared t)) (on_ring (ppc t) (length (blocks (shared t)))) pre post"
      using ring_nexts [OF ring L(1), of "blocks ?q @ [b]"] by (simp add: bs pc' on_ring_def nth_append)
    have "taken (cpc s) ?n = False"
      using C L(5) by (auto simp: taken_def c_seen_def split: cpc.splits)
    then have "conc_rep b [y] (pend (ppc t) ?n) (taken (cpc t) ?n)"
      using b'(3) by (simp add: pc' b_def pend_def)
    then show "c_data (blocks (shared t)) (ppc t) (cpc t) (E(?n := [y]))"
      using data by (auto simp: c_data_def bs nth_append less_Suc_eq pc pc' pend_def)
    have "concat (map (E(?n := [y])) pre) = concat (map E pre)"
      using n by simp
    then show "c_elems t pre post (E(?n := [y]))"
      using el old n in_set_tlD [of _ pre] unfolding c_elems_def pc' pc by (auto simp: hidden_def)
    show "p_seen (ppc t) (blocks (shared t)) pre post (E(?n := [y]))"
      using seen L(3) by (simp add: p_seen_def pc' bs nth_append b_def)
    have "c_seen (cpc s) (blocks ?q @ [b]) (pre @ []) (E(?n := [y]))"
    proof (rule seen_grow [OF C L(1)])
      show "\<forall>a \<in> set pre. blk_front ((blocks ?q @ [b]) ! a) = blk_front (blocks ?q ! a)"
        using ring by (auto simp: c_ring_def nth_append)
    qed (use old L(4) in \<open>simp_all\<close>)
    then show "c_seen (cpc t) (blocks (shared t)) pre (E(?n := [y]))" by (simp add: pc' bs)
  qed
  ultimately show ?thesis using that by blast
qed

lemma p_alloc:
  assumes inv: "cinv_at ly s pre post E" and pc: "ppc s = P_Alloc y a"
    and ly: "layout_ok ly" and m: "malloc_ok malloc"
  obtains t E' where "pstep ly malloc md x s = Inr t" and "cinv_at ly t pre post E'"
    and "enq t = enq s" and "deq t = deq s" and "cpc t = cpc s"
    and "ppc t = P_Idle \<and> no_memory ly malloc (shared s) \<or> (\<exists>b. ppc t = P_Link y a b)"
proof (cases "malloc (block_bytes ly (largestBlockSize (shared s) * 2)) = 0")
  case True
  show ?thesis by (rule p_alloc_refused [OF inv pc ly m True, of md x]) (use that True in \<open>auto simp: no_memory_def\<close>)
next
  case False
  show ?thesis by (rule p_alloc_new [OF inv pc ly m False]) (rule that; blast)
qed

lemma p_link:
  assumes inv: "cinv_at ly s pre post E" and pc: "ppc s = P_Link y a b"
  obtains t where "pstep ly malloc m x s = Inr t" and "cinv_at ly t pre (b # post) E"
    and "enq t = enq s" and "deq t = deq s" and "cpc t = cpc s" and "ppc t = P_New_Block y b"
proof -
  let ?q = "shared s" and ?t = "last pre"
  let ?b = "blocks ?q ! ?t"
  note L = cinv_tail [OF inv]
  note B = cinv_block [OF inv L(3)]
  have seen: "a = ?t" "length (blocks ?q) = Suc b" "blk_next (blocks ?q ! b) = blk_next ?b" "E b = [y]"
    using inv pc by (auto simp: cinv_at_def p_seen_def)
  define b' where "b' = ?b\<lparr>blk_next := Some b\<rparr>"
  define t where "t = s\<lparr>shared := set_block ?t b' ?q, ppc := P_New_Block y b\<rparr>"
  have "pstep ly malloc m x s = Inr t"
    using pc B(1) seen(1) by (simp add: pstep_def t_def b'_def Let_def)
  moreover have pc': "ppc t = P_New_Block y b" "cpc t = cpc s" "enq t = enq s" "deq t = deq s"
    and bs: "blocks (shared t) = (blocks ?q)[?t := b']" by (simp_all add: t_def set_block_def)
  moreover have "cinv_at ly t pre (b # post) E"
    unfolding cinv_at_def
  proof (intro conjI)
    have C: "c_seen (cpc s) (blocks ?q) pre E" and el: "c_elems s pre post E"
      and ring: "c_ring (blocks ?q) b pre post" and data: "c_data (blocks ?q) (ppc s) (cpc s) E"
      using inv pc seen(2) by (simp_all add: cinv_at_def on_ring_def)
    have nb: "b \<notin> set pre" "b \<notin> set post" using ring by (auto simp: c_ring_def)
    show "c_ptrs ly t pre" using inv pc by (simp add: cinv_at_def c_ptrs_def t_def)
    show "c_ring (blocks (shared t)) (on_ring (ppc t) (length (blocks (shared t)))) pre (b # post)"
      using ring_link [OF ring L(1) seen(2,3), folded b'_def] by (simp add: bs pc' on_ring_def seen(2))
    have "conc_rep b' (E ?t) (pend (ppc t) ?t) (taken (cpc t) ?t)" using B(2) by (simp add: b'_def pc pc' pend_def)
    from data_set [OF data this]
    show "c_data (blocks (shared t)) (ppc t) (cpc t) E" by (simp add: bs pc pc' pend_def)
    show "c_elems t pre (b # post) E"
      using el nb seen(4) unfolding c_elems_def pc pc' by (auto simp: hidden_def)
    show "p_seen (ppc t) (blocks (shared t)) pre (b # post) E" by (simp add: p_seen_def pc')
    have "c_seen (cpc s) ((blocks ?q)[?t := b']) (pre @ []) E"
      by (rule seen_grow [OF C L(1)]) (use L(3) in \<open>simp_all add: nth_list_update b'_def\<close>)
    then show "c_seen (cpc t) (blocks (shared t)) pre E" by (simp add: pc' bs)
  qed
  ultimately show ?thesis using that by blast
qed

end
