(* ===== verification/RW_Conc_Consumer.thy ===== *)
theory RW_Conc_Consumer
  imports RW_Conc_Producer
begin

text \<open>
  Every step of the consumer succeeds in a state of the invariant and keeps it, one lemma per
  program point.
\<close>

lemma cinv_front:
  assumes "cinv_at ly s pre post E"
  shows "frontBlock (shared s) = hd pre" and "tailBlock (shared s) = last pre"
  using assms by (simp_all add: cinv_at_def c_ptrs_def)

text \<open>A call begins: only the program point and the flag of the consumer change.\<close>

lemma c_idle:
  assumes inv: "cinv_at ly s pre post E" and pc: "at_rest (cpc s)"
  obtains t where "cstep op s = Inr t" and "cinv_at ly t pre post E"
    and "enq t = enq s" and "deq t = deq s" and "ppc t = ppc s" and "cpc t = C_Tail op (last pre) (enq s = deq s)"
proof -
  let ?q = "shared s"
  note L = cinv_tail [OF inv] and F = cinv_front [OF inv]
  define t where "t = s\<lparr>shared := ?q\<lparr>dequeuing := True\<rparr>, cpc := C_Tail op (last pre) (enq s = deq s)\<rparr>"
  have "\<not> dequeuing ?q" using inv pc by (simp add: cinv_at_def c_ptrs_def)
  then have "c_begin op s = Inr t" using F by (simp add: c_begin_def t_def Let_def)
  then have "cstep op s = Inr t" using pc by (auto simp: cstep_def at_rest_def Let_def split: cpc.splits)
  moreover have "E (hd pre) = [] \<and> last pre = hd pre \<longrightarrow> enq s = deq s"
  proof
    assume e: "E (hd pre) = [] \<and> last pre = hd pre"
    have "distinct pre" using cinv_distinct [OF inv] by simp
    then have "pre = [hd pre]"
      using e L(1) by (metis distinct.simps(2) hd_Cons_tl last_ConsR last_in_set)
    then have "concat (map E pre) = []" using e by (metis concat.simps list.simps(8,9) append_Nil)
    then show "enq s = deq s" using inv by (simp add: cinv_at_def c_elems_def)
  qed
  then have "c_seen (cpc t) (blocks (shared t)) pre E" using L(2) by (auto simp: c_seen_def t_def)
  moreover have "taken (cpc s) = (\<lambda>_. False)"
    using pc by (auto simp: taken_def at_rest_def fun_eq_iff split: cpc.splits)
  ultimately have "cinv_at ly t pre post E"
    using inv pc by (simp add: cinv_at_def t_def c_ptrs_def c_data_def c_elems_def taken_def at_rest_def)
  then show ?thesis using that \<open>cstep op s = Inr t\<close> by (simp add: t_def)
qed

lemmas keep_parts = cinv_at_def c_ptrs_def c_data_def c_elems_def taken_def c_seen_def at_rest_def

text \<open>
  The call that finds nothing returns only if the queue was empty when it looked; a peek
  that finds something returns the place of the oldest element.
\<close>

lemma c_tail:
  assumes inv: "cinv_at ly s pre post E" and pc: "cpc s = C_Tail op t0 e"
  obtains t where "cstep op' s = Inr t" and "cinv_at ly t pre post E"
    and "enq t = enq s" and "deq t = deq s" and "ppc t = ppc s"
    and "(\<exists>a i. op \<noteq> Peek_Front \<and> cpc t = C_Take op a i) \<or> (\<exists>a. cpc t = C_Advance op a) \<or>
      (\<exists>a i. op = Peek_Front \<and> cpc t = C_Peeked a i) \<or> cpc t = C_Returned op None \<and> e"
proof -
  let ?q = "shared s" and ?f = "hd pre"
  let ?b = "blocks ?q ! ?f"
  note L = cinv_tail [OF inv] and F = cinv_front [OF inv]
  note B = cinv_block [OF inv L(5)]
  have seen: "t0 \<in> set pre" "t0 = ?f \<and> E ?f = [] \<longrightarrow> e" using inv pc by (auto simp: cinv_at_def c_seen_def)
  have empty: "blk_front ?b = blk_tail ?b \<longleftrightarrow> E ?f = []" using conc_empty_iff [OF B(2)] .
  show ?thesis
  proof (cases "E ?f = []")
    case False
    show ?thesis
    proof (cases "op = Peek_Front")
      case True
      define t where "t = c_peeked ?q ?f (blk_front ?b) s"
      have "cstep op' s = Inr t" using pc B(1) F empty False True by (simp add: cstep_def t_def Let_def)
      moreover have "cinv_at ly t pre post E" using inv pc False by (simp add: keep_parts t_def c_peeked_def)
      ultimately show ?thesis using that True by (simp add: t_def c_peeked_def)
    next
      case no_peek: False
      define t where "t = s\<lparr>cpc := C_Take op ?f (blk_front ?b)\<rparr>"
      have "cstep op' s = Inr t"
        using pc B(1) F empty False no_peek by (cases op) (simp_all add: cstep_def t_def Let_def)
      moreover have "cinv_at ly t pre post E" using inv pc False by (simp add: keep_parts t_def)
      ultimately show ?thesis using that no_peek by (simp add: t_def)
    qed
  next
    case True
    note none = this
    show ?thesis
    proof (cases "t0 = ?f")
      case True
      define t where "t = c_return op ?q None s"
      have "cstep op' s = Inr t" using pc B(1) F empty none True by (simp add: cstep_def t_def Let_def)
      moreover have "cinv_at ly t pre post E" using inv pc by (simp add: keep_parts t_def c_return_def)
      ultimately show ?thesis using that seen(2) none True by (simp add: t_def c_return_def)
    next
      case False
      then have "tl pre \<noteq> []" using seen(1) L(1) by (cases pre) auto
      define t where "t = s\<lparr>cpc := C_Advance op ?f\<rparr>"
      have "cstep op' s = Inr t" using pc B(1) F empty none False by (simp add: cstep_def t_def Let_def)
      moreover have "cinv_at ly t pre post E" using inv pc none \<open>tl pre \<noteq> []\<close> by (simp add: keep_parts t_def)
      ultimately show ?thesis using that by (simp add: t_def)
    qed
  qed
qed

text \<open>The consumer's own writes to a block.\<close>

lemma c_take:
  assumes inv: "cinv_at ly s pre post E" and pc: "cpc s = C_Take op f i"
  obtains t where "cstep op' s = Inr t" and "cinv_at ly t pre post E"
    and "enq t = enq s" and "deq t = deq s" and "ppc t = ppc s" and "cpc t = C_Front op f (hd (E f)) i"
proof -
  let ?q = "shared s"
  let ?b = "blocks ?q ! f"
  note L = cinv_tail [OF inv]
  have seen: "f = hd pre" "i = blk_front ?b" "E f \<noteq> []" using inv pc by (auto simp: cinv_at_def c_seen_def)
  then obtain y ys where y: "E f = y # ys" by (cases "E f") auto
  have f: "f < length (blocks ?q)" using L(5) seen(1) by simp
  note B = cinv_block [OF inv f]
  have "conc_rep ?b (y # ys) (pend (ppc s) f) False" using B(2) pc y by (simp add: taken_def)
  then obtain b' where b': "element_at (blk_front ?b) ?b = Inr y" "destroy (blk_front ?b) ?b = Inr b'"
    "conc_rep b' (y # ys) (pend (ppc s) f) True" "blk_front b' = blk_front ?b" "blk_tail b' = blk_tail ?b"
    "blk_next b' = blk_next ?b" "sizeMask b' = sizeMask ?b" "length (blk_data b') = length (blk_data ?b)"
    by (rule conc_take)
  define t where "t = s\<lparr>shared := set_block f b' ?q, cpc := C_Front op f y i\<rparr>"
  have raw: "the (blk_data ?b ! unat (blk_front ?b)) = y"
    using b'(1) by (auto simp: element_at_def split: if_splits option.splits)
  have "cstep op' s = Inr t"
    using pc B(1) b'(1,2) seen(2) raw by (cases op) (simp_all add: cstep_def t_def Let_def)
  moreover have pc': "cpc t = C_Front op f y i" "ppc t = ppc s" "enq t = enq s" "deq t = deq s"
    and bs: "blocks (shared t) = (blocks ?q)[f := b']" by (simp_all add: t_def set_block_def)
  moreover have "cinv_at ly t pre post E"
    unfolding cinv_at_def
  proof (intro conjI)
    have S: "p_seen (ppc s) (blocks ?q) pre post E" and el: "c_elems s pre post E"
      using inv by (simp_all add: cinv_at_def)
    show "c_ptrs ly t pre" using inv pc by (simp add: cinv_at_def c_ptrs_def t_def at_rest_def)
    have "conc_rep b' (E f) (pend (ppc t) f) (taken (cpc t) f)" using b'(3) y by (simp add: pc' taken_def)
    from cinv_write [OF inv f this b'(6)]
    show "c_ring (blocks (shared t)) (on_ring (ppc t) (length (blocks (shared t)))) pre post"
      "c_data (blocks (shared t)) (ppc t) (cpc t) E"
      by (simp_all add: pc pc' bs taken_def)
    show "c_elems t pre post E" using el by (simp add: c_elems_def t_def)
    have "set post \<subseteq> {..<length (blocks ?q)}" using cinv_lt [OF inv] by auto
    then have "p_seen (ppc s) ((blocks ?q)[f := b']) pre (post @ []) E"
      by (intro seen_shrink [OF S]) (use L(3) f b' in \<open>simp_all add: nth_list_update\<close>)
    then show "p_seen (ppc t) (blocks (shared t)) pre post E" by (simp add: pc' bs)
    show "c_seen (cpc t) (blocks (shared t)) pre E"
      using b'(4) f seen y by (simp add: c_seen_def bs pc')
  qed
  ultimately show ?thesis using that y by simp
qed

lemma c_front:
  assumes inv: "cinv_at ly s pre post E" and pc: "cpc s = C_Front op f y i"
  obtains t where "cstep op' s = Inr t" and "cinv_at ly t pre post (E(f := tl (E f)))"
    and "enq t = enq s" and "deq t = deq s @ [y]" and "ppc t = ppc s" and "cpc t = C_Returned op (Some y)"
    and "\<exists>rest. enq s = deq s @ y # rest"
proof -
  let ?q = "shared s" and ?E = "E(f := tl (E f))"
  let ?b = "blocks ?q ! f"
  note L = cinv_tail [OF inv]
  obtain ys where seen: "f = hd pre" "i = blk_front ?b" and y: "E f = y # ys"
    using inv pc by (auto simp: cinv_at_def c_seen_def)
  have f: "f < length (blocks ?q)" using L(5) seen(1) by simp
  note B = cinv_block [OF inv f]
  have "conc_rep ?b (y # ys) (pend (ppc s) f) True" using B(2) pc y by (simp add: taken_def)
  note rep = conc_front [OF this, folded seen(2)]
  define b' where "b' = ?b\<lparr>blk_front := (i + 1) AND sizeMask ?b\<rparr>"
  define t where "t = c_return op (set_block f b' ?q) (Some y) s"
  have "cstep op' s = Inr t"
    using pc B(1) by (simp add: cstep_def t_def Let_def b'_def)
  moreover have pc': "cpc t = C_Returned op (Some y)" "ppc t = ppc s" "enq t = enq s" "deq t = deq s @ [y]"
    and bs: "blocks (shared t) = (blocks ?q)[f := b']" by (simp_all add: t_def set_block_def c_return_def)
  have el: "c_elems s pre post E" using inv by (simp add: cinv_at_def)
  have d: "f \<notin> set (tl pre)" "f \<notin> set post" and pre: "pre = f # tl pre"
    using cinv_distinct [OF inv] seen(1) L(1,4) by (cases pre; auto)+
  have "concat (map E (f # tl pre)) = y # concat (map ?E (f # tl pre))" using d(1) y by simp
  then have it: "concat (map E pre) = y # concat (map ?E pre)" by (simp only: pre [symmetric])
  have "cinv_at ly t pre post ?E"
    unfolding cinv_at_def
  proof (intro conjI)
    have S: "p_seen (ppc s) (blocks ?q) pre post E" using inv by (simp add: cinv_at_def)
    show "c_ptrs ly t pre" using inv by (simp add: cinv_at_def c_ptrs_def t_def c_return_def at_rest_def)
    have "conc_rep b' (tl (E f)) (pend (ppc t) f) (taken (cpc t) f)"
      using rep y by (simp add: pc' taken_def b'_def)
    moreover have "blk_next b' = blk_next ?b" by (simp add: b'_def)
    ultimately show "c_ring (blocks (shared t)) (on_ring (ppc t) (length (blocks (shared t)))) pre post"
      "c_data (blocks (shared t)) (ppc t) (cpc t) ?E"
      unfolding bs by (rule cinv_write [OF inv f]; simp add: pc pc' taken_def)+
    have "\<forall>a \<in> set (tl pre). ?E a = E a" "\<forall>a \<in> set post. ?E a = E a" using d by auto
    then show "c_elems t pre post ?E" using el it unfolding c_elems_def pc' by simp
    have "set post \<subseteq> {..<length (blocks ?q)}" using cinv_lt [OF inv] by auto
    moreover have "?E a = E a" if "ppc s = P_Link x t' a" for x t' a
    proof -
      have "f < on_ring (ppc s) (length (blocks ?q))"
        using ring_lt [of "blocks ?q" _ pre post f] inv seen(1) L(4) by (auto simp: cinv_at_def)
      then show ?thesis using that S by (auto simp: on_ring_def p_seen_def)
    qed
    ultimately have "p_seen (ppc s) ((blocks ?q)[f := b']) pre (post @ []) ?E"
      by (intro seen_shrink [OF S]) (use L(3) f in \<open>simp_all add: nth_list_update b'_def sizeMask_def\<close>)
    then show "p_seen (ppc t) (blocks (shared t)) pre post ?E" by (simp add: pc' bs)
    show "c_seen (cpc t) (blocks (shared t)) pre ?E" by (simp add: c_seen_def pc')
  qed
  moreover have "\<exists>rest. enq s = deq s @ y # rest" using el it by (simp add: c_elems_def)
  ultimately show ?thesis using that pc' by blast
qed

text \<open>Advancing to the next block.\<close>

lemma c_advance:
  assumes inv: "cinv_at ly s pre post E" and pc: "cpc s = C_Advance op f"
  obtains t where "cstep op' s = Inr t" and "cinv_at ly t pre post E"
    and "enq t = enq s" and "deq t = deq s" and "ppc t = ppc s"
    and "(\<exists>n i. op \<noteq> Peek_Front \<and> cpc t = C_Move op n i) \<or> (\<exists>n i. op = Peek_Front \<and> cpc t = C_Peeked n i)"
proof -
  let ?q = "shared s"
  note L = cinv_tail [OF inv]
  have seen: "f = hd pre" "E f = []" "tl pre \<noteq> []" using inv pc by (auto simp: cinv_at_def c_seen_def)
  then obtain n r where pre: "pre = f # n # r" using L(1) by (metis list.collapse)
  let ?b = "blocks ?q ! n"
  have f: "f < length (blocks ?q)" and n: "n < length (blocks ?q)"
    using cinv_lt [OF inv] pre by simp_all
  have nx: "blk_next (blocks ?q ! f) = Some n"
    using inv pre ring_next_front [of "blocks ?q" _ f n r post] unfolding cinv_at_def by blast
  note B = cinv_block [OF inv n]
  have "E n \<noteq> []" using inv pre by (simp add: cinv_at_def c_elems_def)
  then have ne: "blk_front ?b \<noteq> blk_tail ?b" using conc_empty_iff [OF B(2)] by simp
  define t where "t = (if op = Peek_Front then c_peeked ?q n (blk_front ?b) s else s\<lparr>cpc := C_Move op n (blk_front ?b)\<rparr>)"
  have "cstep op' s = Inr t"
    using pc B(1) cinv_block(1) [OF inv f] nx ne by (cases op) (simp_all add: cstep_def t_def Let_def deref_def)
  moreover have "c_seen (cpc t) (blocks (shared t)) pre E"
    using seen(2) pre by (simp add: c_seen_def t_def c_peeked_def)
  then have "cinv_at ly t pre post E"
    using inv pc by (simp add: cinv_at_def c_ptrs_def c_data_def c_elems_def taken_def at_rest_def t_def c_peeked_def)
  ultimately show ?thesis using that by (simp add: t_def c_peeked_def split: if_splits)
qed

lemma c_move:
  assumes inv: "cinv_at ly s pre post E" and pc: "cpc s = C_Move op n i"
  obtains t where "cstep op' s = Inr t" and "cinv_at ly t (tl pre) (post @ [hd pre]) E"
    and "enq t = enq s" and "deq t = deq s" and "ppc t = ppc s" and "cpc t = C_Take op n i"
proof -
  let ?q = "shared s"
  obtain f r where pre: "pre = f # n # r" and e: "E f = []" and i: "i = blk_front (blocks ?q ! n)"
    using inv pc by (auto simp: cinv_at_def c_seen_def)
  define t where "t = s\<lparr>shared := ?q\<lparr>frontBlock := n\<rparr>, cpc := C_Take op n i\<rparr>"
  have "cstep op' s = Inr t" using pc by (simp add: cstep_def t_def Let_def)
  moreover have pc': "cpc t = C_Take op n i" "ppc t = ppc s" "enq t = enq s" "deq t = deq s"
    and bs: "blocks (shared t) = blocks ?q" by (simp_all add: t_def)
  moreover have "cinv_at ly t (n # r) (post @ [f]) E"
    unfolding cinv_at_def
  proof (intro conjI)
    have S: "p_seen (ppc s) (blocks ?q) pre post E" and el: "c_elems s pre post E"
      and ring: "c_ring (blocks ?q) (on_ring (ppc s) (length (blocks ?q))) pre post"
      using inv by (simp_all add: cinv_at_def)
    show "c_ptrs ly t (n # r)" using inv pc pre by (simp add: cinv_at_def c_ptrs_def t_def at_rest_def)
    show "c_ring (blocks (shared t)) (on_ring (ppc t) (length (blocks (shared t)))) (n # r) (post @ [f])"
      using ring_rotate [OF ring [unfolded pre]] by (simp add: bs pc')
    show "c_data (blocks (shared t)) (ppc t) (cpc t) E"
      using inv pc by (simp add: cinv_at_def c_data_def bs pc' taken_def)
    have "hidden (ppc s) f = []"
      using S el cinv_distinct [OF inv] pre by (auto simp: hidden_def p_seen_def split: ppc.splits)
    then show "c_elems t (n # r) (post @ [f]) E"
      using el e by (auto simp: c_elems_def pre pc')
    have "last (n # r) = last pre" by (simp add: pre)
    moreover have "set post \<subseteq> {..<length (blocks ?q)}" using cinv_lt [OF inv] by auto
    ultimately have "p_seen (ppc s) (blocks ?q) (n # r) (post @ [f]) E"
      by (intro seen_shrink [OF S]) (use cinv_tail(3) [OF inv] in simp_all)
    then show "p_seen (ppc t) (blocks (shared t)) (n # r) (post @ [f]) E" by (simp add: pc' bs)
    show "c_seen (cpc t) (blocks (shared t)) (n # r) E"
      using el pre i by (simp add: c_seen_def c_elems_def pc' bs)
  qed
  ultimately show ?thesis using that pre by simp
qed

text \<open>The place a peek returned holds the oldest element.\<close>

lemma peeked_element:
  assumes inv: "cinv_at ly s pre post E" and pc: "cpc s = C_Peeked a i"
  obtains x xs where "enq s = deq s @ x # xs" and "res_bind (get_block a (shared s)) (element_at i) = Inr x"
proof -
  let ?b = "blocks (shared s) ! a"
  have el: "enq s = deq s @ concat (map E pre)" and ne: "\<forall>a \<in> set (tl pre). E a \<noteq> []"
    using inv by (simp_all add: cinv_at_def c_elems_def)
  have seen: "a = hd pre \<and> E a \<noteq> [] \<or> (\<exists>f r. pre = f # a # r \<and> E f = [])" "i = blk_front ?b"
    using inv pc by (auto simp: cinv_at_def c_seen_def)
  have a: "a \<in> set pre" "E a \<noteq> []" and cat: "\<exists>r. concat (map E pre) = E a @ r"
    using seen(1) cinv_tail(1) [OF inv] ne by (cases pre; auto)+
  obtain x xs where x: "E a = x # xs" using a(2) by (cases "E a") auto
  have lt: "a < length (blocks (shared s))" using cinv_lt [OF inv] a(1) by simp
  have "conc_rep ?b (x # xs) (pend (ppc s) a) False"
    using cinv_block(2) [OF inv lt] pc x by (simp add: taken_def)
  then obtain b' where "element_at (blk_front ?b) ?b = Inr x" by (rule conc_take)
  then show ?thesis using that [of x] el cat x cinv_block(1) [OF inv lt] seen(2) by auto
qed

end
