(* ===== verification/RW_Conc_Steps.thy ===== *)
theory RW_Conc_Steps
  imports RW_Conc_Consumer
begin

text \<open>
  The steps of both threads put together: what a step does to the call of its thread
  (\<open>p_effect\<close>, \<open>c_effect\<close>), the invariant in every reachable state, the simulation of the
  atomic queue, and the interpretations of the contract \<open>wait_free\<close> on the two threads.
\<close>

section \<open>Every step\<close>

text \<open>
  What a step of the producer does to its call: it begins one for \<open>x\<close>, it goes on, or it
  returns, with the element of the call added, or not if the call may not allocate or the
  allocator has no memory. While the call may still be refused the block sizes stay.
\<close>

definition p_effect :: "layout \<Rightarrow> (u64 \<Rightarrow> u64) \<Rightarrow> alloc_mode \<Rightarrow> 'a \<Rightarrow> 'a conc \<Rightarrow> 'a conc \<Rightarrow> bool" where
  "p_effect ly malloc m x s t \<longleftrightarrow> (undecided (ppc t) \<longrightarrow> largestBlockSize (shared t) = largestBlockSize (shared s)) \<and> (
     ppc s = P_Idle \<and> enq t = enq s \<and> (\<exists>a f b. ppc t = P_Checked m x a f b) \<or>
     ppc s \<noteq> P_Idle \<and> p_left (ppc t) < p_left (ppc s) \<and> (\<forall>m x a f b. ppc t \<noteq> P_Checked m x a f b) \<and>
     (ppc t \<noteq> P_Idle \<and> enq t = enq s \<and> in_hand (ppc t) = in_hand (ppc s) \<or>
      ppc t = P_Idle \<and> undecided (ppc s) \<and> enq t = enq s \<and>
        ((\<exists>y a f b. ppc s = P_Checked CannotAlloc y a f b) \<or> no_memory ly malloc (shared s)) \<or>
      ppc t = P_Idle \<and> (\<exists>y. in_hand (ppc s) = Some y \<and> enq t = enq s @ [y])))"

lemma pstep_largest:
  "pstep ly malloc m x s = Inr t \<Longrightarrow> undecided (ppc t) \<Longrightarrow> largestBlockSize (shared t) = largestBlockSize (shared s)"
  by (auto simp: pstep_def undecided_def p_return_def Let_def res_bind_eq_Inr
      split: ppc.splits if_splits alloc_mode.splits option.splits)

lemma producer_step:
  assumes inv: "cinv ly s" and ly: "layout_ok ly" and m: "malloc_ok malloc"
  obtains t where "pstep ly malloc md x s = Inr t" and "cinv ly t" and "deq t = deq s" and "cpc t = cpc s"
    and "p_effect ly malloc md x s t"
proof -
  obtain pre post E where at: "cinv_at ly s pre post E" using inv by (auto simp: cinv_def)
  note D = p_left_def in_hand_def p_effect_def cinv_def pstep_largest undecided_def
  show ?thesis
  proof (cases "ppc s")
    case P_Idle
    show ?thesis by (rule p_idle [OF at P_Idle, of malloc md x]) (rule that, assumption, auto simp: P_Idle D)
  next
    case (P_Checked m' y a bf bt)
    show ?thesis by (rule p_checked [OF at P_Checked, of malloc md x]) (rule that, assumption, auto simp: P_Checked D)
  next
    case (P_Publish y a nt)
    show ?thesis by (rule p_publish [OF at P_Publish, of malloc md x]) (rule that, assumption, auto simp: P_Publish D)
  next
    case (P_Next y n)
    show ?thesis by (rule p_next [OF at P_Next, of malloc md x]) (rule that, assumption, auto simp: P_Next D)
  next
    case (P_Next_Tail y n i)
    show ?thesis by (rule p_next_tail [OF at P_Next_Tail, of malloc md x]) (rule that, assumption, auto simp: P_Next_Tail D)
  next
    case (P_Next_Block y n)
    show ?thesis by (rule p_move_tail [OF at disjI1, OF P_Next_Block, of malloc md x]) (rule that, assumption, auto simp: P_Next_Block D)
  next
    case (P_Alloc y a)
    show ?thesis by (rule p_alloc [OF at P_Alloc ly m, of md x]) (rule that, assumption, auto simp: P_Alloc D)
  next
    case (P_Link y a b)
    show ?thesis by (rule p_link [OF at P_Link, of malloc md x]) (rule that, assumption, auto simp: P_Link D)
  next
    case (P_New_Block y n)
    show ?thesis by (rule p_move_tail [OF at disjI2, OF P_New_Block, of malloc md x]) (rule that, assumption, auto simp: P_New_Block D)
  qed
qed

text \<open>
  What a step of the consumer does to its call: it begins one, it goes on, it returns with
  nothing, which the empty queue it began on explains, it returns the place of the oldest
  element, or it returns with that element removed.
\<close>

definition c_effect :: "deq_op \<Rightarrow> 'a conc \<Rightarrow> 'a conc \<Rightarrow> bool" where
  "c_effect op s t \<longleftrightarrow>
     at_rest (cpc s) \<and> deq t = deq s \<and> (\<exists>a. cpc t = C_Tail op a (enq s = deq s)) \<or>
     \<not> at_rest (cpc s) \<and> c_left (cpc t) < c_left (cpc s) \<and> (\<forall>op a e. cpc t \<noteq> C_Tail op a e) \<and>
     (\<not> at_rest (cpc t) \<and> deq t = deq s \<and> call_op (cpc t) = call_op (cpc s) \<and>
        (takes (cpc t) \<longrightarrow> takes (cpc s) \<or> call_op (cpc s) \<noteq> Some Peek_Front) \<or>
      (\<exists>op a. cpc s = C_Tail op a True \<and> cpc t = C_Returned op None) \<and> deq t = deq s \<or>
      (\<exists>a i y ys. cpc t = C_Peeked a i \<and> call_op (cpc s) = Some Peek_Front \<and> deq t = deq s \<and> enq s = deq s @ y # ys) \<or>
      (\<exists>op y ys. takes (cpc s) \<and> call_op (cpc s) = Some op \<and> cpc t = C_Returned op (Some y) \<and>
        deq t = deq s @ [y] \<and> enq s = deq s @ y # ys))"

lemma consumer_step:
  assumes inv: "cinv ly s"
  obtains t where "cstep op s = Inr t" and "cinv ly t" and "enq t = enq s" and "ppc t = ppc s"
    and "c_effect op s t"
proof -
  obtain pre post E where at: "cinv_at ly s pre post E" using inv by (auto simp: cinv_def)
  have peeked: "\<exists>y ys. enq t = deq t @ y # ys" if "cinv ly t" "cpc t = C_Peeked a i" for t :: "'a conc" and a i
    using that peeked_element unfolding cinv_def by metis
  note D = c_left_def c_effect_def cinv_def at_rest_def call_op_def takes_def
  show ?thesis
  proof (cases "cpc s")
    case C_Idle
    then have "at_rest (cpc s)" by (simp add: at_rest_def)
    then show ?thesis by (rule c_idle [OF at, of op]) (rule that, assumption, auto simp: C_Idle D)
  next
    case (C_Peeked a i)
    then have "at_rest (cpc s)" by (simp add: at_rest_def)
    then show ?thesis by (rule c_idle [OF at, of op]) (rule that, assumption, auto simp: C_Peeked D)
  next
    case (C_Returned op' r)
    then have "at_rest (cpc s)" by (simp add: at_rest_def)
    then show ?thesis by (rule c_idle [OF at, of op]) (rule that, assumption, auto simp: C_Returned D)
  next
    case (C_Tail op' a e)
    obtain t where t: "cstep op s = Inr t" "cinv ly t" "enq t = enq s" "deq t = deq s" "ppc t = ppc s"
      "(\<exists>a i. op' \<noteq> Peek_Front \<and> cpc t = C_Take op' a i) \<or> (\<exists>a. cpc t = C_Advance op' a) \<or>
       (\<exists>a i. op' = Peek_Front \<and> cpc t = C_Peeked a i) \<or> cpc t = C_Returned op' None \<and> e"
      using c_tail [OF at C_Tail, of op] by (metis cinv_def)
    have "c_effect op s t" using t(6) t(3,4) peeked [OF t(2)] by (auto simp: C_Tail D)
    then show ?thesis using that t by blast
  next
    case (C_Take op' f i)
    show ?thesis by (rule c_take [OF at C_Take, of op]) (rule that, assumption, auto simp: C_Take D)
  next
    case (C_Front op' f y i)
    show ?thesis by (rule c_front [OF at C_Front, of op]) (rule that, assumption, auto simp: C_Front D)
  next
    case (C_Advance op' f)
    obtain t where t: "cstep op s = Inr t" "cinv ly t" "enq t = enq s" "deq t = deq s" "ppc t = ppc s"
      "(\<exists>n i. op' \<noteq> Peek_Front \<and> cpc t = C_Move op' n i) \<or> (\<exists>n i. op' = Peek_Front \<and> cpc t = C_Peeked n i)"
      using c_advance [OF at C_Advance, of op] by (metis cinv_def)
    have "c_effect op s t" using t(6) t(3,4) peeked [OF t(2)] by (auto simp: C_Advance D)
    then show ?thesis using that t by blast
  next
    case (C_Move op' n i)
    show ?thesis by (rule c_move [OF at C_Move, of op]) (rule that, assumption, auto simp: C_Move D)
  qed
qed

lemma conc_reach_cinv:
  assumes "conc_reach ly s" and ly: "layout_ok ly"
  shows "cinv ly s"
  using assms(1)
proof (induction rule: conc_reach.induct)
  case (start malloc n q)
  have "malloc (block_bytes ly (ceilToPow2 (n + 1))) \<noteq> 0"
    using constructed [OF ly start(1-4), where 'a = 'a] start(5) by (auto split: if_splits)
  then have rep: "rwq_rep ly q [0] []" and inv: "rwq_inv ly q" and c: "rwq_contents q = []"
    using constructed [OF ly start(1-4), where 'a = 'a] start(5) by auto
  have e: "elems q 0 = []" using contents_items [OF rep] c by (simp add: items_def)
  have "cinv_at ly (conc_start q) [0] [] (elems q)"
    using rep inv e
    by (simp add: cinv_at_def conc_start_def c_ptrs_def c_ring_def c_data_def c_elems_def p_seen_def c_seen_def
        at_rest_def cinv_parts conc_rep_settled rwq_rep_def ring_ok_def blocks_ok_def rwq_inv_def)
  then show ?case by (auto simp: cinv_def)
next
  case (producer s malloc mode x t)
  obtain t' where "pstep ly malloc mode x s = Inr t'" "cinv ly t'"
    using producer_step [OF producer(4) ly producer(2)] by metis
  then show ?case using producer(3) by simp
next
  case (consumer s op t)
  obtain t' where "cstep op s = Inr t'" "cinv ly t'" using consumer_step [OF consumer(3)] by metis
  then show ?case using consumer(2) by simp
qed

text \<open>With both threads outside their calls the state is one of the sequential model.\<close>

lemma quiet_rep:
  assumes at: "cinv_at ly s pre post E" and "ppc s = P_Idle" and "at_rest (cpc s)"
  shows "rwq_rep ly (shared s) pre post" and "items (shared s) pre = concat (map E pre)"
    and "rwq_inv ly (shared s)"
proof -
  let ?q = "shared s"
  have idle: "taken (cpc s) = (\<lambda>_. False)"
    using assms(3) by (auto simp: taken_def at_rest_def fun_eq_iff split: cpc.splits)
  have rep: "block_rep (blocks ?q ! a) (E a)" if "a < length (blocks ?q)" for a
    using cinv_block(2) [OF at that] assms(2) idle by (simp add: pend_def conc_rep_settled)
  then have el: "elems ?q a = E a" if "a < length (blocks ?q)" for a
    using block_rep_elems [OF rep [OF that]] that by (simp add: elems_def)
  then have el': "\<forall>a \<in> set (pre @ post). elems ?q a = E a" using cinv_lt [OF at] by blast
  then show "items ?q pre = concat (map E pre)" by (simp add: items_def cong: map_cong)
  have "\<forall>a \<in> set (tl pre). elems ?q a = E a" using el' in_set_tlD [of _ pre] by simp
  then show r: "rwq_rep ly ?q pre post"
    using at assms(2,3) rep el el'
    by (auto simp: cinv_at_def c_ptrs_def c_ring_def c_elems_def cinv_parts rwq_rep_def ring_ok_def blocks_ok_def)
  then show "rwq_inv ly ?q"
    using at assms(2,3) by (auto simp: rwq_inv_def cinv_at_def c_ptrs_def)
qed

section \<open>The abstract queue\<close>

lemma in_hand_Idle [simp]: "in_hand p = None \<longleftrightarrow> p = P_Idle"
  by (simp add: in_hand_def split: ppc.splits)

lemma in_hand_P_Idle [simp]: "in_hand P_Idle = None"
  by simp

text \<open>The pointer of a \<open>peek\<close> stands for the oldest element, and goes on doing so.\<close>

lemma peek_answer:
  assumes "cinv ly s" and "cpc s = C_Peeked a i"
  shows "\<exists>y ys. enq s = deq s @ y # ys \<and> last_answer (shared s) (cpc s) = Some (Answered Peek_Front (Some y))"
proof -
  obtain pre post E where "cinv_at ly s pre post E" using assms(1) by (auto simp: cinv_def)
  then show ?thesis using assms(2) by (rule peeked_element) (auto simp: last_answer_def assms(2))
qed

lemma last_answer_kept:
  assumes "cinv ly s" and "cinv ly t" and "cpc t = cpc s" and "deq t = deq s" and "enq t = enq s @ zs"
  shows "last_answer (shared t) (cpc t) = last_answer (shared s) (cpc s)"
proof (cases "cpc s")
  case (C_Peeked a i)
  then show ?thesis using peek_answer [OF assms(1)] peek_answer [OF assms(2)] assms(3-5) by fastforce
qed (simp_all add: assms(3) last_answer_def)

lemma call_seen_kept:
  assumes "cinv ly s" and "cinv ly t" and "cpc t = cpc s" and "deq t = deq s" and "enq t = enq s @ zs"
  shows "call_seen (shared t) (cpc t) c \<longleftrightarrow> call_seen (shared s) (cpc s) c"
  using last_answer_kept [OF assms] assms(3) by (cases c) (simp_all add: call_seen_def)

lemma p_effect_abstract:
  assumes "p_effect ly malloc m x s t" and "enq_seen (ppc s) h"
  obtains (same) "enq_seen (ppc t) h" and "enq t = enq s"
  | (call) "h = None" and "enq t = enq s" and "enq_seen (ppc t) (Some (m, x))"
  | (refused) md y where "h = Some (md, y)" and "undecided (ppc s)" and "md = CannotAlloc \<or> no_memory ly malloc (shared s)" and "enq t = enq s" and "enq_seen (ppc t) None"
  | (added) md y where "h = Some (md, y)" and "enq t = enq s @ [y]" and "enq_seen (ppc t) None"
proof (cases h)
  case None
  then have "ppc s = P_Idle" using assms(2) by (simp add: enq_seen_def)
  then show ?thesis using assms(1) call None by (auto simp: p_effect_def enq_seen_def in_hand_def)
next
  case (Some c)
  obtain md y where h: "h = Some (md, y)" using Some by (cases c) simp
  then have hand: "in_hand (ppc s) = Some y" and pc: "\<And>m' y' a f b. ppc s = P_Checked m' y' a f b \<Longrightarrow> m' = md"
    using assms(2) by (simp_all add: enq_seen_def)
  then have busy: "ppc s \<noteq> P_Idle" by auto
  have idle: "enq_seen (ppc t) None" if "ppc t = P_Idle" using that by (simp add: enq_seen_def)
  from assms(1) busy consider
    (on) "\<forall>m x a f b. ppc t \<noteq> P_Checked m x a f b" "enq t = enq s" "in_hand (ppc t) = in_hand (ppc s)"
    | (no) "ppc t = P_Idle" "undecided (ppc s)" "enq t = enq s" "(\<exists>y a f b. ppc s = P_Checked CannotAlloc y a f b) \<or> no_memory ly malloc (shared s)"
    | (yes) "ppc t = P_Idle" "enq t = enq s @ [y]"
    using hand unfolding p_effect_def by (metis option.inject)
  then show ?thesis
  proof cases
    case on
    then show ?thesis using same hand h by (auto simp: enq_seen_def split: ppc.splits)
  next
    case no
    then show ?thesis using refused [OF h] idle pc by blast
  next
    case yes
    then show ?thesis using added [OF h] idle by simp
  qed
qed

lemma producer_refines:
  assumes "cinv ly s" and "layout_ok ly" and "malloc_ok malloc"
    and "pstep ly malloc mode x s = Inr t" and "refines s a"
  shows "\<exists>b. refines t b \<and> (b = a \<or> atomic_step (no_memory ly malloc (shared s)) a b)"
proof -
  let ?no = "no_memory ly malloc (shared s)"
  have eff: "p_effect ly malloc mode x s t" and t: "cinv ly t" "deq t = deq s" "cpc t = cpc s"
    using producer_step [OF assms(1-3), of mode x] assms(4) by auto
  obtain h xs c where a: "a = (h, xs, c)" and h: "enq_seen (ppc s) h" and enq: "enq s = deq s @ xs"
    and c: "call_seen (shared s) (cpc s) c"
    using assms(5) by (cases a) (auto simp: refines_def)
  have r: "refines t (h', xs @ zs, c)" if "enq_seen (ppc t) h'" "enq t = enq s @ zs" for h' zs
    using that c call_seen_kept [OF assms(1) t(1,3,2) that(2)] t(2) enq by (simp add: refines_def)
  from eff h show ?thesis
  proof (cases rule: p_effect_abstract)
    case same
    then show ?thesis using r [of h "[]"] a by auto
  next
    case call
    then show ?thesis using r [of "Some (mode, x)" "[]"] atomic_step.call_enqueue [of ?no xs c mode x] a by auto
  next
    case (refused md y)
    then show ?thesis using r [of None "[]"] atomic_step.refused [of md ?no y xs c] a by auto
  next
    case (added md y)
    then show ?thesis using r [of None "[y]"] atomic_step.enqueued [of ?no md y xs c] a by auto
  qed
qed

lemma call_op_rest: "at_rest p \<longleftrightarrow> call_op p = None"
  by (simp add: at_rest_def call_op_def split: cpc.splits)

lemma consumer_refines:
  assumes inv: "cinv ly s" and step: "cstep op s = Inr t" and ref: "refines s a"
  shows "\<exists>b. refines t b \<and> (b = a \<or> atomic_step no_mem a b)"
proof -
  obtain h xs c where a: "a = (h, xs, c)" and h: "enq_seen (ppc s) h" and enq: "enq s = deq s @ xs"
    and c: "call_seen (shared s) (cpc s) c"
    using ref by (cases a) (auto simp: refines_def)
  have same: "enq t = enq s" "ppc t = ppc s" and inv': "cinv ly t" using consumer_step [OF inv, of op] step by auto
  have r: "refines t (h, ys, d)" if "call_seen (shared t) (cpc t) d" "enq s = deq t @ ys" for ys d
    using that same h by (simp add: refines_def)
  have called: "\<exists>op e. c = Called op e \<and> call_op (cpc s) = Some op \<and> (takes (cpc s) \<longrightarrow> op \<noteq> Peek_Front) \<and>
      (\<forall>op' b e'. cpc s = C_Tail op' b e' \<longrightarrow> e' = e)" if "\<not> at_rest (cpc s)"
    using c that by (cases c) (auto simp: call_seen_def at_rest_def last_answer_def split: cpc.splits)
  have "c_effect op s t" using consumer_step [OF inv, of op] step by auto
  then consider (starts) b where "at_rest (cpc s)" "deq t = deq s" "cpc t = C_Tail op b (enq s = deq s)"
    | (on) "\<not> at_rest (cpc s)" "deq t = deq s" "call_op (cpc t) = call_op (cpc s)" "\<forall>op a e. cpc t \<noteq> C_Tail op a e"
        "takes (cpc t) \<longrightarrow> takes (cpc s) \<or> call_op (cpc s) \<noteq> Some Peek_Front"
    | (no) op' b where "\<not> at_rest (cpc s)" "cpc s = C_Tail op' b True" "cpc t = C_Returned op' None" "deq t = deq s"
    | (peek) b i where "\<not> at_rest (cpc s)" "cpc t = C_Peeked b i" "call_op (cpc s) = Some Peek_Front" "deq t = deq s"
    | (take) op' y ys where "\<not> at_rest (cpc s)" "takes (cpc s)" "call_op (cpc s) = Some op'" "cpc t = C_Returned op' (Some y)"
        "deq t = deq s @ [y]" "enq s = deq s @ y # ys"
    unfolding c_effect_def by metis
  then show ?thesis
  proof cases
    case starts
    obtain z where z: "c = Outside z" using c starts(1)
      by (cases c) (auto simp: call_seen_def call_op_rest)
    have "call_seen (shared t) (cpc t) (Called op (xs = []))"
      using starts enq by (simp add: call_seen_def call_op_def takes_def)
    then show ?thesis using r [of _ xs] starts(2) enq atomic_step.call_dequeue [of no_mem h xs z op] a z by auto
  next
    case on
    have "call_seen (shared t) (cpc t) c"
      using called [OF on(1)] on by (auto simp: call_seen_def split: cpc.splits)
    then show ?thesis using r [of c xs] on(2) enq a by auto
  next
    case no
    have "c = Called op' True" using called [OF no(1)] no(2) by (auto simp: call_op_def)
    moreover have "call_seen (shared t) (cpc t) (Outside (Answered op' None))"
      using no(3) by (simp add: call_seen_def last_answer_def)
    ultimately show ?thesis using r [of _ xs] no(4) enq atomic_step.nothing [of no_mem h xs op'] a by auto
  next
    case peek
    obtain e where e: "c = Called Peek_Front e" using called [OF peek(1)] peek(3) by auto
    obtain y ys where y: "enq t = deq t @ y # ys" "last_answer (shared t) (cpc t) = Some (Answered Peek_Front (Some y))"
      using peek_answer [OF inv' peek(2)] by blast
    then have "xs = y # ys" using enq same(1) peek(4) by simp
    then show ?thesis using r [of "Outside (Answered Peek_Front (Some y))" xs] y(2) peek(4) enq
        atomic_step.peeked [of no_mem h y ys e] a e by (auto simp: call_seen_def)
  next
    case take
    obtain e where e: "c = Called op' e" "op' \<noteq> Peek_Front" using called [OF take(1)] take(2,3) by auto
    have "call_seen (shared t) (cpc t) (Outside (Answered op' (Some y)))"
      using take(4) by (simp add: call_seen_def last_answer_def)
    moreover have "xs = y # ys" using enq take(6) by simp
    ultimately show ?thesis using r [of _ ys] take(5,6) atomic_step.dequeued [of op' no_mem h y ys e] e a by auto
  qed
qed

section \<open>The contract of the threads\<close>

definition conc_env_inv :: "layout \<Rightarrow> (u64 \<Rightarrow> u64) \<Rightarrow> 'a conc \<Rightarrow> bool" where
  "conc_env_inv ly malloc s \<longleftrightarrow> cinv ly s \<and> layout_ok ly \<and> malloc_ok malloc"

lemma turn_step_ok:
  assumes "conc_env_inv ly malloc s"
  shows "\<exists>t. turn_step ly malloc a s = Inr t \<and> conc_env_inv ly malloc t \<and>
    (if is_producer a then cpc t = cpc s \<and> (ppc s \<noteq> P_Idle \<longrightarrow> p_left (ppc t) < p_left (ppc s))
     else ppc t = ppc s \<and> (\<not> at_rest (cpc s) \<longrightarrow> c_left (cpc t) < c_left (cpc s)))"
proof -
  have inv: "cinv ly s" "layout_ok ly" "malloc_ok malloc" using assms by (auto simp: conc_env_inv_def)
  show ?thesis
  proof (cases a)
    case (Producer m x)
    obtain t where "pstep ly malloc m x s = Inr t" "cinv ly t" "cpc t = cpc s" "p_effect ly malloc m x s t"
      using producer_step [OF inv, of m x] by metis
    then show ?thesis using Producer inv by (auto simp: turn_step_def conc_env_inv_def p_effect_def)
  next
    case (Consumer op)
    obtain t where "cstep op s = Inr t" "cinv ly t" "ppc t = ppc s" "c_effect op s t"
      using consumer_step [OF inv(1)] by metis
    then show ?thesis using Consumer inv by (auto simp: turn_step_def conc_env_inv_def c_effect_def)
  qed
qed

lemma left_0 [simp]: "p_left p = 0 \<longleftrightarrow> p = P_Idle" "c_left c = 0 \<longleftrightarrow> at_rest c"
  by (simp_all add: p_left_def c_left_def at_rest_def split: ppc.splits cpc.splits)

interpretation producer_thread: wait_free "turn_step ly malloc" is_producer "\<lambda>s. p_left (ppc s)" "conc_env_inv ly malloc"
  for ly malloc
proof
  fix s :: "'a conc" and a
  assume inv: "conc_env_inv ly malloc s"
  show "\<exists>t. turn_step ly malloc a s = Inr t \<and> conc_env_inv ly malloc t \<and> p_left (ppc t) < p_left (ppc s)"
    if "is_producer a" "p_left (ppc s) \<noteq> 0"
    using turn_step_ok [OF inv, of a] that by auto
  show "\<exists>t. turn_step ly malloc a s = Inr t \<and> conc_env_inv ly malloc t \<and> p_left (ppc t) \<le> p_left (ppc s)"
    if "\<not> is_producer a"
    using turn_step_ok [OF inv, of a] that by auto
qed

interpretation consumer_thread: wait_free "turn_step ly malloc" "\<lambda>a. \<not> is_producer a" "\<lambda>s. c_left (cpc s)" "conc_env_inv ly malloc"
  for ly malloc
proof
  fix s :: "'a conc" and a
  assume inv: "conc_env_inv ly malloc s"
  show "\<exists>t. turn_step ly malloc a s = Inr t \<and> conc_env_inv ly malloc t \<and> c_left (cpc t) < c_left (cpc s)"
    if "\<not> is_producer a" "c_left (cpc s) \<noteq> 0"
    using turn_step_ok [OF inv, of a] that by auto
  show "\<exists>t. turn_step ly malloc a s = Inr t \<and> conc_env_inv ly malloc t \<and> c_left (cpc t) \<le> c_left (cpc s)"
    if "\<not> \<not> is_producer a"
    using turn_step_ok [OF inv, of a] that by auto
qed

lemma conc_run_ok:
  assumes "conc_env_inv ly malloc s"
  shows "\<exists>t. conc_run ly malloc sched s = Inr t \<and> conc_env_inv ly malloc t"
  unfolding conc_run_def
proof (rule run_steps_total [where I = "conc_env_inv ly malloc" and ok = "\<lambda>_. True", OF assms])
  show "\<exists>t. turn_step ly malloc a s = Inr t \<and> conc_env_inv ly malloc t" if "conc_env_inv ly malloc s" for a s
    using turn_step_ok [OF that, of a] by blast
qed (simp add: list_all_iff)

lemma turn_step_reach:
  assumes "conc_reach ly s" and "malloc_ok malloc" and "turn_step ly malloc a s = Inr t"
  shows "conc_reach ly t"
  using assms by (cases a) (auto simp: turn_step_def intro: conc_reach.intros)

lemma conc_run_reach:
  assumes "conc_reach ly s" and "malloc_ok malloc" and "conc_run ly malloc sched s = Inr t"
  shows "conc_reach ly t"
  by (rule run_steps_keep [where I = "conc_reach ly" and ok = "\<lambda>_. True", OF assms(3) [unfolded conc_run_def] assms(1)])
    (simp add: list_all_iff, rule turn_step_reach [OF _ assms(2)])

text \<open>Turns of the producer change nothing of the consumer's.\<close>

lemma producer_turns:
  assumes "conc_env_inv ly malloc s" and "conc_run ly malloc sched s = Inr t" and "list_all is_producer sched"
  shows "cpc t = cpc s \<and> deq t = deq s \<and> conc_env_inv ly malloc t \<and> (\<exists>zs. enq t = enq s @ zs)"
proof (rule run_steps_keep [where ok = is_producer, OF assms(2) [unfolded conc_run_def] _ assms(3)])
  fix a u v
  assume I: "cpc u = cpc s \<and> deq u = deq s \<and> conc_env_inv ly malloc u \<and> (\<exists>zs. enq u = enq s @ zs)"
    and a: "is_producer a" and step: "turn_step ly malloc a u = Inr v"
  have inv: "cinv ly u" "layout_ok ly" "malloc_ok malloc" using I by (auto simp: conc_env_inv_def)
  obtain m x where "a = Producer m x" using a by (cases a) auto
  then have "cpc v = cpc u \<and> deq v = deq u \<and> cinv ly v \<and> p_effect ly malloc m x u v"
    using step producer_step [OF inv, of m x] by (metis (no_types, lifting) Inr_inject turn_step_def turn.case(1))
  then show "cpc v = cpc s \<and> deq v = deq s \<and> conc_env_inv ly malloc v \<and> (\<exists>zs. enq v = enq s @ zs)"
    using I inv by (auto simp: conc_env_inv_def p_effect_def)
qed (use assms(1) in simp)

end
