(* ===== verification/RW_Conc_Alone.thy ===== *)
theory RW_Conc_Alone
  imports RW_Conc_Steps
begin

text \<open>
  A call whose steps no step of the other thread comes between does what the sequential model
  of the call does, from every state that the two threads can reach: the two models of the
  code agree.
\<close>

lemma construct_rawD: "construct_raw i x b = Inr b' \<Longrightarrow> construct i x b = Inr b'"
  by (simp add: construct_raw_def split: if_splits)

lemma set_block_twice [simp]: "set_block a c (set_block a b q) = set_block a c q"
  by (simp add: set_block_def)

lemma get_set_block [simp]: "a < length (blocks q) \<Longrightarrow> get_block a (set_block a b q) = Inr b"
  by (simp add: get_block_def set_block_def)

lemma get_blockD: "get_block a q = Inr b \<Longrightarrow> a < length (blocks q)"
  by (simp add: get_block_def split: if_splits)

lemma block_flags [simp]:
  "get_block a (q\<lparr>enqueuing := v\<rparr>) = get_block a q" "get_block a (q\<lparr>dequeuing := v\<rparr>) = get_block a q"
  by (simp_all add: get_block_def)

definition enq_alone :: "layout \<Rightarrow> (u64 \<Rightarrow> u64) \<Rightarrow> alloc_mode \<Rightarrow> 'a \<Rightarrow> 'a conc \<Rightarrow> nat \<Rightarrow> 'a conc \<Rightarrow> bool" where
  "enq_alone ly malloc m x s k t \<longleftrightarrow>
     conc_run ly malloc (replicate k (Producer m x)) s = Inr t \<and> ppc t = P_Idle \<and> cpc t = cpc s \<and>
     (\<exists>r. inner_enqueue ly malloc m x (shared s) = Inr (r, shared t) \<and> enq t = enq s @ (if r then [x] else []))"

lemma producer_ok:
  assumes "conc_env_inv ly malloc u"
  shows "\<exists>t. pstep ly malloc m x u = Inr t \<and> conc_env_inv ly malloc t"
  using turn_step_ok [OF assms, of "Producer m x"] by (auto simp: turn_step_def)

text \<open>The state after the first step.\<close>

definition checked :: "alloc_mode \<Rightarrow> 'a \<Rightarrow> 'a block \<Rightarrow> 'a conc \<Rightarrow> 'a conc" where
  "checked m x tb s = s\<lparr>shared := (shared s)\<lparr>enqueuing := True\<rparr>,
     ppc := P_Checked m x (tailBlock (shared s)) (blk_front tb) (blk_tail tb)\<rparr>"

text \<open>The tail block has room.\<close>

lemma alone_room:
  assumes inv: "conc_env_inv ly malloc s" and idle: "ppc s = P_Idle"
    and tb: "get_block (tailBlock (shared s)) (shared s) = Inr tb" "\<not> enqueuing (shared s)"
    and s1: "pstep ly malloc m x s = Inr (checked m x tb s)" "conc_env_inv ly malloc (checked m x tb s)"
    and room: "\<not> (blk_tail tb + 1) AND sizeMask tb = blk_front tb"
  shows "\<exists>k \<le> 5. \<exists>t. enq_alone ly malloc m x s k t"
proof -
  let ?q = "shared s" and ?g = "(shared s)\<lparr>enqueuing := True\<rparr>" and ?t = "tailBlock (shared s)"
  let ?nt = "(blk_tail tb + 1) AND sizeMask tb"
  define s1 where e1: "s1 = s\<lparr>shared := ?g, ppc := P_Checked m x ?t (blk_front tb) (blk_tail tb)\<rparr>"
  note s1 = s1 [unfolded checked_def, folded e1]
  note len = get_blockD [OF tb(1)]
  obtain s2 where s2: "pstep ly malloc m x s1 = Inr s2" "conc_env_inv ly malloc s2"
    using producer_ok [OF s1(2)] by blast
  obtain tb' where tb': "construct_raw (blk_tail tb) x tb = Inr tb'"
    and e2: "s2 = s1\<lparr>shared := set_block ?t tb' ?g, ppc := P_Publish x ?t ?nt\<rparr>"
    using s2(1) tb room by (auto simp: e1 pstep_def Let_def)
  define s3 where "s3 = p_return (set_block ?t (tb'\<lparr>blk_tail := ?nt\<rparr>) ?g) [x] s"
  have "pstep ly malloc m x s2 = Inr s3"
    using len by (simp add: e2 e1 pstep_def Let_def s3_def p_return_def)
  then have "conc_run ly malloc (replicate 3 (Producer m x)) s = Inr s3"
    using s1(1) s2(1) by (simp add: numeral_3_eq_3 conc_run_def turn_step_def)
  moreover have "inner_enqueue ly malloc m x ?q = Inr (True, shared s3)"
    using tb construct_rawD [OF tb'] room
    by (simp add: inner_enqueue_def guard_enqueuing_def enqueue_body_def Let_def s3_def p_return_def)
  ultimately have "enq_alone ly malloc m x s 3 s3" by (auto simp: enq_alone_def s3_def p_return_def)
  then show ?thesis by (intro exI [of _ 3]) auto
qed

text \<open>The next block is free.\<close>

lemma alone_next:
  assumes inv: "conc_env_inv ly malloc s" and idle: "ppc s = P_Idle"
    and tb: "get_block (tailBlock (shared s)) (shared s) = Inr tb" "\<not> enqueuing (shared s)"
    and s1: "pstep ly malloc m x s = Inr (checked m x tb s)" "conc_env_inv ly malloc (checked m x tb s)"
    and full: "(blk_tail tb + 1) AND sizeMask tb = blk_front tb" and free: "\<not> blk_next tb = Some (frontBlock (shared s))"
  shows "\<exists>k \<le> 5. \<exists>t. enq_alone ly malloc m x s k t"
proof -
  let ?q = "shared s" and ?g = "(shared s)\<lparr>enqueuing := True\<rparr>" and ?t = "tailBlock (shared s)"
  let ?nt = "(blk_tail tb + 1) AND sizeMask tb"
  define s1 where e1: "s1 = s\<lparr>shared := ?g, ppc := P_Checked m x ?t (blk_front tb) (blk_tail tb)\<rparr>"
  note s1 = s1 [unfolded checked_def, folded e1]
  note len = get_blockD [OF tb(1)]
  obtain s2 where s2: "pstep ly malloc m x s1 = Inr s2" "conc_env_inv ly malloc s2"
    using producer_ok [OF s1(2)] by blast
  obtain n where n: "deref (blk_next tb) = Inr n" and e2: "s2 = s1\<lparr>ppc := P_Next x n\<rparr>"
    using s2(1) tb full free by (auto simp: e1 pstep_def Let_def)
  obtain s3 where s3: "pstep ly malloc m x s2 = Inr s3" "conc_env_inv ly malloc s3" using producer_ok [OF s2(2)] by blast
  then obtain nb nb' where nb: "get_block n ?q = Inr nb" "blk_front nb = blk_tail nb"
    and nb': "construct_raw (blk_tail nb) x nb = Inr nb'"
    and e3: "s3 = s2\<lparr>shared := set_block n nb' ?g, ppc := P_Next_Tail x n (blk_tail nb)\<rparr>"
    by (auto simp: e2 e1 pstep_def Let_def split: if_splits)
  note ln = get_blockD [OF nb(1)]
  let ?f = "nb'\<lparr>blk_tail := (blk_tail nb + 1) AND sizeMask nb'\<rparr>"
  define s4 where "s4 = s3\<lparr>shared := set_block n ?f ?g, ppc := P_Next_Block x n\<rparr>"
  define s5 where "s5 = p_return ((set_block n ?f ?g)\<lparr>tailBlock := n\<rparr>) [x] s"
  have "pstep ly malloc m x s3 = Inr s4" using ln by (simp add: e3 e2 e1 pstep_def Let_def s4_def)
  moreover have "pstep ly malloc m x s4 = Inr s5"
    by (simp add: s4_def e3 e2 e1 pstep_def Let_def s5_def p_return_def)
  ultimately have "conc_run ly malloc (replicate 5 (Producer m x)) s = Inr s5"
    using s1(1) s2(1) s3(1) by (simp add: numeral_eq_Suc conc_run_def turn_step_def)
  moreover have "inner_enqueue ly malloc m x ?q = Inr (True, shared s5)"
    using tb nb n construct_rawD [OF nb'] full free
    by (simp add: inner_enqueue_def guard_enqueuing_def enqueue_body_def Let_def s5_def p_return_def)
  ultimately have "enq_alone ly malloc m x s 5 s5" by (auto simp: enq_alone_def s5_def p_return_def)
  then show ?thesis by (intro exI [of _ 5]) auto
qed

text \<open>There is no free block and none may be allocated.\<close>

lemma alone_refused:
  assumes inv: "conc_env_inv ly malloc s" and idle: "ppc s = P_Idle"
    and tb: "get_block (tailBlock (shared s)) (shared s) = Inr tb" "\<not> enqueuing (shared s)"
    and s1: "pstep ly malloc m x s = Inr (checked m x tb s)" "conc_env_inv ly malloc (checked m x tb s)"
    and full: "(blk_tail tb + 1) AND sizeMask tb = blk_front tb" and wrap: "blk_next tb = Some (frontBlock (shared s))" and CannotAlloc: "m = CannotAlloc"
  shows "\<exists>k \<le> 5. \<exists>t. enq_alone ly malloc m x s k t"
proof -
  let ?q = "shared s" and ?g = "(shared s)\<lparr>enqueuing := True\<rparr>" and ?t = "tailBlock (shared s)"
  let ?nt = "(blk_tail tb + 1) AND sizeMask tb"
  define s1 where e1: "s1 = s\<lparr>shared := ?g, ppc := P_Checked m x ?t (blk_front tb) (blk_tail tb)\<rparr>"
  note s1 = s1 [unfolded checked_def, folded e1]
  note len = get_blockD [OF tb(1)]
  obtain s2 where s2: "pstep ly malloc m x s1 = Inr s2" "conc_env_inv ly malloc s2"
    using producer_ok [OF s1(2)] by blast
  have e2: "s2 = p_return ?g [] s1"
    using s2(1) tb full wrap CannotAlloc by (auto simp: e1 pstep_def Let_def)
  have "conc_run ly malloc (replicate 2 (Producer m x)) s = Inr s2"
    using s1(1) s2(1) by (simp add: numeral_2_eq_2 conc_run_def turn_step_def)
  moreover have "inner_enqueue ly malloc m x ?q = Inr (False, shared s2)"
    using tb full wrap CannotAlloc
    by (simp add: inner_enqueue_def guard_enqueuing_def enqueue_body_def Let_def e2 e1 p_return_def)
  ultimately have "enq_alone ly malloc m x s 2 s2" by (auto simp: enq_alone_def e2 e1 p_return_def)
  then show ?thesis by (intro exI [of _ 2]) auto
qed

text \<open>A block is allocated, or the allocator refuses.\<close>

lemma alone_alloc:
  assumes inv: "conc_env_inv ly malloc s" and idle: "ppc s = P_Idle"
    and tb: "get_block (tailBlock (shared s)) (shared s) = Inr tb" "\<not> enqueuing (shared s)"
    and s1: "pstep ly malloc m x s = Inr (checked m x tb s)" "conc_env_inv ly malloc (checked m x tb s)"
    and full: "(blk_tail tb + 1) AND sizeMask tb = blk_front tb" and wrap: "blk_next tb = Some (frontBlock (shared s))" and CanAlloc: "m = CanAlloc"
  shows "\<exists>k \<le> 5. \<exists>t. enq_alone ly malloc m x s k t"
proof -
  let ?q = "shared s" and ?g = "(shared s)\<lparr>enqueuing := True\<rparr>" and ?t = "tailBlock (shared s)"
  let ?nt = "(blk_tail tb + 1) AND sizeMask tb"
  define s1 where e1: "s1 = s\<lparr>shared := ?g, ppc := P_Checked m x ?t (blk_front tb) (blk_tail tb)\<rparr>"
  note s1 = s1 [unfolded checked_def, folded e1]
  note len = get_blockD [OF tb(1)]
  obtain s2 where s2: "pstep ly malloc m x s1 = Inr s2" "conc_env_inv ly malloc s2"
    using producer_ok [OF s1(2)] by blast
  have e2: "s2 = s1\<lparr>ppc := P_Alloc x ?t\<rparr>"
    using s2(1) tb full wrap CanAlloc by (auto simp: e1 pstep_def Let_def)
  obtain s3 where s3: "pstep ly malloc m x s2 = Inr s3" "conc_env_inv ly malloc s3" using producer_ok [OF s2(2)] by blast
  let ?w = "largestBlockSize ?q * 2" and ?a = "length (blocks ?q)"
  obtain b where b: "make_block ly malloc ?w = Inr (b :: 'a block option)"
    using s3(1) tb by (auto simp: e2 e1 pstep_def Let_def)
  show ?thesis
  proof (cases b)
    case None
    have e3: "s3 = p_return ?g [] s2"
      using s3(1) tb b None by (auto simp: e2 e1 pstep_def Let_def)
    have "conc_run ly malloc (replicate 3 (Producer m x)) s = Inr s3"
      using s1(1) s2(1) s3(1) by (simp add: numeral_3_eq_3 conc_run_def turn_step_def)
    moreover have "inner_enqueue ly malloc m x ?q = Inr (False, shared s3)"
      using tb full wrap CanAlloc b None
      by (simp add: inner_enqueue_def guard_enqueuing_def enqueue_body_def Let_def e3 e2 e1 p_return_def)
    ultimately have "enq_alone ly malloc m x s 3 s3" by (auto simp: enq_alone_def e3 e2 e1 p_return_def)
    then show ?thesis by (intro exI [of _ 3]) auto
  next
    case (Some nb)
    obtain nb' where nb': "construct_raw 0 x nb = Inr nb'" "blk_front nb' = 0"
      and e3: "s3 = s2\<lparr>shared := ?g\<lparr>largestBlockSize := ?w,
          blocks := blocks ?q @ [nb'\<lparr>blk_tail := 1, blk_next := blk_next tb\<rparr>]\<rparr>, ppc := P_Link x ?t ?a\<rparr>"
      using s3(1) tb b Some by (auto simp: e2 e1 pstep_def Let_def split: if_splits)
    let ?bs = "(blocks ?q)[?t := tb\<lparr>blk_next := Some ?a\<rparr>] @ [nb'\<lparr>blk_tail := 1, blk_next := blk_next tb\<rparr>]"
    define s4 where "s4 = s3\<lparr>shared := ?g\<lparr>largestBlockSize := ?w, blocks := ?bs\<rparr>, ppc := P_New_Block x ?a\<rparr>"
    define s5 where "s5 = p_return (?g\<lparr>largestBlockSize := ?w, blocks := ?bs, tailBlock := ?a\<rparr>) [x] s"
    have "blocks ?q ! ?t = tb" using tb(1) by (simp add: get_block_def split: if_splits)
    then have "pstep ly malloc m x s3 = Inr s4"
      using len by (simp add: e3 e2 e1 pstep_def Let_def s4_def get_block_def set_block_def nth_append list_update_append)
    moreover have "pstep ly malloc m x s4 = Inr s5"
      by (simp add: s4_def e3 e2 e1 pstep_def Let_def s5_def p_return_def)
    ultimately have "conc_run ly malloc (replicate 5 (Producer m x)) s = Inr s5"
      using s1(1) s2(1) s3(1) by (simp add: numeral_eq_Suc conc_run_def turn_step_def)
    moreover have "inner_enqueue ly malloc m x ?q = Inr (True, shared s5)"
      using tb full wrap CanAlloc b Some construct_rawD [OF nb'(1)] nb'(2)
      by (simp add: inner_enqueue_def guard_enqueuing_def enqueue_body_def Let_def s5_def p_return_def set_block_def)
    ultimately have "enq_alone ly malloc m x s 5 s5" by (auto simp: enq_alone_def s5_def p_return_def)
    then show ?thesis by (intro exI [of _ 5]) auto
  qed
qed

lemma enqueue_alone_cases:
  assumes inv: "conc_env_inv ly malloc s" and idle: "ppc s = P_Idle"
  shows "\<exists>k \<le> 5. \<exists>t. enq_alone ly malloc m x s k t"
proof -
  obtain s1 where s1: "pstep ly malloc m x s = Inr s1" "conc_env_inv ly malloc s1" using producer_ok [OF inv] by blast
  then obtain tb where tb: "get_block (tailBlock (shared s)) (shared s) = Inr tb" "\<not> enqueuing (shared s)"
    and e1: "s1 = checked m x tb s"
    using idle by (auto simp: pstep_def Let_def checked_def split: if_splits)
  note from_here = inv idle tb s1 [unfolded e1]
  show ?thesis
    using alone_room [OF from_here] alone_next [OF from_here] alone_refused [OF from_here] alone_alloc [OF from_here]
    by (cases m) blast+
qed

section \<open>The consumer\<close>

text \<open>
  The result of each call and the state it leaves, as the sequential model gives them: the
  element taken for \<open>try_dequeue\<close>, whether there was one for \<open>pop\<close>, the pointer for \<open>peek\<close>; and
  that this is the answer the call has returned with.
\<close>

definition same_call :: "deq_op \<Rightarrow> 'a conc \<Rightarrow> 'a conc \<Rightarrow> bool" where
  "same_call op s t = (case op of
     Try_Dequeue \<Rightarrow> (\<exists>r. try_dequeue (shared s) = Inr (r, shared t) \<and> cpc t = C_Returned op r \<and>
       deq t = deq s @ (case r of None \<Rightarrow> [] | Some x \<Rightarrow> [x]))
   | Pop_Front \<Rightarrow> pop (shared s) = Inr (deq t \<noteq> deq s, shared t) \<and>
       (\<exists>r. cpc t = C_Returned op r \<and> deq t = deq s @ (case r of None \<Rightarrow> [] | Some x \<Rightarrow> [x]))
   | Peek_Front \<Rightarrow> deq t = deq s \<and>
       peek (shared s) = Inr (case cpc t of C_Peeked a i \<Rightarrow> Some (a, i) | _ \<Rightarrow> None, shared t))"

definition deq_alone :: "deq_op \<Rightarrow> 'a conc \<Rightarrow> nat \<Rightarrow> 'a conc \<Rightarrow> bool" where
  "deq_alone op s k t \<longleftrightarrow>
     run_steps cstep (replicate k op) s = Inr t \<and> at_rest (cpc t) \<and> ppc t = ppc s \<and> same_call op s t"

lemmas consume_defs = try_dequeue_def pop_def peek_def guard_dequeuing_def dequeue_body_def pop_body_def
  peek_body_def Let_def

lemma consumer_ok:
  assumes "cinv ly u"
  shows "\<exists>t. cstep op u = Inr t \<and> cinv ly t"
  using consumer_step [OF assms] by metis

text \<open>The state after the first step.\<close>

definition begun :: "deq_op \<Rightarrow> 'a conc \<Rightarrow> 'a conc" where
  "begun op s = s\<lparr>shared := (shared s)\<lparr>dequeuing := True\<rparr>, cpc := C_Tail op (tailBlock (shared s)) (enq s = deq s)\<rparr>"

text \<open>Taking an element, and the last step.\<close>

lemma take_raw:
  assumes "destroy i b = Inr b'"
  obtains x where "element_at i b = Inr x" and "the (blk_data b ! unat i) = x"
proof -
  obtain x where x: "element_at i b = Inr x" using assms by (auto simp: destroy_def)
  then show ?thesis using that [of x] by (auto simp: element_at_def split: if_splits option.splits)
qed

lemma take_here:
  assumes pc: "cpc u = C_Take op a i" and b: "get_block a (shared u) = Inr b"
    and ok: "\<exists>t. cstep op u = Inr t" and op: "op \<noteq> Peek_Front"
  obtains x b' u' where "element_at i b = Inr x" and "destroy i b = Inr b'"
    and "run_steps cstep [op, op] u = Inr u'" and "cpc u' = C_Returned op (Some x)" and "ppc u' = ppc u"
    and "shared u' = (set_block a (b'\<lparr>blk_front := (i + 1) AND sizeMask b'\<rparr>) (shared u))\<lparr>dequeuing := False\<rparr>"
    and "deq u' = deq u @ [x]"
proof -
  obtain b' where b': "destroy i b = Inr b'"
    using ok pc b by (auto simp: cstep_def Let_def)
  then obtain x where x: "element_at i b = Inr x" "the (blk_data b ! unat i) = x" by (rule take_raw)
  note len = get_blockD [OF b]
  define u1 where "u1 = u\<lparr>shared := set_block a b' (shared u), cpc := C_Front op a x i\<rparr>"
  have u1: "cstep op u = Inr u1" using pc b b' x op by (cases op) (simp_all add: cstep_def Let_def u1_def)
  define u2 where "u2 = c_return op (set_block a (b'\<lparr>blk_front := (i + 1) AND sizeMask b'\<rparr>) (shared u)) (Some x) u"
  have "cstep op u1 = Inr u2" using len by (simp add: cstep_def Let_def u1_def u2_def c_return_def)
  then have "run_steps cstep [op, op] u = Inr u2" using u1 by simp
  then show ?thesis using that x b' by (simp add: u2_def c_return_def)
qed

lemma alone_front:
  assumes inv: "cinv ly s" and off: "\<not> dequeuing (shared s)"
    and s1: "cstep op s = Inr (begun op s)" "cinv ly (begun op s)"
    and fb: "get_block (frontBlock (shared s)) (shared s) = Inr fb" and ne: "blk_front fb \<noteq> blk_tail fb"
  shows "\<exists>k \<le> 6. \<exists>t. deq_alone op s k t"
proof (cases "op = Peek_Front")
  case True
  define t where "t = c_peeked (shared (begun op s)) (frontBlock (shared s)) (blk_front fb) (begun op s)"
  have "cstep op (begun op s) = Inr t"
    using fb ne True by (simp add: cstep_def Let_def t_def begun_def)
  then have "run_steps cstep (replicate 2 op) s = Inr t" using s1(1) by (simp add: numeral_2_eq_2)
  moreover have "same_call op s t"
    using True off fb ne flag_off(2) [OF off]
    by (simp add: same_call_def consume_defs t_def begun_def c_peeked_def)
  ultimately have "deq_alone op s 2 t" by (simp add: deq_alone_def t_def c_peeked_def begun_def at_rest_def)
  then show ?thesis by (intro exI [of _ 2]) auto
next
  case False
  define u where "u = (begun op s)\<lparr>cpc := C_Take op (frontBlock (shared s)) (blk_front fb)\<rparr>"
  have u: "cstep op (begun op s) = Inr u"
    using fb ne False by (cases op) (simp_all add: cstep_def Let_def u_def begun_def)
  then have inv': "cinv ly u" using consumer_ok [OF s1(2), of op] by simp
  have pc: "cpc u = C_Take op (frontBlock (shared s)) (blk_front fb)" by (simp add: u_def)
  have "get_block (frontBlock (shared s)) (shared u) = Inr fb" using fb by (simp add: u_def begun_def)
  moreover have "\<exists>t. cstep op u = Inr t" using consumer_ok [OF inv', of op] by blast
  ultimately obtain x fb' t where x: "element_at (blk_front fb) fb = Inr x" "destroy (blk_front fb) fb = Inr fb'"
    and t: "run_steps cstep [op, op] u = Inr t" "cpc t = C_Returned op (Some x)" "ppc t = ppc u" "deq t = deq u @ [x]"
      "shared t = (set_block (frontBlock (shared s)) (fb'\<lparr>blk_front := (blk_front fb + 1) AND sizeMask fb'\<rparr>)
        (shared u))\<lparr>dequeuing := False\<rparr>"
    using take_here [OF pc] False by metis
  have "run_steps cstep (replicate 4 op) s = Inr t"
    using s1(1) u t(1) by (simp add: numeral_eq_Suc)
  moreover have "same_call op s t"
    using False off fb ne x t(2,4,5) by (cases op) (simp_all add: same_call_def consume_defs u_def begun_def)
  ultimately have "deq_alone op s 4 t" using t(2,3) by (simp add: deq_alone_def u_def begun_def at_rest_def)
  then show ?thesis by (intro exI [of _ 4]) auto
qed

lemma alone_ahead:
  assumes inv: "cinv ly s" and off: "\<not> dequeuing (shared s)"
    and s1: "cstep op s = Inr (begun op s)" "cinv ly (begun op s)"
    and fb: "get_block (frontBlock (shared s)) (shared s) = Inr fb" and e: "blk_front fb = blk_tail fb"
    and ahead: "frontBlock (shared s) \<noteq> tailBlock (shared s)"
  shows "\<exists>k \<le> 6. \<exists>t. deq_alone op s k t"
proof -
  define s2 where "s2 = (begun op s)\<lparr>cpc := C_Advance op (frontBlock (shared s))\<rparr>"
  have s2: "cstep op (begun op s) = Inr s2"
    using fb e ahead by (simp add: cstep_def Let_def s2_def begun_def)
  then have inv2: "cinv ly s2" using consumer_ok [OF s1(2), of op] by simp
  obtain s3 where s3: "cstep op s2 = Inr s3" "cinv ly s3" using consumer_ok [OF inv2, of op] by blast
  then obtain n nb where n: "deref (blk_next fb) = Inr n" "get_block n (shared s) = Inr nb" "blk_front nb \<noteq> blk_tail nb"
    using fb by (auto simp: cstep_def Let_def s2_def begun_def split: if_splits)
  show ?thesis
  proof (cases "op = Peek_Front")
    case True
    have e3: "s3 = c_peeked (shared s2) n (blk_front nb) s2"
      using s3(1) fb n True by (simp add: cstep_def Let_def s2_def begun_def)
    have "run_steps cstep (replicate 3 op) s = Inr s3" using s1(1) s2 s3(1) by (simp add: numeral_3_eq_3)
    moreover have "same_call op s s3"
      using True off fb e ahead n flag_off(2) [OF off]
      by (simp add: same_call_def consume_defs e3 s2_def begun_def c_peeked_def)
    ultimately have "deq_alone op s 3 s3" by (simp add: deq_alone_def e3 s2_def c_peeked_def begun_def at_rest_def)
    then show ?thesis by (intro exI [of _ 3]) auto
  next
    case False
    have e3: "s3 = s2\<lparr>cpc := C_Move op n (blk_front nb)\<rparr>"
      using s3(1) fb n False by (cases op) (simp_all add: cstep_def Let_def s2_def begun_def)
    define u where "u = s3\<lparr>shared := (shared s3)\<lparr>frontBlock := n\<rparr>, cpc := C_Take op n (blk_front nb)\<rparr>"
    have u: "cstep op s3 = Inr u" by (simp add: cstep_def Let_def u_def e3)
    then have inv': "cinv ly u" using consumer_ok [OF s3(2), of op] by simp
    have pc: "cpc u = C_Take op n (blk_front nb)" by (simp add: u_def)
    have nb: "get_block n (shared u) = Inr nb" "get_block n ((shared s)\<lparr>dequeuing := True, frontBlock := n\<rparr>) = Inr nb"
      using n(2) by (simp_all add: u_def e3 s2_def begun_def get_block_def split: if_splits)
    moreover have "\<exists>t. cstep op u = Inr t" using consumer_ok [OF inv', of op] by blast
    ultimately obtain x nb' t where x: "element_at (blk_front nb) nb = Inr x" "destroy (blk_front nb) nb = Inr nb'"
      and t: "run_steps cstep [op, op] u = Inr t" "cpc t = C_Returned op (Some x)" "ppc t = ppc u" "deq t = deq u @ [x]"
        "shared t = (set_block n (nb'\<lparr>blk_front := (blk_front nb + 1) AND sizeMask nb'\<rparr>) (shared u))\<lparr>dequeuing := False\<rparr>"
      using take_here [OF pc] False by metis
    have "run_steps cstep (replicate 6 op) s = Inr t"
      using s1(1) s2 s3(1) u t(1) by (simp add: numeral_eq_Suc)
    moreover have "same_call op s t"
      using False off fb e ahead n x t(2,4,5)
      by (cases op) (simp_all add: same_call_def consume_defs u_def e3 s2_def begun_def)
    ultimately have "deq_alone op s 6 t" using t(2,3) by (simp add: deq_alone_def u_def e3 s2_def begun_def at_rest_def)
    then show ?thesis by (intro exI [of _ 6]) auto
  qed
qed

lemma dequeue_alone_cases:
  assumes inv: "cinv ly s" and idle: "at_rest (cpc s)"
  shows "\<exists>k \<le> 6. \<exists>t. deq_alone op s k t"
proof -
  obtain s1 where s1: "cstep op s = Inr s1" "cinv ly s1" using consumer_ok [OF inv] by blast
  then have off: "\<not> dequeuing (shared s)" and e1: "s1 = begun op s"
    using idle by (auto simp: cstep_def c_begin_def begun_def at_rest_def Let_def split: if_splits cpc.splits)
  note s1 = s1 [unfolded e1]
  obtain s2 where s2: "cstep op (begun op s) = Inr s2" "cinv ly s2" using consumer_ok [OF s1(2)] by blast
  then obtain fb where fb: "get_block (frontBlock (shared s)) (shared s) = Inr fb"
    by (auto simp: begun_def cstep_def Let_def)
  show ?thesis
  proof (cases "blk_front fb = blk_tail fb")
    case False
    then show ?thesis by (rule alone_front [OF inv off s1 fb])
  next
    case empty: True
    show ?thesis
    proof (cases "frontBlock (shared s) = tailBlock (shared s)")
      case False
      then show ?thesis by (rule alone_ahead [OF inv off s1 fb empty])
    next
      case True
      have e2: "s2 = c_return op (shared (begun op s)) None (begun op s)"
        using s2(1) fb empty True by (simp add: begun_def cstep_def Let_def)
      have "run_steps cstep (replicate 2 op) s = Inr s2"
        using s1(1) s2(1) by (simp add: numeral_2_eq_2)
      moreover have "same_call op s s2"
        using off fb empty True flag_off(2) [OF off]
        by (cases op) (simp_all add: same_call_def consume_defs e2 begun_def c_return_def)
      ultimately have "deq_alone op s 2 s2" by (simp add: deq_alone_def e2 begun_def c_return_def at_rest_def)
      then show ?thesis by (intro exI [of _ 2]) auto
    qed
  qed
qed

end
