(* ===== verification/RW_Conc_Properties.thy ===== *)
theory RW_Conc_Properties
  imports RW_Conc_Alone
begin

text \<open>
  What holds of every execution of the two threads: no step faults, the queue is an atomic
  queue to both threads, a call returns after a bounded number of its own steps, a call that
  is not interrupted is the call of the sequential model, and with both threads outside their
  calls the queue satisfies the invariant of the sequential development, whose operations may
  then be used.
\<close>

text \<open>The start of the witnesses: a queue with room for one element, and a run on it.\<close>

lemma std_reach: "conc_reach std_layout (conc_start (std_queue 1))"
proof -
  have c: "ceilToPow2 2 = 2" by code_simp
  have b: "bytes_of std_layout 2 = 342" by (simp add: bytes_of_def std_layout_def)
  show ?thesis
    by (rule conc_reach.start [OF std_ok(2), of 1]) (use std_queue_1 in \<open>simp_all add: c b\<close>)
qed

definition std_run :: "nat turn list \<Rightarrow> nat conc" where
  "std_run sched = (case conc_run std_layout std_malloc sched (conc_start (std_queue 1)) of Inr s \<Rightarrow> s)"

lemma std_run_reach: "conc_reach std_layout (std_run sched)"
proof -
  have "cinv std_layout (conc_start (std_queue 1))" by (rule conc_reach_cinv [OF std_reach std_ok(1)])
  then have "conc_env_inv std_layout std_malloc (conc_start (std_queue 1))"
    using std_ok by (simp add: conc_env_inv_def)
  then obtain t where t: "conc_run std_layout std_malloc sched (conc_start (std_queue 1)) = Inr t"
    using conc_run_ok by blast
  then have "std_run sched = t" by (simp add: std_run_def)
  then show ?thesis using conc_run_reach [OF std_reach std_ok(2) t] by simp
qed

text \<open>
  Two enqueues, the second of which allocates a block, and a dequeue, interleaved; and the
  same cut short with a call of each thread under way.
\<close>

definition both_turns :: "nat turn list" where
  "both_turns = [Producer CanAlloc 5, Consumer Try_Dequeue, Producer CanAlloc 5, Producer CanAlloc 5, Producer CanAlloc 6,
     Consumer Try_Dequeue, Producer CanAlloc 6, Producer CanAlloc 6, Producer CanAlloc 6, Producer CanAlloc 6,
     Consumer Try_Dequeue, Consumer Try_Dequeue]"

text \<open>
  C2. In every state the two threads can reach, whatever the order of their steps and the answers
  of the allocator, the next step of either thread is made without a fault: no assertion
  fails, no null or foreign pointer is followed, no slot is read or destroyed that holds no
  object, and none is constructed over an object that is alive.
\<close>
theorem threads_never_fault:
  assumes "conc_reach ly s" and "layout_ok ly" and "malloc_ok malloc"
  shows "(\<exists>t. pstep ly malloc mode x s = Inr t) \<and> (\<exists>t. cstep op s = Inr t)"
proof -
  have inv: "cinv ly s" using assms(1,2) by (rule conc_reach_cinv)
  show ?thesis
    using producer_step [OF inv assms(2,3), of mode x] consumer_step [OF inv, of op] by metis
qed

theorem threads_never_fault_witness:
  "(\<exists>t. pstep std_layout std_malloc CanAlloc 7 (std_run (take 7 both_turns)) = Inr t) \<and>
   (\<exists>t. cstep Pop_Front (std_run (take 7 both_turns)) = Inr t)"
  using threads_never_fault [OF std_run_reach std_ok] .

text \<open>
  C1. The queue with its two threads refines an atomic queue. The constructed queue is the empty
  one; and if a state stands for a state of the atomic queue, the next step of either thread
  leads to a state that stands for the same one or for one that an atomic call, effect or
  return leads to. A state of the atomic queue has the operation of the call under way and the
  answer of the last one, so this fixes the answers: elements come out in the order they went in,
  each once; \<open>try_dequeue\<close> and \<open>pop\<close> return true only when they remove the oldest element, \<open>peek\<close> points to the
  oldest and removes nothing, and no call returns false or null unless the queue was empty when
  it began; an enqueue adds its element at a single step, and fails to only if it may not allocate or
  the allocator has no memory for a block of the size the call asks for.
\<close>
theorem threads_refine_atomic_queue:
  assumes "conc_reach ly s" and "layout_ok ly" and "malloc_ok malloc"
    and "refines s a" and "pstep ly malloc mode x s = Inr t \<or> cstep op s = Inr t"
  shows "refines (conc_start q) (None, [], Outside Not_Called) \<and>
    (\<exists>b. refines t b \<and> (b = a \<or> atomic_step (no_memory ly malloc (shared s)) a b))"
proof
  show "refines (conc_start q) (None, [], Outside Not_Called)"
    by (simp add: refines_def conc_start_def call_seen_def last_answer_def enq_seen_def)
  have inv: "cinv ly s" using assms(1,2) by (rule conc_reach_cinv)
  show "\<exists>b. refines t b \<and> (b = a \<or> atomic_step (no_memory ly malloc (shared s)) a b)"
  proof (cases "pstep ly malloc mode x s = Inr t")
    case True
    show ?thesis by (rule producer_refines [OF inv assms(2,3) True assms(4)])
  next
    case False
    then have c: "cstep op s = Inr t" using assms(5) by blast
    show ?thesis by (rule consumer_refines [OF inv c assms(4)])
  qed
qed

text \<open>The step by which the dequeue of \<open>both_turns\<close> returns: the atomic queue gives up the oldest element.\<close>

theorem threads_refine_atomic_queue_witness:
  "refines (std_run both_turns) (None, [6], Outside (Answered Try_Dequeue (Some 5))) \<and>
   atomic_step (no_memory std_layout std_malloc (shared (std_run (butlast both_turns)))) (None, [5, 6], Called Try_Dequeue False) (None, [6 :: nat], Outside (Answered Try_Dequeue (Some 5)))"
proof -
  have "refines (std_run (butlast both_turns)) (None, [5, 6], Called Try_Dequeue False)" by code_simp
  moreover have "cstep Peek_Front (std_run (butlast both_turns)) = Inr (std_run both_turns)" by code_simp
  ultimately obtain b where b: "refines (std_run both_turns) b"
    "b = (None, [5, 6], Called Try_Dequeue False) \<or> atomic_step (no_memory std_layout std_malloc (shared (std_run (butlast both_turns)))) (None, [5, 6], Called Try_Dequeue False) b"
    using threads_refine_atomic_queue [OF std_run_reach std_ok, of "butlast both_turns" _ CanAlloc 0] by blast
  have "enq (std_run both_turns) = [5, 6] \<and> deq (std_run both_turns) = [5] \<and>
      ppc (std_run both_turns) = P_Idle \<and> cpc (std_run both_turns) = C_Returned Try_Dequeue (Some 5)" by code_simp
  then have "b = (None, [6], Outside (Answered Try_Dequeue (Some 5)))"
    using b(1) by (cases b) (auto simp: refines_def call_seen_def last_answer_def call_op_def enq_seen_def split: deq_call.splits)
  then show ?thesis using b by simp
qed

text \<open>
  \<open>try_dequeue\<close> and \<open>pop\<close> return false, and \<open>peek\<close> a null pointer, only if the queue was
  empty when the call began: whatever the
  producer does between the two steps of such a call, it cannot make the consumer miss an
  element whose enqueue was complete.
\<close>
theorem try_dequeue_false_means_empty:
  assumes "conc_reach ly s" and "layout_ok ly" and "malloc_ok malloc" and "at_rest (cpc s)"
    and "cstep op s = Inr s1" and "conc_run ly malloc sched s1 = Inr s2" and "list_all is_producer sched"
    and "cstep op s2 = Inr s3" and "cpc s3 = C_Returned op None"
  shows "deq s3 = deq s \<and> enq s = deq s"
proof -
  have inv: "cinv ly s" using assms(1,2) by (rule conc_reach_cinv)
  obtain b where s1: "cpc s1 = C_Tail op b (enq s = deq s)" "deq s1 = deq s" and inv1: "cinv ly s1"
    using consumer_step [OF inv, of op] assms(4,5) by (auto simp: c_effect_def)
  have env: "conc_env_inv ly malloc s1" using inv1 assms(2,3) by (simp add: conc_env_inv_def)
  have s2: "cpc s2 = cpc s1" "deq s2 = deq s1" "cinv ly s2"
    using producer_turns [OF env assms(6,7)] by (simp_all add: conc_env_inv_def)
  have "c_effect op s2 s3" using consumer_step [OF s2(3), of op] assms(8) by auto
  then show ?thesis using s1 s2 assms(9) by (auto simp: c_effect_def at_rest_def takes_def)
qed

theorem try_dequeue_false_means_empty_witness:
  "deq (std_run [Consumer Peek_Front, Producer CanAlloc 5, Producer CanAlloc 5, Consumer Peek_Front]) = deq (std_run []) \<and>
   enq (std_run []) = deq (std_run [])"
proof (rule try_dequeue_false_means_empty [OF std_run_reach std_ok])
  show "at_rest (cpc (std_run []))" by code_simp
  show "cstep Peek_Front (std_run []) = Inr (std_run [Consumer Peek_Front])" by code_simp
  show "conc_run std_layout std_malloc [Producer CanAlloc 5, Producer CanAlloc 5] (std_run [Consumer Peek_Front]) =
      Inr (std_run [Consumer Peek_Front, Producer CanAlloc 5, Producer CanAlloc 5])" by code_simp
  show "list_all is_producer [Producer CanAlloc 5, Producer CanAlloc (5 :: nat)]" by simp
  show "cstep Peek_Front (std_run [Consumer Peek_Front, Producer CanAlloc 5, Producer CanAlloc 5]) =
      Inr (std_run [Consumer Peek_Front, Producer CanAlloc 5, Producer CanAlloc 5, Consumer Peek_Front])" by code_simp
  show "cpc (std_run [Consumer Peek_Front, Producer CanAlloc 5, Producer CanAlloc 5, Consumer Peek_Front]) = C_Returned Peek_Front None" by code_simp
qed

text \<open>
  When both threads are outside their calls the shared state satisfies the invariant of the
  sequential development, and its contents are the elements enqueued less those dequeued.
\<close>
theorem quiescent_state:
  assumes "conc_reach ly s" and "layout_ok ly" and "ppc s = P_Idle" and "at_rest (cpc s)"
  shows "rwq_inv ly (shared s) \<and> enq s = deq s @ rwq_contents (shared s)"
proof -
  obtain pre post E where at: "cinv_at ly s pre post E"
    using conc_reach_cinv [OF assms(1,2)] by (auto simp: cinv_def)
  note Q = quiet_rep [OF at assms(3,4)]
  have "enq s = deq s @ concat (map E pre)" using at by (simp add: cinv_at_def c_elems_def)
  then show ?thesis using Q(2,3) contents_items [OF Q(1)] by simp
qed

theorem quiescent_state_witness:
  "rwq_inv std_layout (shared (std_run both_turns)) \<and> rwq_contents (shared (std_run both_turns)) = [6]"
proof -
  have q: "ppc (std_run both_turns) = P_Idle" "at_rest (cpc (std_run both_turns))"
    "enq (std_run both_turns) = [5, 6]" "deq (std_run both_turns) = [5]"
    by code_simp+
  show ?thesis using quiescent_state [OF std_run_reach std_ok(1) q(1,2)] q(3,4) by simp
qed

text \<open>
  An enqueue returns: in every schedule that gives the producer four turns there is a moment
  when it is outside its call, whatever the consumer does meanwhile. The call waits for
  nothing.
\<close>
theorem enqueue_wait_free:
  assumes "conc_reach ly s" and "layout_ok ly" and "malloc_ok malloc"
    and "4 \<le> length (filter is_producer sched)"
  shows "\<exists>k \<le> length sched. \<exists>t. conc_run ly malloc (take k sched) s = Inr t \<and> ppc t = P_Idle"
proof -
  have "conc_env_inv ly malloc s" using conc_reach_cinv [OF assms(1,2)] assms(2,3) by (simp add: conc_env_inv_def)
  moreover have "p_left (ppc s) \<le> 4" by (simp add: p_left_def split: ppc.splits)
  then have "p_left (ppc s) \<le> length (filter is_producer sched)" using assms(4) by linarith
  ultimately show ?thesis using producer_thread.returns [of ly malloc s sched] by (simp add: conc_run_def)
qed

theorem enqueue_wait_free_witness:
  "\<exists>k \<le> 6. \<exists>t. conc_run std_layout std_malloc
     (take k [Consumer Try_Dequeue, Producer CanAlloc 5, Producer CanAlloc 5, Consumer Try_Dequeue, Producer CanAlloc 5, Producer CanAlloc 5])
     (std_run [Producer CanAlloc 5]) = Inr t \<and> ppc t = P_Idle"
  using enqueue_wait_free [OF std_run_reach std_ok, of "[Consumer Try_Dequeue, Producer CanAlloc 5, Producer CanAlloc 5,
    Consumer Try_Dequeue, Producer CanAlloc 5, Producer CanAlloc 5]" "[Producer CanAlloc 5]"] by (simp add: numeral_eq_Suc)

text \<open>
  C8. A \<open>try_dequeue\<close>, \<open>pop\<close> or \<open>peek\<close> returns, likewise, within five turns of the consumer.
\<close>
theorem dequeue_wait_free:
  assumes "conc_reach ly s" and "layout_ok ly" and "malloc_ok malloc"
    and "5 \<le> length (filter (\<lambda>a. \<not> is_producer a) sched)"
  shows "\<exists>k \<le> length sched. \<exists>t. conc_run ly malloc (take k sched) s = Inr t \<and> at_rest (cpc t)"
proof -
  have "conc_env_inv ly malloc s" using conc_reach_cinv [OF assms(1,2)] assms(2,3) by (simp add: conc_env_inv_def)
  moreover have "c_left (cpc s) \<le> 5" by (simp add: c_left_def split: cpc.splits)
  then have "c_left (cpc s) \<le> length (filter (\<lambda>a. \<not> is_producer a) sched)" using assms(4) by linarith
  ultimately show ?thesis using consumer_thread.returns [of ly malloc s sched] by (simp add: conc_run_def)
qed

theorem dequeue_wait_free_witness:
  "\<exists>k \<le> 6. \<exists>t. conc_run std_layout std_malloc
     (take k [Consumer Pop_Front, Consumer Pop_Front, Producer CanAlloc 5, Consumer Pop_Front, Consumer Pop_Front, Consumer Pop_Front])
     (std_run [Consumer Pop_Front]) = Inr t \<and> at_rest (cpc t)"
  using dequeue_wait_free [OF std_run_reach std_ok, of "[Consumer Pop_Front, Consumer Pop_Front, Producer CanAlloc 5, Consumer Pop_Front,
    Consumer Pop_Front, Consumer Pop_Front]" "[Consumer Pop_Front]"] by (simp add: numeral_eq_Suc)

text \<open>
  C10. The two models of the code agree: in every reachable state, also with the other thread
  halfway through a call, an enqueue whose steps are not interrupted does what
  \<open>inner_enqueue\<close> does, within five steps, and a call of the consumer does what
  \<open>try_dequeue\<close>, \<open>pop\<close> or \<open>peek\<close> does, within six.
\<close>
theorem uninterrupted_calls:
  assumes "conc_reach ly s" and "layout_ok ly" and "malloc_ok malloc"
  shows "(ppc s = P_Idle \<longrightarrow> (\<exists>k \<le> 5. \<exists>t. enq_alone ly malloc m x s k t)) \<and>
    (at_rest (cpc s) \<longrightarrow> (\<exists>k \<le> 6. \<exists>t. deq_alone op s k t))"
proof -
  have inv: "cinv ly s" using assms(1,2) by (rule conc_reach_cinv)
  then have "conc_env_inv ly malloc s" using assms(2,3) by (simp add: conc_env_inv_def)
  then show ?thesis using enqueue_alone_cases [of ly malloc s m x] dequeue_alone_cases [OF inv, of op] by blast
qed

theorem uninterrupted_calls_witness:
  "(\<exists>k \<le> 5. \<exists>t. enq_alone std_layout std_malloc CanAlloc 7 (std_run both_turns) k t) \<and>
   (\<exists>k \<le> 6. \<exists>t. deq_alone Peek_Front (std_run both_turns) k t)"
proof -
  have "ppc (std_run both_turns) = P_Idle" "at_rest (cpc (std_run both_turns))" by code_simp+
  then show ?thesis using uninterrupted_calls [OF std_run_reach std_ok] by blast
qed

text \<open>
  C9. The pointer that \<open>peek\<close> returns points to a live object, the oldest element of the queue,
  and goes on doing so whatever the producer does, until the consumer begins another call.
\<close>
theorem peek_pointer_stays_valid:
  assumes "conc_reach ly s" and "layout_ok ly" and "malloc_ok malloc" and "cpc s = C_Peeked a i"
    and "conc_run ly malloc sched s = Inr t" and "list_all is_producer sched"
  shows "\<exists>x xs ys. enq s = deq s @ x # xs \<and> enq t = deq s @ x # ys \<and>
    res_bind (get_block a (shared s)) (element_at i) = Inr x \<and>
    res_bind (get_block a (shared t)) (element_at i) = Inr x"
proof -
  have inv: "cinv ly s" using assms(1,2) by (rule conc_reach_cinv)
  then have env: "conc_env_inv ly malloc s" using assms(2,3) by (simp add: conc_env_inv_def)
  obtain zs where t: "cpc t = C_Peeked a i" "deq t = deq s" "cinv ly t" "enq t = enq s @ zs"
    using producer_turns [OF env assms(5,6)] assms(4) by (auto simp: conc_env_inv_def)
  obtain x xs where x: "enq s = deq s @ x # xs" "res_bind (get_block a (shared s)) (element_at i) = Inr x"
    using inv peeked_element [OF _ assms(4)] unfolding cinv_def by metis
  obtain y ys where y: "enq t = deq t @ y # ys" "res_bind (get_block a (shared t)) (element_at i) = Inr y"
    using t(3) peeked_element [OF _ t(1)] unfolding cinv_def by metis
  have "y = x" using x(1) y(1) t(2,4) by simp
  then show ?thesis using x y t(2) by auto
qed

theorem peek_pointer_stays_valid_witness:
  "let s = std_run (both_turns @ [Consumer Peek_Front, Consumer Peek_Front, Consumer Peek_Front]);
       t = std_run (both_turns @ [Consumer Peek_Front, Consumer Peek_Front, Consumer Peek_Front,
         Producer CanAlloc 7, Producer CanAlloc 7])
   in \<exists>x xs ys. enq s = deq s @ x # xs \<and> enq t = deq s @ x # ys \<and>
     res_bind (get_block 1 (shared s)) (element_at 0) = Inr x \<and>
     res_bind (get_block 1 (shared t)) (element_at 0) = Inr x"
  unfolding Let_def
proof (rule peek_pointer_stays_valid [OF std_run_reach std_ok])
  show "cpc (std_run (both_turns @ [Consumer Peek_Front, Consumer Peek_Front, Consumer Peek_Front])) =
      C_Peeked 1 0"
    by code_simp
  show "conc_run std_layout std_malloc [Producer CanAlloc 7, Producer CanAlloc 7]
      (std_run (both_turns @ [Consumer Peek_Front, Consumer Peek_Front, Consumer Peek_Front])) =
    Inr (std_run (both_turns @ [Consumer Peek_Front, Consumer Peek_Front, Consumer Peek_Front,
      Producer CanAlloc 7, Producer CanAlloc 7]))"
    by code_simp
  show "list_all is_producer [Producer CanAlloc 7, Producer CanAlloc (7 :: nat)]" by simp
qed

end
