(* ===== verification/RW_TSO.thy ===== *)
theory RW_TSO
  imports RW_Conc_Properties
begin

text \<open>
  The queue on a machine whose processors buffer their stores, as x86 ones do: a store goes to
  the end of the buffer of its thread, a thread reads its own buffered stores and otherwise the
  memory, and the oldest store of a buffer reaches the memory at any later moment. On this
  machine the acquire and release fences of the queue are compiler barriers and no instructions
  (\<open>Atomicops\<close>), so nothing ever empties a buffer. The program is that of \<open>RW_Concurrent\<close>: a step
  of a thread is its step there, on the memory as the thread sees it.
\<close>

section \<open>Stores\<close>

text \<open>
  The stores of the producer, then those of the consumer. The writes that initialise a new
  block are one store: no other thread can reach the block before \<open>Set_Next\<close>; with them goes
  \<open>largestBlockSize\<close>, which no other thread reads.
\<close>

datatype 'a store =
    Construct nat u64 'a
  | Set_Tail nat u64
  | Set_Next nat nat
  | Set_TailBlock nat
  | New_Block u64 "'a block"
  | Destroy nat u64
  | Set_Front nat u64
  | Set_FrontBlock nat

definition upd_block :: "nat \<Rightarrow> ('a block \<Rightarrow> 'a block) \<Rightarrow> 'a rwq \<Rightarrow> 'a rwq" where
  "upd_block a f q = set_block a (f (blocks q ! a)) q"

fun do_store :: "'a store \<Rightarrow> 'a rwq \<Rightarrow> 'a rwq" where
  "do_store (Construct a i x) q = upd_block a (\<lambda>b. b\<lparr>blk_data := (blk_data b)[unat i := Some x]\<rparr>) q"
| "do_store (Set_Tail a i) q = upd_block a (\<lambda>b. b\<lparr>blk_tail := i\<rparr>) q"
| "do_store (Set_Next a n) q = upd_block a (\<lambda>b. b\<lparr>blk_next := Some n\<rparr>) q"
| "do_store (Set_TailBlock n) q = q\<lparr>tailBlock := n\<rparr>"
| "do_store (New_Block l b) q = q\<lparr>largestBlockSize := l, blocks := blocks q @ [b]\<rparr>"
| "do_store (Destroy a i) q = upd_block a (\<lambda>b. b\<lparr>blk_data := (blk_data b)[unat i := None]\<rparr>) q"
| "do_store (Set_Front a i) q = upd_block a (\<lambda>b. b\<lparr>blk_front := i\<rparr>) q"
| "do_store (Set_FrontBlock n) q = q\<lparr>frontBlock := n\<rparr>"

text \<open>
  An entry of a buffer: a store, and the elements that count as added, or as removed, when it
  has reached the memory.
\<close>

type_synonym 'a entry = "'a store \<times> 'a list"

definition do_entries :: "'a entry list \<Rightarrow> 'a rwq \<Rightarrow> 'a rwq" where
  "do_entries = fold (do_store \<circ> fst)"

definition carried :: "'a entry list \<Rightarrow> 'a list" where
  "carried ws = concat (map snd ws)"

section \<open>The stores of a step\<close>

text \<open>
  What a step wrote, by its program point before and after. The two flags that detect a
  reentrant call are each read and written by one thread only and are kept with the thread.
\<close>

definition p_stores :: "'a conc \<Rightarrow> 'a conc \<Rightarrow> 'a entry list" where
  "p_stores s t = (case ppc s of
     P_Checked m x a bf bt \<Rightarrow> (case ppc t of P_Publish _ _ _ \<Rightarrow> [(Construct a bt x, [])] | _ \<Rightarrow> [])
   | P_Publish x a nt \<Rightarrow> [(Set_Tail a nt, [x])]
   | P_Next x n \<Rightarrow> (case ppc t of P_Next_Tail _ _ i \<Rightarrow> [(Construct n i x, [])] | _ \<Rightarrow> [])
   | P_Next_Tail x n i \<Rightarrow> [(Set_Tail n ((i + 1) AND sizeMask (blocks (shared s) ! n)), [])]
   | P_Next_Block x n \<Rightarrow> [(Set_TailBlock n, [x])]
   | P_Alloc x a \<Rightarrow> (case ppc t of
       P_Link _ _ _ \<Rightarrow> [(New_Block (largestBlockSize (shared t)) (last (blocks (shared t))), [])]
     | _ \<Rightarrow> [])
   | P_Link x a b \<Rightarrow> [(Set_Next a b, [])]
   | P_New_Block x n \<Rightarrow> [(Set_TailBlock n, [x])]
   | _ \<Rightarrow> [])"

definition c_stores :: "'a conc \<Rightarrow> 'a entry list" where
  "c_stores s = (case cpc s of
     C_Take op f i \<Rightarrow> [(Destroy f i, [])]
   | C_Front op f x i \<Rightarrow> [(Set_Front f ((i + 1) AND sizeMask (blocks (shared s) ! f)), [x])]
   | C_Move op n i \<Rightarrow> [(Set_FrontBlock n, [])]
   | _ \<Rightarrow> [])"

definition unflagged :: "'a rwq \<Rightarrow> 'a rwq" where
  "unflagged q = q\<lparr>enqueuing := False, dequeuing := False\<rparr>"

lemma do_entries_simps [simp]:
  "do_entries [] q = q" "do_entries (w # ws) q = do_entries ws (do_store (fst w) q)"
  "do_entries (ws @ vs) q = do_entries vs (do_entries ws q)"
  by (simp_all add: do_entries_def)

lemma carried_simps [simp]:
  "carried [] = []" "carried (w # ws) = snd w @ carried ws" "carried (ws @ vs) = carried ws @ carried vs"
  by (simp_all add: carried_def)

text \<open>These are all the writes of the step, and nothing else.\<close>

lemma pstep_checked_cases:
  assumes "pstep ly malloc m x s = Inr t" and "ppc s = P_Checked md y a bf bt"
  obtains (room) b where "a < length (blocks (shared s))" and "construct_raw bt y (blocks (shared s) ! a) = Inr b"
      and "(bt + 1) AND sizeMask (blocks (shared s) ! a) \<noteq> bf"
      and "t = s\<lparr>shared := set_block a b (shared s), ppc := P_Publish y a ((bt + 1) AND sizeMask (blocks (shared s) ! a))\<rparr>"
  | (ahead) n where "t = s\<lparr>ppc := P_Next y n\<rparr>" and "(bt + 1) AND sizeMask (blocks (shared s) ! a) = bf"
  | (alloc) "t = s\<lparr>ppc := P_Alloc y a\<rparr>" and "(bt + 1) AND sizeMask (blocks (shared s) ! a) = bf"
  | (refused) "t = p_return (shared s) [] s" and "(bt + 1) AND sizeMask (blocks (shared s) ! a) = bf"
  using assms by (simp add: pstep_def Let_def res_bind_eq_Inr get_block_def split: if_splits alloc_mode.splits; blast)

lemma pstep_alloc_cases:
  assumes "pstep ly malloc m x s = Inr t" and "ppc s = P_Alloc y a"
  obtains (made) b where "t = s\<lparr>shared := (shared s)\<lparr>largestBlockSize := largestBlockSize (shared s) * 2,
      blocks := blocks (shared s) @ [b]\<rparr>, ppc := P_Link y a (length (blocks (shared s)))\<rparr>"
  | (refused) "t = p_return (shared s) [] s"
  using assms by (simp add: pstep_def Let_def res_bind_eq_Inr split: if_splits option.splits; blast)

lemma pstep_writes:
  assumes "pstep ly malloc m x s = Inr t"
  shows "unflagged (shared t) = do_entries (p_stores s t) (unflagged (shared s)) \<and>
    enq t = enq s @ carried (p_stores s t) \<and> deq t = deq s \<and> cpc t = cpc s"
proof -
  note D = p_stores_def p_return_def unflagged_def set_block_def upd_block_def
  show ?thesis
  proof (cases "ppc s")
    case (P_Checked md y a bf bt)
    from assms this show ?thesis
      by (cases rule: pstep_checked_cases)
        (auto simp: P_Checked D construct_raw_def construct_def split: if_splits)
  next
    case (P_Alloc y a)
    from assms this show ?thesis by (cases rule: pstep_alloc_cases) (simp_all add: P_Alloc D)
  qed (use assms in \<open>auto simp: D pstep_def construct_raw_def construct_def get_block_def Let_def res_bind_eq_Inr split: if_splits\<close>)
qed

lemmas pstep_stores = pstep_writes [THEN conjunct1] pstep_writes [THEN conjunct2, THEN conjunct1]
  pstep_writes [THEN conjunct2, THEN conjunct2, THEN conjunct1] pstep_writes [THEN conjunct2, THEN conjunct2, THEN conjunct2]

lemma cstep_stores:
  assumes "cstep op s = Inr t"
  shows "unflagged (shared t) = do_entries (c_stores s) (unflagged (shared s))"
    and "deq t = deq s @ carried (c_stores s)" and "enq t = enq s" and "ppc t = ppc s"
  using assms
  by (auto simp: cstep_def c_begin_def c_stores_def c_return_def c_peeked_def unflagged_def get_block_def set_block_def
      upd_block_def destroy_def Let_def res_bind_eq_Inr split: cpc.splits if_splits deq_op.splits option.splits)

section \<open>The machine\<close>

text \<open>
  \<open>visible\<close> and \<open>removed\<close> record the elements whose entries have reached the memory; neither is
  read by the code, except that a call of the consumer records whether they were the same.
\<close>

record 'a tso =
  memory :: "'a rwq"
  p_buf :: "'a entry list"
  c_buf :: "'a entry list"
  p_flag :: bool
  c_flag :: bool
  t_ppc :: "'a ppc"
  t_cpc :: "'a cpc"
  visible :: "'a list"
  removed :: "'a list"

text \<open>The memory as a thread sees it: its own stores applied to it.\<close>

definition p_view :: "'a tso \<Rightarrow> 'a conc" where
  "p_view s = \<lparr>shared = (do_entries (p_buf s) (memory s))\<lparr>enqueuing := p_flag s\<rparr>,
     ppc = t_ppc s, cpc = C_Idle, enq = visible s @ carried (p_buf s), deq = removed s\<rparr>"

definition c_view :: "'a tso \<Rightarrow> 'a conc" where
  "c_view s = \<lparr>shared = (do_entries (c_buf s) (memory s))\<lparr>dequeuing := c_flag s\<rparr>,
     ppc = P_Idle, cpc = t_cpc s, enq = visible s, deq = removed s @ carried (c_buf s)\<rparr>"

definition tso_pstep :: "layout \<Rightarrow> (u64 \<Rightarrow> u64) \<Rightarrow> alloc_mode \<Rightarrow> 'a \<Rightarrow> 'a tso \<Rightarrow> 'a tso res" where
  "tso_pstep ly malloc m x s =
     res_bind (pstep ly malloc m x (p_view s)) (\<lambda>t.
     Inr (s\<lparr>p_buf := p_buf s @ p_stores (p_view s) t, p_flag := enqueuing (shared t), t_ppc := ppc t\<rparr>))"

definition tso_cstep :: "deq_op \<Rightarrow> 'a tso \<Rightarrow> 'a tso res" where
  "tso_cstep op s =
     res_bind (cstep op (c_view s)) (\<lambda>t.
     Inr (s\<lparr>c_buf := c_buf s @ c_stores (c_view s), c_flag := dequeuing (shared t), t_cpc := cpc t\<rparr>))"

text \<open>The oldest store of a buffer reaches the memory.\<close>

definition p_drain :: "'a tso \<Rightarrow> 'a tso" where
  "p_drain s = (case p_buf s of
     [] \<Rightarrow> s
   | (w, xs) # ws \<Rightarrow> s\<lparr>memory := do_store w (memory s), p_buf := ws, visible := visible s @ xs\<rparr>)"

definition c_drain :: "'a tso \<Rightarrow> 'a tso" where
  "c_drain s = (case c_buf s of
     [] \<Rightarrow> s
   | (w, xs) # ws \<Rightarrow> s\<lparr>memory := do_store w (memory s), c_buf := ws, removed := removed s @ xs\<rparr>)"

definition tso_start :: "'a rwq \<Rightarrow> 'a tso" where
  "tso_start q = \<lparr>memory = q, p_buf = [], c_buf = [], p_flag = False, c_flag = False,
     t_ppc = P_Idle, t_cpc = C_Idle, visible = [], removed = []\<rparr>"

inductive tso_reach :: "layout \<Rightarrow> 'a tso \<Rightarrow> bool" for ly where
  start: "\<lbrakk> malloc_ok malloc; 1 \<le> unat n; unat n < 2 ^ 63; bytes_of ly (unat (ceilToPow2 (n + 1))) < 2 ^ 64;
            ReaderWriterQueue ly malloc n = Inr q \<rbrakk> \<Longrightarrow> tso_reach ly (tso_start q)"
| producer: "\<lbrakk> tso_reach ly s; malloc_ok malloc; tso_pstep ly malloc mode x s = Inr t \<rbrakk> \<Longrightarrow> tso_reach ly t"
| consumer: "\<lbrakk> tso_reach ly s; tso_cstep op s = Inr t \<rbrakk> \<Longrightarrow> tso_reach ly t"
| p_drains: "tso_reach ly s \<Longrightarrow> tso_reach ly (p_drain s)"
| c_drains: "tso_reach ly s \<Longrightarrow> tso_reach ly (c_drain s)"

text \<open>A schedule: a turn of a thread, or of a buffer.\<close>

datatype 'a tso_turn = Turn "'a turn" | Drain_Producer | Drain_Consumer

definition tso_step :: "layout \<Rightarrow> (u64 \<Rightarrow> u64) \<Rightarrow> 'a tso_turn \<Rightarrow> 'a tso \<Rightarrow> 'a tso res" where
  "tso_step ly malloc a s = (case a of
     Turn (Producer m x) \<Rightarrow> tso_pstep ly malloc m x s
   | Turn (Consumer op) \<Rightarrow> tso_cstep op s
   | Drain_Producer \<Rightarrow> Inr (p_drain s)
   | Drain_Consumer \<Rightarrow> Inr (c_drain s))"

section \<open>The abstract queue\<close>

text \<open>
  What the threads promise on this machine: an enqueue returns before its element is in the
  queue, and the elements get there in their order. The state is the enqueue under way, the
  elements on their way, those in the queue, and the answer or the call of the consumer, as in
  \<open>atomic_step\<close>.
\<close>

type_synonym 'a buffered = "'a enq_call \<times> 'a list \<times> 'a list \<times> 'a deq_call"

inductive buffered_step :: "bool \<Rightarrow> 'a buffered \<Rightarrow> 'a buffered \<Rightarrow> bool" for no_mem where
  call_enqueue: "buffered_step no_mem (None, ps, xs, c) (Some (m, x), ps, xs, c)"
| issued: "buffered_step no_mem (Some (m, x), ps, xs, c) (None, ps @ [x], xs, c)"
| refused: "m = CannotAlloc \<or> no_mem \<Longrightarrow> buffered_step no_mem (Some (m, x), ps, xs, c) (None, ps, xs, c)"
| enqueued: "buffered_step no_mem (h, x # ps, xs, c) (h, ps, xs @ [x], c)"
| call_dequeue: "buffered_step no_mem (h, ps, xs, Outside r) (h, ps, xs, Called op (xs = []))"
| dequeued: "op \<noteq> Peek_Front \<Longrightarrow>
    buffered_step no_mem (h, ps, x # xs, Called op e) (h, ps, xs, Outside (Answered op (Some x)))"
| peeked: "buffered_step no_mem (h, ps, x # xs, Called Peek_Front e)
    (h, ps, x # xs, Outside (Answered Peek_Front (Some x)))"
| nothing: "buffered_step no_mem (h, ps, xs, Called op True) (h, ps, xs, Outside (Answered op None))"

text \<open>The consumer sees the memory with its own stores.\<close>

definition tso_refines :: "'a tso \<Rightarrow> 'a buffered \<Rightarrow> bool" where
  "tso_refines s a = (case a of (h, ps, xs, c) \<Rightarrow>
     enq_seen (t_ppc s) h \<and> ps = carried (p_buf s) \<and>
     visible s = removed s @ carried (c_buf s) @ xs \<and> call_seen (shared (c_view s)) (t_cpc s) c)"

end
