(* ===== verification/Store_Buffers.thy ===== *)
theory Store_Buffers
  imports Main
begin

text \<open>
  Two threads whose effects on a shared state are delayed: what either has still to bring about
  is a list of actions, and each sees the shared state with its own list applied. If an action
  of one thread stays possible when the other thread acts first, and their order does not
  matter, then each list stays possible while actions of either list take effect, in order.
\<close>

primrec cans :: "('a \<Rightarrow> 's \<Rightarrow> bool) \<Rightarrow> ('a \<Rightarrow> 's \<Rightarrow> 's) \<Rightarrow> 'a list \<Rightarrow> 's \<Rightarrow> bool" where
  "cans can act [] s = True"
| "cans can act (a # as) s = (can a s \<and> cans can act as (act a s))"

lemma cans_append [simp]: "cans can act (as @ bs) s \<longleftrightarrow> cans can act as s \<and> cans can act bs (fold act as s)"
  by (induction as arbitrary: s) simp_all

locale delayed =
  fixes act :: "'a \<Rightarrow> 's \<Rightarrow> 's" and can :: "'a \<Rightarrow> 's \<Rightarrow> bool"
    and act2 :: "'b \<Rightarrow> 's \<Rightarrow> 's" and can2 :: "'b \<Rightarrow> 's \<Rightarrow> bool"
    and invar :: "'s \<Rightarrow> bool"
  assumes invar1: "\<lbrakk> invar s; can a s \<rbrakk> \<Longrightarrow> invar (act a s)"
    and invar2: "\<lbrakk> invar s; can2 b s \<rbrakk> \<Longrightarrow> invar (act2 b s)"
    and stays1: "\<lbrakk> invar s; can a s; can2 b s \<rbrakk> \<Longrightarrow> can a (act2 b s)"
    and stays2: "\<lbrakk> invar s; can a s; can2 b s \<rbrakk> \<Longrightarrow> can2 b (act a s)"
    and commute: "\<lbrakk> invar s; can a s; can2 b s \<rbrakk> \<Longrightarrow> act a (act2 b s) = act2 b (act a s)"

sublocale delayed \<subseteq> other: delayed act2 can2 act can invar
  by unfold_locales (simp_all add: invar1 invar2 stays1 stays2 commute)

context delayed
begin

lemma view: "invar s \<Longrightarrow> cans can act as s \<Longrightarrow> invar (fold act as s)"
  by (induction as arbitrary: s) (simp_all add: invar1)

lemma first: "invar s \<Longrightarrow> can a s \<Longrightarrow> cans can2 act2 bs s \<Longrightarrow> cans can2 act2 bs (act a s)"
proof (induction bs arbitrary: s)
  case (Cons b bs)
  have b: "can2 b s" "cans can2 act2 bs (act2 b s)" using Cons.prems(3) by simp_all
  have "cans can2 act2 bs (act a (act2 b s))"
    using Cons.prems b by (intro Cons.IH invar2 stays1) simp_all
  then show ?case using Cons.prems b stays2 [of s a b] commute [of s a b] by simp
qed simp

text \<open>Actions that take effect leave what either thread has still to do possible.\<close>

lemma effects:
  "invar s \<Longrightarrow> cans can act (as @ as') s \<Longrightarrow> cans can2 act2 bs s \<Longrightarrow>
   invar (fold act as s) \<and> cans can act as' (fold act as s) \<and> cans can2 act2 bs (fold act as s)"
  by (induction as arbitrary: s) (simp_all add: invar1 first)

end

end
