(* ===== verification/RW_TSO_Inv.thy ===== *)
theory RW_TSO_Inv
  imports RW_TSO Store_Buffers
begin

text \<open>
  The invariant of the machine with store buffers. What each buffer holds is a list of steps
  that its thread has made and that the memory has not seen. A step that only reads is kept as
  the change of the program point it made, since what it read may be out of date; it is still
  justified, because what a thread knows of the other only becomes truer (\<open>p_seen\<close>, \<open>c_seen\<close>). A step
  that writes is the step of \<open>RW_Concurrent\<close> itself: it reads nothing that the other thread
  writes. The steps of the two threads commute, which is the contract \<open>delayed\<close>.
\<close>

section \<open>States and steps\<close>

text \<open>The memory with the program points that its contents correspond to, and the ring.\<close>

record 'a ghost =
  gq :: "'a rwq"
  gp :: "'a ppc"
  gc :: "'a cpc"
  genq :: "'a list"
  gdeq :: "'a list"
  gpre :: "nat list"
  gpost :: "nat list"
  gE :: "nat \<Rightarrow> 'a list"

definition conc_of :: "'a ghost \<Rightarrow> 'a conc" where
  "conc_of g = \<lparr>shared = (gq g)\<lparr>enqueuing := gp g \<noteq> P_Idle, dequeuing := \<not> at_rest (gc g)\<rparr>,
     ppc = gp g, cpc = gc g, enq = genq g, deq = gdeq g\<rparr>"

definition ginv :: "layout \<Rightarrow> 'a ghost \<Rightarrow> bool" where
  "ginv ly g \<longleftrightarrow> layout_ok ly \<and> cinv_at ly (conc_of g) (gpre g) (gpost g) (gE g)"

type_synonym 'a ring = "nat list \<times> nat list \<times> (nat \<Rightarrow> 'a list)"

definition p_ring :: "'a ppc \<Rightarrow> 'a ppc \<Rightarrow> 'a ring \<Rightarrow> 'a ring" where
  "p_ring p p' r = (case r of (pre, post, E) \<Rightarrow>
     (case p of
        P_Publish x a _ \<Rightarrow> (pre, post, E(a := E a @ [x]))
      | P_Next_Tail x n _ \<Rightarrow> (pre, post, E(n := [x]))
      | P_Next_Block x n \<Rightarrow> (pre @ [n], tl post, E)
      | P_New_Block x n \<Rightarrow> (pre @ [n], tl post, E)
      | P_Alloc x a \<Rightarrow> (case p' of P_Link _ _ b \<Rightarrow> (pre, post, E(b := [x])) | _ \<Rightarrow> r)
      | P_Link x a b \<Rightarrow> (pre, b # post, E)
      | _ \<Rightarrow> r))"

definition c_ring_step :: "'a cpc \<Rightarrow> 'a ring \<Rightarrow> 'a ring" where
  "c_ring_step c r = (case r of (pre, post, E) \<Rightarrow>
     (case c of
        C_Front op f x i \<Rightarrow> (pre, post, E(f := tl (E f)))
      | C_Move op n i \<Rightarrow> (tl pre, post @ [hd pre], E)
      | _ \<Rightarrow> r))"

definition ring_of :: "'a ghost \<Rightarrow> 'a ring" where
  "ring_of g = (gpre g, gpost g, gE g)"

definition set_ring :: "'a ring \<Rightarrow> 'a ghost \<Rightarrow> 'a ghost" where
  "set_ring r g = g\<lparr>gpre := fst r, gpost := fst (snd r), gE := snd (snd r)\<rparr>"

text \<open>A step: the program point it leads to, and its entries.\<close>

definition p_act :: "'a ppc \<times> 'a entry list \<Rightarrow> 'a ghost \<Rightarrow> 'a ghost" where
  "p_act l g = (case l of (p', ws) \<Rightarrow>
     set_ring (p_ring (gp g) p' (ring_of g))
       (g\<lparr>gq := do_entries ws (gq g), gp := p', genq := genq g @ carried ws\<rparr>))"

definition c_act :: "'a cpc \<times> 'a entry list \<Rightarrow> 'a ghost \<Rightarrow> 'a ghost" where
  "c_act l g = (case l of (c', ws) \<Rightarrow>
     set_ring (c_ring_step (gc g) (ring_of g))
       (g\<lparr>gq := do_entries ws (gq g), gc := c', gdeq := gdeq g @ carried ws\<rparr>))"

definition quiet :: "'a ppc \<Rightarrow> bool" where
  "quiet p \<longleftrightarrow> pend p = (\<lambda>_. None) \<and> hidden p = (\<lambda>_. []) \<and> on_ring p = (\<lambda>n. n)"

definition idle_cpc :: "'a cpc \<Rightarrow> bool" where
  "idle_cpc c \<longleftrightarrow> (\<forall>op f x i. c \<noteq> C_Front op f x i) \<and> (\<forall>op n i. c \<noteq> C_Move op n i)"

text \<open>A step that only reads, from any older state of the other thread; and one that writes.\<close>

definition p_read :: "'a ppc \<times> 'a entry list \<Rightarrow> 'a ghost \<Rightarrow> bool" where
  "p_read l g \<longleftrightarrow> (case l of (p', ws) \<Rightarrow>
     quiet (gp g) \<and> quiet p' \<and> ws = [] \<and> p_seen p' (blocks (gq g)) (gpre g) (gpost g) (gE g))"

definition p_write :: "layout \<Rightarrow> 'a ppc \<times> 'a entry list \<Rightarrow> 'a ghost \<Rightarrow> bool" where
  "p_write ly l g \<longleftrightarrow> (\<exists>malloc m x t. malloc_ok malloc \<and> pstep ly malloc m x (conc_of g) = Inr t \<and>
     l = (ppc t, p_stores (conc_of g) t))"

definition c_read :: "'a cpc \<times> 'a entry list \<Rightarrow> 'a ghost \<Rightarrow> bool" where
  "c_read l g \<longleftrightarrow> (case l of (c', ws) \<Rightarrow>
     idle_cpc (gc g) \<and> (\<forall>op f x i. c' \<noteq> C_Front op f x i) \<and> ws = [] \<and> c_seen c' (blocks (gq g)) (gpre g) (gE g))"

definition c_write :: "'a cpc \<times> 'a entry list \<Rightarrow> 'a ghost \<Rightarrow> bool" where
  "c_write l g \<longleftrightarrow> (\<exists>op t. cstep op (conc_of g) = Inr t \<and> l = (cpc t, c_stores (conc_of g)))"

definition p_can :: "layout \<Rightarrow> 'a ppc \<times> 'a entry list \<Rightarrow> 'a ghost \<Rightarrow> bool" where
  "p_can ly l g \<longleftrightarrow> p_read l g \<or> p_write ly l g"

definition c_can :: "'a cpc \<times> 'a entry list \<Rightarrow> 'a ghost \<Rightarrow> bool" where
  "c_can l g \<longleftrightarrow> c_read l g \<or> c_write l g"

section \<open>The invariant is kept\<close>

lemma flags_of: "conc_of g = s \<longleftrightarrow>
    unflagged (gq g) = unflagged (shared s) \<and> enqueuing (shared s) = (gp g \<noteq> P_Idle) \<and>
    dequeuing (shared s) = (\<not> at_rest (gc g)) \<and> ppc s = gp g \<and> cpc s = gc g \<and> enq s = genq g \<and> deq s = gdeq g"
  by (cases s; cases "gq g"; cases "shared s") (auto simp: conc_of_def unflagged_def)

lemma unflagged_conc_of [simp]: "unflagged (shared (conc_of g)) = unflagged (gq g)"
  by (simp add: conc_of_def unflagged_def)

lemma conc_of_sel [simp]:
  "ppc (conc_of g) = gp g" "cpc (conc_of g) = gc g" "enq (conc_of g) = genq g" "deq (conc_of g) = gdeq g"
  "blocks (shared (conc_of g)) = blocks (gq g)" "tailBlock (shared (conc_of g)) = tailBlock (gq g)"
  "frontBlock (shared (conc_of g)) = frontBlock (gq g)"
  "largestBlockSize (shared (conc_of g)) = largestBlockSize (gq g)"
  by (simp_all add: conc_of_def)

lemma do_store_unflagged: "do_store w (unflagged q) = unflagged (do_store w q)"
  by (cases w) (simp_all add: unflagged_def upd_block_def set_block_def)

lemma do_entries_unflagged: "do_entries ws (unflagged q) = unflagged (do_entries ws q)"
  by (induction ws arbitrary: q) (simp_all add: do_store_unflagged)

lemma set_ring_sel [simp]:
  "gq (set_ring r g) = gq g" "gp (set_ring r g) = gp g" "gc (set_ring r g) = gc g"
  "genq (set_ring r g) = genq g" "gdeq (set_ring r g) = gdeq g"
  "gpre (set_ring r g) = fst r" "gpost (set_ring r g) = fst (snd r)" "gE (set_ring r g) = snd (snd r)"
  by (simp_all add: set_ring_def)

lemma conc_of_set_ring [simp]: "conc_of (set_ring r g) = conc_of g"
  by (simp add: conc_of_def)

lemma p_act_conc:
  assumes "pstep ly malloc m x (conc_of g) = Inr t" and "cinv_at ly t pre post E"
  shows "conc_of (p_act (ppc t, p_stores (conc_of g) t) g) = t"
  using pstep_stores [OF assms(1)] assms(2)
  by (simp add: flags_of p_act_def do_entries_unflagged cinv_at_def c_ptrs_def)

lemma c_act_conc:
  assumes "cstep op (conc_of g) = Inr t" and "cinv_at ly t pre post E"
  shows "conc_of (c_act (cpc t, c_stores (conc_of g)) g) = t"
  using cstep_stores [OF assms(1)] assms(2)
  by (simp add: flags_of c_act_def do_entries_unflagged cinv_at_def c_ptrs_def)

lemma producer_ring:
  assumes at: "cinv_at ly s pre post E" and ly: "layout_ok ly" and m: "malloc_ok malloc"
    and step: "pstep ly malloc md x s = Inr t" and r: "p_ring (ppc s) (ppc t) (pre, post, E) = (pre', post', E')"
  shows "cinv_at ly t pre' post' E'"
proof (cases "ppc s")
  case P_Idle
  show ?thesis by (rule p_idle [OF at P_Idle, of malloc md x]) (use step r P_Idle in \<open>simp add: p_ring_def\<close>)
next
  case (P_Checked m' y a bf bt)
  show ?thesis by (rule p_checked [OF at P_Checked, of malloc md x]) (use step r P_Checked in \<open>simp add: p_ring_def\<close>)
next
  case (P_Publish y a nt)
  then have a: "a = last pre" using at by (simp add: cinv_at_def p_seen_def)
  show ?thesis
    by (rule p_publish [OF at P_Publish, of malloc md x]) (use step r a P_Publish in \<open>auto simp: p_ring_def\<close>)
next
  case (P_Next y n)
  show ?thesis by (rule p_next [OF at P_Next, of malloc md x]) (use step r P_Next in \<open>simp add: p_ring_def\<close>)
next
  case (P_Next_Tail y n i)
  show ?thesis
    by (rule p_next_tail [OF at P_Next_Tail, of malloc md x]) (use step r P_Next_Tail in \<open>simp add: p_ring_def\<close>)
next
  case (P_Next_Block y n)
  show ?thesis
    by (rule p_move_tail [OF at disjI1, OF P_Next_Block, of malloc md x]) (use step r P_Next_Block in \<open>simp add: p_ring_def\<close>)
next
  case (P_Alloc y a)
  show ?thesis
  proof (cases "malloc (block_bytes ly (largestBlockSize (shared s) * 2)) = 0")
    case True
    show ?thesis
      by (rule p_alloc_refused [OF at P_Alloc ly m True, of md x]) (use step r P_Alloc in \<open>simp add: p_ring_def\<close>)
  next
    case False
    have b: "b = length (blocks (shared s))" if "ppc t = P_Link y a b" for b
      by (rule pstep_alloc_cases [OF step P_Alloc]) (use that in \<open>simp_all add: p_return_def\<close>)
    obtain t' b where t': "pstep ly malloc md x s = Inr t'" "ppc t' = P_Link y a b"
      and at': "cinv_at ly t' pre post (E(length (blocks (shared s)) := [y]))"
      by (rule p_alloc_new [OF at P_Alloc ly m False, of md x]) blast
    have eq: "t' = t" using t'(1) step by simp
    then have "p_ring (ppc s) (ppc t) (pre, post, E) = (pre, post, E(length (blocks (shared s)) := [y]))"
      using t'(2) b by (simp add: p_ring_def P_Alloc)
    then show ?thesis using at' r by (simp add: eq)
  qed
next
  case (P_Link y a b)
  show ?thesis by (rule p_link [OF at P_Link, of malloc md x]) (use step r P_Link in \<open>simp add: p_ring_def\<close>)
next
  case (P_New_Block y n)
  show ?thesis
    by (rule p_move_tail [OF at disjI2, OF P_New_Block, of malloc md x]) (use step r P_New_Block in \<open>simp add: p_ring_def\<close>)
qed

lemma consumer_ring:
  assumes at: "cinv_at ly s pre post E" and step: "cstep op s = Inr t"
    and r: "c_ring_step (cpc s) (pre, post, E) = (pre', post', E')"
  shows "cinv_at ly t pre' post' E'"
proof (cases "cpc s")
  case C_Idle
  then have "at_rest (cpc s)" by (simp add: at_rest_def)
  then show ?thesis by (rule c_idle [OF at, of op]) (use step r C_Idle in \<open>simp add: c_ring_step_def\<close>)
next
  case (C_Peeked a i)
  then have "at_rest (cpc s)" by (simp add: at_rest_def)
  then show ?thesis by (rule c_idle [OF at, of op]) (use step r C_Peeked in \<open>simp add: c_ring_step_def\<close>)
next
  case (C_Returned op' x)
  then have "at_rest (cpc s)" by (simp add: at_rest_def)
  then show ?thesis by (rule c_idle [OF at, of op]) (use step r C_Returned in \<open>simp add: c_ring_step_def\<close>)
next
  case (C_Tail op' a e)
  show ?thesis by (rule c_tail [OF at C_Tail, of op]) (use step r C_Tail in \<open>simp add: c_ring_step_def\<close>)
next
  case (C_Take op' f i)
  show ?thesis by (rule c_take [OF at C_Take, of op]) (use step r C_Take in \<open>simp add: c_ring_step_def\<close>)
next
  case (C_Front op' f y i)
  show ?thesis by (rule c_front [OF at C_Front, of op]) (use step r C_Front in \<open>simp add: c_ring_step_def\<close>)
next
  case (C_Advance op' f)
  show ?thesis by (rule c_advance [OF at C_Advance, of op]) (use step r C_Advance in \<open>simp add: c_ring_step_def\<close>)
next
  case (C_Move op' n i)
  show ?thesis by (rule c_move [OF at C_Move, of op]) (use step r C_Move in \<open>simp add: c_ring_step_def\<close>)
qed

text \<open>Either kind of step keeps the invariant.\<close>

lemma quiet_iff: "quiet p \<longleftrightarrow> (case p of
    P_Publish _ _ _ \<Rightarrow> False | P_Next_Tail _ _ _ \<Rightarrow> False | P_Next_Block _ _ \<Rightarrow> False
  | P_Link _ _ _ \<Rightarrow> False | P_New_Block _ _ \<Rightarrow> False | _ \<Rightarrow> True)"
proof (cases p)
  case (P_Publish x a i)
  then have "pend p a \<noteq> None" by (simp add: pend_def)
  then show ?thesis by (auto simp: quiet_def P_Publish)
next
  case (P_Next_Tail x a i)
  then have "pend p a \<noteq> None" by (simp add: pend_def)
  then show ?thesis by (auto simp: quiet_def P_Next_Tail)
next
  case (P_Next_Block x a)
  then have "hidden p a \<noteq> []" by (simp add: hidden_def)
  then show ?thesis by (auto simp: quiet_def P_Next_Block)
next
  case (P_New_Block x a)
  then have "hidden p a \<noteq> []" by (simp add: hidden_def)
  then show ?thesis by (auto simp: quiet_def P_New_Block)
next
  case (P_Link x t a)
  then have "on_ring p 3 \<noteq> 3" by (simp add: on_ring_def)
  then show ?thesis by (auto simp: quiet_def P_Link)
qed (simp_all add: quiet_def cinv_parts fun_eq_iff)

lemma quiet_ring: "quiet p \<Longrightarrow> quiet p' \<Longrightarrow> p_ring p p' r = r"
  by (cases p; cases p') (simp_all add: p_ring_def quiet_iff split: prod.splits)

lemma idle_ring: "idle_cpc c \<Longrightarrow> c_ring_step c r = r"
  by (cases c) (auto simp: c_ring_step_def idle_cpc_def)

lemma set_ring_id [simp]: "set_ring (ring_of g) g' = g'\<lparr>gpre := gpre g, gpost := gpost g, gE := gE g\<rparr>"
  by (simp add: set_ring_def ring_of_def)

lemma p_read_act: "p_read (p', ws) g \<Longrightarrow> p_act (p', ws) g = g\<lparr>gp := p'\<rparr>"
  by (simp add: p_read_def p_act_def quiet_ring)

lemma c_read_act: "c_read (c', ws) g \<Longrightarrow> c_act (c', ws) g = g\<lparr>gc := c'\<rparr>"
  by (simp add: c_read_def c_act_def idle_ring)

lemma p_read_inv:
  assumes "ginv ly g" and "p_read (p', ws) g"
  shows "ginv ly (g\<lparr>gp := p'\<rparr>)"
  using assms
  by (simp add: ginv_def p_read_def quiet_def cinv_at_def conc_of_def c_ptrs_def c_data_def c_elems_def)

lemma idle_taken: "idle_cpc c \<Longrightarrow> taken c = (\<lambda>_. False)"
  by (cases c) (auto simp: idle_cpc_def taken_def)

lemma c_read_inv:
  assumes "ginv ly g" and "c_read (c', ws) g"
  shows "ginv ly (g\<lparr>gc := c'\<rparr>)"
proof -
  have "taken (gc g) = (\<lambda>_. False)" "taken c' = (\<lambda>_. False)"
    using assms(2) idle_taken [of "gc g"] by (auto simp: c_read_def taken_def split: cpc.splits)
  then show ?thesis
    using assms by (simp add: ginv_def c_read_def cinv_at_def conc_of_def c_ptrs_def c_data_def c_elems_def)
qed

lemma p_act_inv:
  assumes "ginv ly g" and "p_can ly l g"
  shows "ginv ly (p_act l g)"
proof (cases "p_read l g")
  case True
  moreover obtain p' ws where "l = (p', ws)" by (cases l)
  ultimately show ?thesis using p_read_inv [OF assms(1), of p' ws] by (simp add: p_read_act)
next
  case False
  then obtain malloc m x t where m: "malloc_ok malloc" and t: "pstep ly malloc m x (conc_of g) = Inr t"
    and l: "l = (ppc t, p_stores (conc_of g) t)"
    using assms(2) by (auto simp: p_can_def p_write_def)
  have ly: "layout_ok ly" and at: "cinv_at ly (conc_of g) (gpre g) (gpost g) (gE g)"
    using assms(1) by (simp_all add: ginv_def)
  obtain pre post E where r: "p_ring (gp g) (ppc t) (ring_of g) = (pre, post, E)" by (metis prod_cases3)
  have at': "cinv_at ly t pre post E" by (rule producer_ring [OF at ly m t]) (use r in \<open>simp add: ring_of_def\<close>)
  have "conc_of (p_act l g) = t" using p_act_conc [OF t at'] l by simp
  then show ?thesis using at' ly r by (simp add: ginv_def l p_act_def)
qed

lemma c_act_inv:
  assumes "ginv ly g" and "c_can l g"
  shows "ginv ly (c_act l g)"
proof (cases "c_read l g")
  case True
  moreover obtain c' ws where "l = (c', ws)" by (cases l)
  ultimately show ?thesis using c_read_inv [OF assms(1), of c' ws] by (simp add: c_read_act)
next
  case False
  then obtain op t where t: "cstep op (conc_of g) = Inr t" and l: "l = (cpc t, c_stores (conc_of g))"
    using assms(2) by (auto simp: c_can_def c_write_def)
  have at: "cinv_at ly (conc_of g) (gpre g) (gpost g) (gE g)" using assms(1) by (simp add: ginv_def)
  obtain pre post E where r: "c_ring_step (gc g) (ring_of g) = (pre, post, E)" by (metis prod_cases3)
  have at': "cinv_at ly t pre post E" by (rule consumer_ring [OF at t]) (use r in \<open>simp add: ring_of_def\<close>)
  have "conc_of (c_act l g) = t" using c_act_conc [OF t at'] l by simp
  then show ?thesis using at' assms(1) r by (simp add: ginv_def l c_act_def)
qed

section \<open>Every step of a thread is one of the two kinds\<close>

lemma p_stores_quiet:
  assumes "pstep ly malloc m x s = Inr t" and "p_stores s t = []"
  shows "quiet (ppc s) \<and> quiet (ppc t)"
proof -
  note D = quiet_def cinv_parts fun_eq_iff p_stores_def p_return_def
  show ?thesis
  proof (cases "ppc s")
    case (P_Checked md y a bf bt)
    from assms(1) this show ?thesis by (cases rule: pstep_checked_cases) (use assms(2) P_Checked in \<open>auto simp: D\<close>)
  next
    case (P_Alloc y a)
    from assms(1) this show ?thesis by (cases rule: pstep_alloc_cases) (use assms(2) P_Alloc in \<open>auto simp: D\<close>)
  qed (use assms in \<open>auto simp: D pstep_def Let_def res_bind_eq_Inr split: if_splits\<close>)
qed

lemma p_write_read:
  assumes inv: "ginv ly g" and l: "p_write ly (p', []) g"
  shows "p_read (p', []) g"
proof -
  obtain malloc m x t where m: "malloc_ok malloc" and t: "pstep ly malloc m x (conc_of g) = Inr t"
    and p': "p' = ppc t" "p_stores (conc_of g) t = []"
    using l by (auto simp: p_write_def)
  have q: "quiet (gp g)" "quiet p'" using p_stores_quiet [OF t p'(2)] p'(1) by simp_all
  have "ginv ly (p_act (p', []) g)" using p_act_inv [OF inv] l by (simp add: p_can_def)
  then have "p_seen p' (blocks (gq g)) (gpre g) (gpost g) (gE g)"
    using q by (simp add: p_act_def quiet_ring ginv_def cinv_at_def)
  then show ?thesis using q by (simp add: p_read_def)
qed

lemma c_write_read:
  assumes inv: "ginv ly g" and l: "c_write (c', []) g"
  shows "c_read (c', []) g"
proof -
  obtain op t where t: "cstep op (conc_of g) = Inr t" and c': "c' = cpc t" "c_stores (conc_of g) = []"
    using l by (auto simp: c_write_def)
  have i: "idle_cpc (gc g)" using c'(2) by (auto simp: c_stores_def idle_cpc_def)
  have f: "\<forall>op f x i. c' \<noteq> C_Front op f x i"
    using t c' by (auto simp: c_stores_def cstep_def c_begin_def c_return_def c_peeked_def Let_def res_bind_eq_Inr
      split: cpc.splits if_splits deq_op.splits)
  have "ginv ly (c_act (c', []) g)" using c_act_inv [OF inv] l by (simp add: c_can_def)
  then have "c_seen c' (blocks (gq g)) (gpre g) (gE g)"
    using i by (simp add: c_act_def idle_ring ginv_def cinv_at_def)
  then show ?thesis using i f by (simp add: c_read_def)
qed

end
