(* ===== verification/RW_TSO_Commute.thy ===== *)
theory RW_TSO_Commute
  imports RW_TSO_Inv
begin

text \<open>
  The steps of the two threads on the state of the memory: what either thread's stores leave as
  the other one knows it, and, from this, that the steps commute and stay possible. This
  interprets \<open>delayed\<close> on the queue.
\<close>

section \<open>The stores of either thread\<close>

text \<open>Where the stores of a possible step go.\<close>

definition p_ok :: "'a store \<Rightarrow> 'a rwq \<Rightarrow> bool" where
  "p_ok w q = (case w of
     Construct a i x \<Rightarrow> a < length (blocks q) \<and> blk_data (blocks q ! a) ! unat i = None
   | Set_Tail _ _ \<Rightarrow> True | Set_Next _ _ \<Rightarrow> True | Set_TailBlock _ \<Rightarrow> True | New_Block _ _ \<Rightarrow> True
   | _ \<Rightarrow> False)"

definition c_ok :: "'a store \<Rightarrow> 'a rwq \<Rightarrow> bool" where
  "c_ok w q = (case w of
     Destroy a i \<Rightarrow> a < length (blocks q) \<and> blk_data (blocks q ! a) ! unat i \<noteq> None
   | Set_Front a i \<Rightarrow> a < length (blocks q) | Set_FrontBlock _ \<Rightarrow> True
   | _ \<Rightarrow> False)"

lemma upd_blocks_swap:
  assumes "a = b \<Longrightarrow> f (h (blocks q ! a)) = h (f (blocks q ! a))"
  shows "upd_block a f (upd_block b h q) = upd_block b h (upd_block a f q)"
proof (cases "a = b")
  case True
  then show ?thesis using assms by (cases "b < length (blocks q)") (simp_all add: upd_block_def set_block_def list_update_beyond)
next
  case False
  then show ?thesis by (simp add: upd_block_def set_block_def list_update_swap)
qed

lemma upd_block_others [simp]:
  "upd_block a f (q\<lparr>tailBlock := n\<rparr>) = (upd_block a f q)\<lparr>tailBlock := n\<rparr>"
  "upd_block a f (q\<lparr>frontBlock := n\<rparr>) = (upd_block a f q)\<lparr>frontBlock := n\<rparr>"
  by (simp_all add: upd_block_def set_block_def)

lemma upd_block_new:
  "a < length (blocks q) \<Longrightarrow>
   upd_block a f (q\<lparr>largestBlockSize := l, blocks := blocks q @ [b]\<rparr>) =
   (upd_block a f q)\<lparr>largestBlockSize := l, blocks := blocks (upd_block a f q) @ [b]\<rparr>"
  by (simp add: upd_block_def set_block_def nth_append list_update_append)

lemma stores_commute:
  assumes w: "p_ok w q" and v: "c_ok v q"
  shows "do_store w (do_store v q) = do_store v (do_store w q)"
proof (cases w)
  case (Construct a i x)
  show ?thesis
  proof (cases v)
    case (Destroy b j)
    have "unat i \<noteq> unat j" if "a = b" using w v that by (auto simp: Construct Destroy p_ok_def c_ok_def)
    then show ?thesis by (simp add: Construct Destroy upd_blocks_swap list_update_swap)
  qed (use v in \<open>auto simp: Construct c_ok_def intro!: upd_blocks_swap\<close>)
qed (use w v in \<open>cases v; auto simp: p_ok_def c_ok_def upd_block_new intro!: upd_blocks_swap\<close>)+

lemma p_can_ok:
  assumes "p_can ly l g"
  obtains "snd l = []" | w xs where "snd l = [(w, xs)]" and "p_ok w (gq g)" and "length xs \<le> 1"
proof (cases "p_read l g")
  case False
  then obtain malloc m x t where t: "pstep ly malloc m x (conc_of g) = Inr t" and l: "l = (ppc t, p_stores (conc_of g) t)"
    using assms by (auto simp: p_can_def p_write_def)
  show ?thesis
  proof (cases "gp g")
    case (P_Checked md y a bf bt)
    then have pc: "ppc (conc_of g) = P_Checked md y a bf bt" by simp
    from t pc show ?thesis
      by (cases rule: pstep_checked_cases)
        (use that l in \<open>auto simp: P_Checked p_stores_def p_return_def p_ok_def construct_raw_def construct_def split: if_splits\<close>)
  next
    case (P_Alloc y a)
    then have pc: "ppc (conc_of g) = P_Alloc y a" by simp
    from t pc show ?thesis
      by (cases rule: pstep_alloc_cases) (use that l in \<open>auto simp: P_Alloc p_stores_def p_return_def p_ok_def\<close>)
  next
    case (P_Next y n)
    then show ?thesis
      using t l that by (auto simp: pstep_def p_stores_def p_ok_def construct_raw_def construct_def get_block_def Let_def res_bind_eq_Inr split: if_splits)
  qed (use that l in \<open>auto simp: p_stores_def p_ok_def\<close>)
qed (use that in \<open>auto simp: p_read_def\<close>)

lemma c_can_ok:
  assumes "c_can l g"
  obtains "snd l = []" | w xs where "snd l = [(w, xs)]" and "c_ok w (gq g)"
proof (cases "c_read l g")
  case False
  then obtain op t where t: "cstep op (conc_of g) = Inr t" and l: "l = (cpc t, c_stores (conc_of g))"
    using assms by (auto simp: c_can_def c_write_def)
  show ?thesis
  proof (cases "gc g")
    case (C_Take op' f i)
    then show ?thesis
      using t l that by (auto simp: cstep_def c_stores_def c_ok_def destroy_def element_at_def get_block_def
        Let_def res_bind_eq_Inr split: if_splits option.splits)
  next
    case (C_Front op f x i)
    then show ?thesis
      using t l that by (auto simp: cstep_def c_stores_def c_ok_def get_block_def Let_def res_bind_eq_Inr split: if_splits)
  qed (use that l in \<open>auto simp: c_stores_def c_ok_def\<close>)
qed (use that in \<open>auto simp: c_read_def\<close>)

section \<open>What a step leaves to the other thread\<close>

text \<open>What only the producer writes; and what only the consumer writes.\<close>

definition p_owned :: "'a rwq \<Rightarrow> 'a rwq \<Rightarrow> bool" where
  "p_owned q q' \<longleftrightarrow> length (blocks q') = length (blocks q) \<and> tailBlock q' = tailBlock q \<and>
     largestBlockSize q' = largestBlockSize q \<and>
     (\<forall>a < length (blocks q). blk_tail (blocks q' ! a) = blk_tail (blocks q ! a) \<and>
        blk_next (blocks q' ! a) = blk_next (blocks q ! a) \<and> blk_size (blocks q' ! a) = blk_size (blocks q ! a))"

definition c_owned :: "'a rwq \<Rightarrow> 'a rwq \<Rightarrow> bool" where
  "c_owned q q' \<longleftrightarrow> length (blocks q) \<le> length (blocks q') \<and> frontBlock q' = frontBlock q \<and>
     (\<forall>a < length (blocks q). blk_front (blocks q' ! a) = blk_front (blocks q ! a) \<and>
        blk_size (blocks q' ! a) = blk_size (blocks q ! a))"

lemma c_store_owned: "c_ok w q \<Longrightarrow> p_owned q (do_store w q)"
  by (cases w) (auto simp: c_ok_def p_owned_def upd_block_def set_block_def nth_list_update)

lemma upd_block_owned:
  "(\<And>b. blk_front (f b) = blk_front b) \<Longrightarrow> (\<And>b. blk_size (f b) = blk_size b) \<Longrightarrow> c_owned q (upd_block a f q)"
  by (cases "a < length (blocks q)")
    (auto simp: c_owned_def upd_block_def set_block_def nth_list_update list_update_beyond)

lemma other_owned [simp]:
  "c_owned q (q\<lparr>tailBlock := n\<rparr>)" "c_owned q (q\<lparr>largestBlockSize := l, blocks := blocks q @ [b]\<rparr>)"
  by (simp_all add: c_owned_def nth_append)

lemma p_store_owned: "p_ok w q \<Longrightarrow> c_owned q (do_store w q)"
  by (cases w) (simp_all add: p_ok_def upd_block_owned)

lemma c_act_owned: "c_can l g \<Longrightarrow> p_owned (gq g) (gq (c_act l g)) \<and> gp (c_act l g) = gp g"
  by (cases l, elim c_can_ok [of l]) (auto simp: c_act_def c_store_owned p_owned_def [of q q for q])

lemma p_act_owned: "p_can ly l g \<Longrightarrow> c_owned (gq g) (gq (p_act l g)) \<and> gc (p_act l g) = gc g"
  by (cases l, elim p_can_ok [of ly l]) (auto simp: p_act_def p_store_owned c_owned_def [of q q for q])

text \<open>The step of a thread does not depend on the state of the other.\<close>

definition with_c :: "'a cpc \<Rightarrow> 'a list \<Rightarrow> bool \<Rightarrow> 'a conc \<Rightarrow> 'a conc" where
  "with_c c d b s = s\<lparr>shared := (shared s)\<lparr>dequeuing := b\<rparr>, cpc := c, deq := d\<rparr>"

definition with_p :: "'a ppc \<Rightarrow> bool \<Rightarrow> 'a conc \<Rightarrow> 'a conc" where
  "with_p p b s = s\<lparr>shared := (shared s)\<lparr>enqueuing := b\<rparr>, ppc := p\<rparr>"

lemma flag_simps [simp]:
  "get_block a (q\<lparr>dequeuing := b\<rparr>) = get_block a q" "get_block a (q\<lparr>enqueuing := b\<rparr>) = get_block a q"
  "set_block a c (q\<lparr>dequeuing := b\<rparr>) = (set_block a c q)\<lparr>dequeuing := b\<rparr>"
  "set_block a c (q\<lparr>enqueuing := b\<rparr>) = (set_block a c q)\<lparr>enqueuing := b\<rparr>"
  by (simp_all add: get_block_def set_block_def)

lemma with_simps [simp]:
  "ppc (with_c c d b s) = ppc s" "shared (with_c c d b s) = (shared s)\<lparr>dequeuing := b\<rparr>"
  "cpc (with_p p b s) = cpc s" "shared (with_p p b s) = (shared s)\<lparr>enqueuing := b\<rparr>"
  "enq (with_c c d b s) = enq s" "enq (with_p p b s) = enq s" "deq (with_p p b s) = deq s"
  by (simp_all add: with_c_def with_p_def)

lemma map_res_bind: "map_sum id h (res_bind r k) = res_bind r (\<lambda>x. map_sum id h (k x))"
  by (simp add: res_bind_def split: sum.splits)

lemma with_updates:
  "with_c c d b (s\<lparr>ppc := p\<rparr>) = (with_c c d b s)\<lparr>ppc := p\<rparr>"
  "with_c c d b (s\<lparr>shared := q\<rparr>) = (with_c c d b s)\<lparr>shared := q\<lparr>dequeuing := b\<rparr>\<rparr>"
  "with_c c d b (p_return q xs s) = p_return (q\<lparr>dequeuing := b\<rparr>) xs (with_c c d b s)"
  "with_p p e (s\<lparr>cpc := c\<rparr>) = (with_p p e s)\<lparr>cpc := c\<rparr>"
  "with_p p e (s\<lparr>shared := q\<rparr>) = (with_p p e s)\<lparr>shared := q\<lparr>enqueuing := e\<rparr>\<rparr>"
  "with_p p e (c_return op q r s) = c_return op (q\<lparr>enqueuing := e\<rparr>) r (with_p p e s)"
  "with_p p e (c_peeked q a i s) = c_peeked (q\<lparr>enqueuing := e\<rparr>) a i (with_p p e s)"
  by (cases s; cases q; simp add: with_c_def with_p_def p_return_def c_return_def c_peeked_def)+

lemma rwq_updates:
  "q\<lparr>enqueuing := e, dequeuing := d\<rparr> = q\<lparr>dequeuing := d, enqueuing := e\<rparr>"
  "q\<lparr>tailBlock := n, dequeuing := d\<rparr> = q\<lparr>dequeuing := d, tailBlock := n\<rparr>"
  "q\<lparr>largestBlockSize := l, blocks := bs, dequeuing := d\<rparr> = q\<lparr>dequeuing := d, largestBlockSize := l, blocks := bs\<rparr>"
  "q\<lparr>frontBlock := n, enqueuing := e\<rparr> = q\<lparr>enqueuing := e, frontBlock := n\<rparr>"
  by (cases q; simp)+

lemma pstep_with_c: "pstep ly malloc m x (with_c c d b s) = map_sum id (with_c c d b) (pstep ly malloc m x s)"
  by (cases "ppc s")
    (simp_all add: pstep_def Let_def map_res_bind with_updates rwq_updates if_distrib [of "map_sum id h" for h]
      option.case_distrib [of "map_sum id h" for h] alloc_mode.case_distrib [of "map_sum id h" for h]
      cong: if_cong option.case_cong alloc_mode.case_cong)

lemma cstep_with_p: "cstep op (with_p p b s) = map_sum id (with_p p b) (cstep op s)"
  by (cases "cpc s")
    (simp_all add: cstep_def c_begin_def Let_def map_res_bind with_updates rwq_updates if_distrib [of "map_sum id h" for h]
      deq_op.case_distrib [of "map_sum id h" for h]
      cong: if_cong deq_op.case_cong)

text \<open>What a step that writes writes is determined by what its thread owns.\<close>

lemma p_label:
  assumes t: "pstep ly malloc m x s = Inr t" and t': "pstep ly malloc m x s' = Inr t'"
    and pc: "ppc s' = ppc s" and own: "p_owned (shared s) (shared s')" and w: "p_stores s t \<noteq> []"
  shows "ppc t' = ppc t \<and> p_stores s' t' = p_stores s t"
proof (cases "ppc s")
  case (P_Checked md y a bf bt)
  then have "ppc s' = P_Checked md y a bf bt" by (simp add: pc)
  note 1 = pstep_checked_cases [OF t P_Checked] and 2 = pstep_checked_cases [OF t' this]
  have mask: "sizeMask (blocks (shared s') ! a) = sizeMask (blocks (shared s) ! a)" if "a < length (blocks (shared s))"
    using own that by (simp add: p_owned_def sizeMask_def)
  show ?thesis
  proof (rule 1)
    fix b
    assume a: "a < length (blocks (shared s))" and ne: "(bt + 1) AND sizeMask (blocks (shared s) ! a) \<noteq> bf"
      and T: "t = s\<lparr>shared := set_block a b (shared s), ppc := P_Publish y a ((bt + 1) AND sizeMask (blocks (shared s) ! a))\<rparr>"
    show ?thesis
      by (rule 2) (use a ne T mask [OF a] in \<open>simp_all add: p_stores_def pc P_Checked\<close>)
  qed (use w in \<open>simp_all add: p_stores_def P_Checked p_return_def\<close>)
next
  case (P_Alloc y a)
  then show ?thesis
    using t t' w pc own
    by (auto simp: p_owned_def pstep_def p_stores_def p_return_def Let_def res_bind_eq_Inr get_block_def split: if_splits option.splits)
next
  case (P_Next y n)
  then show ?thesis
    using t t' w pc own
    by (auto simp: p_owned_def pstep_def p_stores_def Let_def res_bind_eq_Inr get_block_def split: if_splits)
next
  case (P_Next_Tail y n i)
  then show ?thesis
    using t t' w pc own
    by (auto simp: p_owned_def pstep_def p_stores_def sizeMask_def Let_def res_bind_eq_Inr get_block_def split: if_splits)
qed (use t t' w pc in \<open>auto simp: pstep_def p_stores_def p_return_def Let_def res_bind_eq_Inr get_block_def split: if_splits\<close>)

text \<open>Either thread's possibilities do not depend on the program point of the other.\<close>

lemma conc_of_gp: "conc_of (g\<lparr>gp := p\<rparr>) = with_p p (p \<noteq> P_Idle) (conc_of g)"
  by (cases "gq g") (simp add: conc_of_def with_p_def)

lemma conc_of_gc: "conc_of (g\<lparr>gc := c\<rparr>) = with_c c (gdeq g) (\<not> at_rest c) (conc_of g)"
  by (cases "gq g") (simp add: conc_of_def with_c_def)

lemma c_stores_with_p [simp]: "c_stores (with_p p b s) = c_stores s"
  by (simp add: c_stores_def split: cpc.splits)

lemma p_stores_with_c [simp]: "p_stores (with_c c d b s) (with_c c' d' b' t) = p_stores s t"
  by (simp add: p_stores_def split: ppc.splits)

lemma c_writeI: "cstep op (conc_of g) = Inr t \<Longrightarrow> c_write (cpc t, c_stores (conc_of g)) g"
  by (auto simp: c_write_def)

lemma p_writeI:
  "malloc_ok malloc \<Longrightarrow> pstep ly malloc m x (conc_of g) = Inr t \<Longrightarrow> p_write ly (ppc t, p_stores (conc_of g) t) g"
  unfolding p_write_def by blast

lemma c_can_gp: "c_can l g \<Longrightarrow> c_can l (g\<lparr>gp := p\<rparr>)"
proof (cases "c_read l g")
  case False
  assume "c_can l g"
  then obtain op t where t: "cstep op (conc_of g) = Inr t" and l: "l = (cpc t, c_stores (conc_of g))"
    using False by (auto simp: c_can_def c_write_def)
  have "cstep op (conc_of (g\<lparr>gp := p\<rparr>)) = Inr (with_p p (p \<noteq> P_Idle) t)" by (simp add: conc_of_gp cstep_with_p t)
  from c_writeI [OF this] show ?thesis by (simp add: c_can_def l conc_of_gp)
qed (auto simp: c_can_def c_read_def)

lemma p_can_gc: "p_can ly l g \<Longrightarrow> p_can ly l (g\<lparr>gc := c\<rparr>)"
proof (cases "p_read l g")
  case False
  assume "p_can ly l g"
  then obtain malloc m x t where m: "malloc_ok malloc" and t: "pstep ly malloc m x (conc_of g) = Inr t"
    and l: "l = (ppc t, p_stores (conc_of g) t)"
    using False by (auto simp: p_can_def p_write_def)
  have "pstep ly malloc m x (conc_of (g\<lparr>gc := c\<rparr>)) = Inr (with_c c (gdeq g) (\<not> at_rest c) t)"
    by (simp add: conc_of_gc pstep_with_c t)
  from p_writeI [OF m this] show ?thesis by (simp add: p_can_def l conc_of_gc)
qed (auto simp: p_can_def p_read_def)

lemma c_act_gp: "c_act l (g\<lparr>gp := p\<rparr>) = (c_act l g)\<lparr>gp := p\<rparr>"
  by (cases l; cases g) (simp add: c_act_def ring_of_def set_ring_def)

lemma p_act_gc: "p_act l (g\<lparr>gc := c\<rparr>) = (p_act l g)\<lparr>gc := c\<rparr>"
  by (cases l; cases g) (simp add: p_act_def ring_of_def set_ring_def)

section \<open>Every possible step stays possible\<close>

lemma ginv_cinv: "ginv ly g \<Longrightarrow> cinv ly (conc_of g)"
  by (auto simp: ginv_def cinv_def)

lemma p_stays:
  assumes inv: "ginv ly g" and p: "p_can ly l g" and c: "c_can m g"
  shows "p_can ly l (c_act m g)"
proof -
  obtain p' ws where l: "l = (p', ws)" by (cases l)
  have own: "p_owned (gq g) (gq (c_act m g))" "gp (c_act m g) = gp g" using c_act_owned [OF c] by simp_all
  have inv': "ginv ly (c_act m g)" by (rule c_act_inv [OF inv c])
  show ?thesis
  proof (cases "ws = []")
    case True
    then have r: "p_read (p', []) g" using p p_write_read [OF inv] by (auto simp: l p_can_def)
    have "ginv ly (c_act m (g\<lparr>gp := p'\<rparr>))"
      by (rule c_act_inv [OF p_read_inv [OF inv r] c_can_gp [OF c]])
    then have "p_seen p' (blocks (gq (c_act m g))) (gpre (c_act m g)) (gpost (c_act m g)) (gE (c_act m g))"
      by (simp add: c_act_gp ginv_def cinv_at_def)
    then show ?thesis using r own(2) by (simp add: l True p_can_def p_read_def)
  next
    case False
    then obtain malloc md x t where m: "malloc_ok malloc" and t: "pstep ly malloc md x (conc_of g) = Inr t"
      and ws: "p' = ppc t" "ws = p_stores (conc_of g) t"
      using p by (auto simp: l p_can_def p_write_def p_read_def)
    have ly: "layout_ok ly" using inv by (simp add: ginv_def)
    obtain t' where t': "pstep ly malloc md x (conc_of (c_act m g)) = Inr t'"
      by (rule producer_step [OF ginv_cinv [OF inv'] ly m])
    have "ppc t' = ppc t \<and> p_stores (conc_of (c_act m g)) t' = p_stores (conc_of g) t"
      by (rule p_label [OF t t']) (use own False ws in \<open>simp_all add: p_owned_def\<close>)
    then show ?thesis using p_writeI [OF m t'] by (simp add: l p_can_def ws)
  qed
qed

text \<open>The label of a writing step of the consumer.\<close>

definition c_label :: "'a cpc \<Rightarrow> 'a block list \<Rightarrow> (nat \<Rightarrow> 'a list) \<Rightarrow> 'a cpc \<times> 'a entry list" where
  "c_label c bs E = (case c of
     C_Take op f i \<Rightarrow> (C_Front op f (hd (E f)) i, [(Destroy f i, [])])
   | C_Front op f x i \<Rightarrow> (C_Returned op (Some x), [(Set_Front f ((i + 1) AND sizeMask (bs ! f)), [x])])
   | C_Move op n i \<Rightarrow> (C_Take op n i, [(Set_FrontBlock n, [])])
   | _ \<Rightarrow> (c, []))"

lemma c_writes:
  assumes at: "cinv_at ly s pre post E" and t: "cstep op s = Inr t" and w: "c_stores s \<noteq> []"
  shows "(cpc t, c_stores s) = c_label (cpc s) (blocks (shared s)) E"
proof (cases "cpc s")
  case (C_Take op' f i)
  show ?thesis
    by (rule c_take [OF at C_Take, of op]) (use t in \<open>simp add: C_Take c_label_def c_stores_def\<close>)
qed (use t w in \<open>auto simp: cstep_def c_stores_def c_label_def c_return_def get_block_def Let_def res_bind_eq_Inr split: if_splits\<close>)

lemma p_link_new:
  assumes "p_can ly (P_Link y t b, ws) g" and "gp g = P_Alloc x a"
  shows "b = length (blocks (gq g))"
proof -
  have "\<not> p_read (P_Link y t b, ws) g" by (simp add: p_read_def quiet_iff)
  then obtain malloc m z u where u: "pstep ly malloc m z (conc_of g) = Inr u" "P_Link y t b = ppc u"
    using assms(1) by (auto simp: p_can_def p_write_def)
  have pc: "ppc (conc_of g) = P_Alloc x a" using assms(2) by simp
  show ?thesis by (rule pstep_alloc_cases [OF u(1) pc]) (use u(2) in \<open>auto simp: p_return_def\<close>)
qed

text \<open>The producer only adds to what the reachable blocks hold.\<close>

lemma p_act_elems:
  assumes inv: "ginv ly g" and p: "p_can ly l g" and f: "f < length (blocks (gq g))"
  shows "\<exists>ys. gE (p_act l g) f = gE g f @ ys"
proof -
  obtain p' ws where l: "l = (p', ws)" by (cases l)
  have at: "cinv_at ly (conc_of g) (gpre g) (gpost g) (gE g)" using inv by (simp add: ginv_def)
  show ?thesis
  proof (cases "gp g")
    case (P_Next_Tail x n i)
    then have "gE g n = []" using at by (auto simp: cinv_at_def p_seen_def c_elems_def hidden_def)
    then show ?thesis by (simp add: l p_act_def p_ring_def ring_of_def P_Next_Tail)
  next
    case (P_Alloc x a)
    then have "p' \<noteq> P_Link y t f" for y t using p_link_new [of ly y t f ws g x a] p f l by auto
    then show ?thesis by (simp add: l p_act_def p_ring_def ring_of_def P_Alloc split: ppc.split)
  qed (simp_all add: l p_act_def p_ring_def ring_of_def)
qed

lemma c_stays:
  assumes inv: "ginv ly g" and p: "p_can ly l g" and c: "c_can m g"
  shows "c_can m (p_act l g)"
proof -
  obtain c' ws where m: "m = (c', ws)" by (cases m)
  have own: "c_owned (gq g) (gq (p_act l g))" "gc (p_act l g) = gc g" using p_act_owned [OF p] by simp_all
  have inv': "ginv ly (p_act l g)" by (rule p_act_inv [OF inv p])
  show ?thesis
  proof (cases "ws = []")
    case True
    then have r: "c_read (c', []) g" using c c_write_read [OF inv] by (auto simp: m c_can_def)
    have "ginv ly (p_act l (g\<lparr>gc := c'\<rparr>))"
      by (rule p_act_inv [OF c_read_inv [OF inv r] p_can_gc [OF p]])
    then have "c_seen c' (blocks (gq (p_act l g))) (gpre (p_act l g)) (gE (p_act l g))"
      by (simp add: p_act_gc ginv_def cinv_at_def)
    then show ?thesis using r own(2) by (simp add: m True c_can_def c_read_def)
  next
    case False
    then obtain op t where t: "cstep op (conc_of g) = Inr t" and ws: "c' = cpc t" "ws = c_stores (conc_of g)"
      using c by (auto simp: m c_can_def c_write_def c_read_def)
    obtain t' where t': "cstep op (conc_of (p_act l g)) = Inr t'"
      by (rule consumer_step [OF ginv_cinv [OF inv']])
    have at: "cinv_at ly (conc_of h) (gpre h) (gpost h) (gE h)" if "ginv ly h" for h :: "'a ghost"
      using that by (simp add: ginv_def)
    have w: "c_stores (conc_of (p_act l g)) \<noteq> []"
      using False own(2) by (auto simp: ws c_stores_def split: cpc.splits)
    have "f < length (blocks (gq g)) \<and> gE g f \<noteq> []" if "gc g = C_Take op' f i" for op' f i
      using at [OF inv] cinv_tail(5) [OF at [OF inv]] that by (auto simp: cinv_at_def c_seen_def)
    moreover have "f < length (blocks (gq g))" if "gc g = C_Front op f x i" for op f x i
      using at [OF inv] cinv_tail(5) [OF at [OF inv]] that by (auto simp: cinv_at_def c_seen_def)
    ultimately have "c_label (gc g) (blocks (gq (p_act l g))) (gE (p_act l g)) = c_label (gc g) (blocks (gq g)) (gE g)"
      using own(1) p_act_elems [OF inv p]
      by (cases "gc g") (fastforce simp: c_label_def c_owned_def sizeMask_def)+
    then have "(cpc t', c_stores (conc_of (p_act l g))) = (cpc t, c_stores (conc_of g))"
      using c_writes [OF at [OF inv] t] c_writes [OF at [OF inv'] t' w] False own(2) by (simp add: ws)
    then show ?thesis using c_writeI [OF t'] by (simp add: m c_can_def ws)
  qed
qed

section \<open>The steps commute\<close>

lemma entries_commute:
  assumes "p_can ly l g" and "c_can m g"
  shows "do_entries (snd l) (do_entries (snd m) (gq g)) = do_entries (snd m) (do_entries (snd l) (gq g))"
  using assms(1)
proof (cases rule: p_can_ok)
  case (2 w xs)
  show ?thesis using assms(2) by (cases rule: c_can_ok) (simp_all add: 2 stores_commute)
qed simp

lemma rings_commute:
  assumes inv: "ginv ly g" and p: "p_can ly (p', ws) g"
  shows "p_ring (gp g) p' (c_ring_step (gc g) (ring_of g)) = c_ring_step (gc g) (p_ring (gp g) p' (ring_of g))"
proof -
  have at: "cinv_at ly (conc_of g) (gpre g) (gpost g) (gE g)" using inv by (simp add: ginv_def)
  have seen: "p_seen (gp g) (blocks (gq g)) (gpre g) (gpost g) (gE g)" "c_seen (gc g) (blocks (gq g)) (gpre g) (gE g)"
    and pre: "gpre g \<noteq> []" using at by (simp_all add: cinv_at_def c_ptrs_def)
  have h: "hd (gpre g) \<notin> set (gpost g)" "hd (gpre g) < length (blocks (gq g))"
    using cinv_distinct [OF at] cinv_tail(4,5) [OF at] by auto
  show ?thesis
  proof (cases "gc g")
    case (C_Front op f x i)
    have f: "f = hd (gpre g)" and E: "gE g f \<noteq> []" using seen(2) C_Front by (auto simp: c_seen_def)
    show ?thesis
    proof (cases "gp g")
      case (P_Next_Tail y n j)
      then have "n \<noteq> f" using seen(1) h(1) f by (auto simp: p_seen_def)
      then show ?thesis by (simp add: C_Front P_Next_Tail ring_of_def p_ring_def c_ring_step_def fun_upd_twist)
    next
      case (P_Alloc y a)
      have "b \<noteq> f" if "p' = P_Link z t b" for z t b
        using p_link_new [of ly z t b ws g y a] p that P_Alloc h(2) f by auto
      then show ?thesis
        by (cases p') (simp_all add: C_Front P_Alloc ring_of_def p_ring_def c_ring_step_def fun_upd_twist)
    next
      case (P_Publish y a j)
      then show ?thesis
        using E by (cases "a = f") (simp_all add: C_Front ring_of_def p_ring_def c_ring_step_def fun_upd_twist)
    qed (simp_all add: C_Front ring_of_def p_ring_def c_ring_step_def)
  next
    case (C_Move op n i)
    show ?thesis
    proof (cases "gp g")
      case (P_Alloc y a)
      then show ?thesis by (cases p') (simp_all add: C_Move ring_of_def p_ring_def c_ring_step_def)
    qed (use seen(1) pre in \<open>auto simp: C_Move ring_of_def p_ring_def c_ring_step_def p_seen_def\<close>)
  qed (simp_all add: c_ring_step_def split: prod.splits)
qed

lemma acts_commute:
  assumes inv: "ginv ly g" and p: "p_can ly l g" and c: "c_can m g"
  shows "p_act l (c_act m g) = c_act m (p_act l g)"
proof -
  obtain p' ws c' vs where l: "l = (p', ws)" and m: "m = (c', vs)" by (cases l; cases m)
  have r [simp]: "ring_of (set_ring r g') = r" for r and g' :: "'a ghost"
    by (cases r) (simp add: ring_of_def)
  have s [simp]: "ring_of (g'\<lparr>gq := q, gp := p, genq := es\<rparr>) = ring_of g'"
    "ring_of (g'\<lparr>gq := q, gc := c, gdeq := es\<rparr>) = ring_of g'" for g' :: "'a ghost" and q p c es
    by (simp_all add: ring_of_def)
  show ?thesis
    using entries_commute [OF p c] rings_commute [OF inv p [unfolded l]]
    by (simp add: l m p_act_def c_act_def)
qed

interpretation buffers: delayed "p_act :: 'a ppc \<times> 'a entry list \<Rightarrow> 'a ghost \<Rightarrow> 'a ghost" "p_can ly"
    c_act c_can "ginv ly" for ly
  by unfold_locales (simp_all add: p_act_inv c_act_inv p_stays c_stays acts_commute)

end
