(* ===== verification/RW_TSO_Steps.thy ===== *)
theory RW_TSO_Steps
  imports RW_TSO_Commute
begin

text \<open>
  The steps of the machine with store buffers: each succeeds and keeps the invariant \<open>tso_at\<close>,
  which says of each thread that the steps it has made and whose stores are still in its buffer
  are possible on the memory.
\<close>

definition tso_at :: "layout \<Rightarrow> 'a tso \<Rightarrow> 'a ghost \<Rightarrow>
    ('a ppc \<times> 'a entry list) list \<Rightarrow> ('a cpc \<times> 'a entry list) list \<Rightarrow> bool" where
  "tso_at ly s g ps cs \<longleftrightarrow>
     ginv ly g \<and> cans (p_can ly) p_act ps g \<and> cans c_can c_act cs g \<and>
     gq g = memory s \<and> genq g = visible s \<and> gdeq g = removed s \<and>
     p_buf s = concat (map snd ps) \<and> c_buf s = concat (map snd cs) \<and>
     t_ppc s = gp (fold p_act ps g) \<and> t_cpc s = gc (fold c_act cs g) \<and>
     p_flag s = (t_ppc s \<noteq> P_Idle) \<and> c_flag s = (\<not> at_rest (t_cpc s))"

definition tso_inv :: "layout \<Rightarrow> 'a tso \<Rightarrow> bool" where
  "tso_inv ly s \<longleftrightarrow> (\<exists>g ps cs. tso_at ly s g ps cs)"

section \<open>What a thread sees\<close>

lemma p_act_sel [simp]:
  "gq (p_act l g) = do_entries (snd l) (gq g)" "gp (p_act l g) = fst l" "gc (p_act l g) = gc g"
  "genq (p_act l g) = genq g @ carried (snd l)" "gdeq (p_act l g) = gdeq g"
  by (simp_all add: p_act_def split: prod.splits)

lemma c_act_sel [simp]:
  "gq (c_act l g) = do_entries (snd l) (gq g)" "gc (c_act l g) = fst l" "gp (c_act l g) = gp g"
  "gdeq (c_act l g) = gdeq g @ carried (snd l)" "genq (c_act l g) = genq g"
  by (simp_all add: c_act_def split: prod.splits)

lemma p_acts_sel [simp]:
  "gq (fold p_act ps g) = do_entries (concat (map snd ps)) (gq g)" "gc (fold p_act ps g) = gc g"
  "genq (fold p_act ps g) = genq g @ carried (concat (map snd ps))" "gdeq (fold p_act ps g) = gdeq g"
  by (induction ps arbitrary: g) simp_all

lemma c_acts_sel [simp]:
  "gq (fold c_act cs g) = do_entries (concat (map snd cs)) (gq g)" "gp (fold c_act cs g) = gp g"
  "gdeq (fold c_act cs g) = gdeq g @ carried (concat (map snd cs))" "genq (fold c_act cs g) = genq g"
  by (induction cs arbitrary: g) simp_all

lemma flags_over: "q\<lparr>enqueuing := a, dequeuing := b, dequeuing := dequeuing q\<rparr> = q\<lparr>enqueuing := a\<rparr>"
  "q\<lparr>enqueuing := a, dequeuing := b, enqueuing := enqueuing q\<rparr> = q\<lparr>dequeuing := b\<rparr>"
  by (cases q; simp)+

lemma p_view_of:
  assumes "tso_at ly s g ps cs"
  shows "p_view s = with_c C_Idle (removed s) (dequeuing (do_entries (p_buf s) (memory s))) (conc_of (fold p_act ps g))"
  using assms by (simp add: tso_at_def p_view_def with_c_def conc_of_def flags_over)

lemma c_view_of:
  assumes "tso_at ly s g ps cs"
  shows "c_view s = with_p P_Idle (enqueuing (do_entries (c_buf s) (memory s))) (conc_of (fold c_act cs g))"
  using assms by (simp add: tso_at_def c_view_def with_p_def conc_of_def flags_over)

lemma p_view_largest:
  assumes "tso_at ly s g ps cs"
  shows "largestBlockSize (shared (p_view s)) = largestBlockSize (shared (conc_of (fold p_act ps g)))"
  unfolding p_view_of [OF assms] by (simp add: with_c_def)

lemma c_view_blocks:
  assumes "tso_at ly s g ps cs"
  shows "blocks (shared (c_view s)) = blocks (shared (conc_of (fold c_act cs g)))"
  unfolding c_view_of [OF assms] by (simp add: with_p_def)

section \<open>The steps\<close>

text \<open>What a step of either thread does to the calls and to the elements.\<close>

lemma tso_producer:
  assumes at: "tso_at ly s g ps cs" and m: "malloc_ok malloc"
  obtains t l where "tso_pstep ly malloc md x s = Inr t" and "tso_at ly t g (ps @ [l]) cs"
    and "memory t = memory s" "c_buf t = c_buf s" "t_cpc t = t_cpc s" "visible t = visible s" "removed t = removed s"
    and "\<exists>u v. p_effect ly malloc md x u v \<and> ppc u = t_ppc s \<and> ppc v = t_ppc t \<and>
      enq u = visible s @ carried (p_buf s) \<and> enq v = visible s @ carried (p_buf t) \<and>
      largestBlockSize (shared u) = largestBlockSize (shared (p_view s)) \<and>
      largestBlockSize (shared v) = largestBlockSize (shared (p_view t))"
proof -
  define G where "G = fold p_act ps g"
  have "ginv ly g" "cans (p_can ly) p_act ps g" using at by (simp_all add: tso_at_def)
  then have G: "ginv ly G" unfolding G_def by (rule buffers.view)
  then have ly: "layout_ok ly" by (simp add: ginv_def)
  obtain u where u: "pstep ly malloc md x (conc_of G) = Inr u" "p_effect ly malloc md x (conc_of G) u"
    by (rule producer_step [OF ginv_cinv [OF G] ly m])
  define l where "l = (ppc u, p_stores (conc_of G) u)"
  have can: "p_can ly l G" using p_writeI [OF m u(1)] by (simp add: l_def p_can_def)
  have act: "conc_of (p_act l G) = u"
  proof -
    obtain pre post E where r: "p_ring (gp G) (ppc u) (ring_of G) = (pre, post, E)" by (metis prod_cases3)
    have "cinv_at ly (conc_of G) (gpre G) (gpost G) (gE G)" using G by (simp add: ginv_def)
    from producer_ring [OF this ly m u(1)] have "cinv_at ly u pre post E" using r by (simp add: ring_of_def)
    from p_act_conc [OF u(1) this] show ?thesis by (simp add: l_def)
  qed
  from act have flag: "enqueuing (shared u) = (ppc u \<noteq> P_Idle)" and enq: "enq u = genq G @ carried (snd l)"
    unfolding flags_of by (simp_all add: l_def)
  define t where "t = s\<lparr>p_buf := p_buf s @ snd l, p_flag := enqueuing (shared u), t_ppc := ppc u\<rparr>"
  have "tso_pstep ly malloc md x s = Inr t"
    using u(1) p_view_of [OF at] by (simp add: tso_pstep_def pstep_with_c G_def [symmetric] t_def l_def)
  moreover have at': "tso_at ly t g (ps @ [l]) cs"
    using at can flag by (simp add: tso_at_def t_def G_def l_def)
  moreover have "largestBlockSize (shared (conc_of G)) = largestBlockSize (shared (p_view s))"
    "largestBlockSize (shared u) = largestBlockSize (shared (p_view t))"
    using p_view_largest [OF at] p_view_largest [OF at'] by (simp_all add: G_def act [symmetric])
  moreover have "genq G = visible s @ carried (p_buf s)" "gp G = t_ppc s" using at by (simp_all add: tso_at_def G_def)
  ultimately show ?thesis using that [of t l] u(2) enq by (fastforce simp: t_def)
qed

lemma tso_consumer:
  assumes at: "tso_at ly s g ps cs"
  obtains t l u v where "tso_cstep op s = Inr t" and "tso_at ly t g ps (cs @ [l])"
    and "memory t = memory s" "p_buf t = p_buf s" "t_ppc t = t_ppc s" "visible t = visible s" "removed t = removed s"
    and "cinv ly u" "cstep op u = Inr v" "cpc u = t_cpc s" "cpc v = t_cpc t" "enq u = visible s"
      "deq u = removed s @ carried (c_buf s)" "deq v = removed s @ carried (c_buf t)"
    and "blocks (shared u) = blocks (shared (c_view s))" "blocks (shared v) = blocks (shared (c_view t))"
proof -
  define G where "G = fold c_act cs g"
  have "ginv ly g" "cans c_can c_act cs g" using at by (simp_all add: tso_at_def)
  then have G: "ginv ly G" unfolding G_def by (rule buffers.other.view)
  obtain u where u: "cstep op (conc_of G) = Inr u"
    by (rule consumer_step [OF ginv_cinv [OF G]])
  define l where "l = (cpc u, c_stores (conc_of G))"
  have can: "c_can l G" using c_writeI [OF u] by (simp add: l_def c_can_def)
  have act: "conc_of (c_act l G) = u"
  proof -
    obtain pre post E where r: "c_ring_step (gc G) (ring_of G) = (pre, post, E)" by (metis prod_cases3)
    have "cinv_at ly (conc_of G) (gpre G) (gpost G) (gE G)" using G by (simp add: ginv_def)
    from consumer_ring [OF this u] have "cinv_at ly u pre post E" using r by (simp add: ring_of_def)
    from c_act_conc [OF u this] show ?thesis by (simp add: l_def)
  qed
  from act have flag: "dequeuing (shared u) = (\<not> at_rest (cpc u))" and deq: "deq u = gdeq G @ carried (snd l)"
    unfolding flags_of by (simp_all add: l_def)
  define t where "t = s\<lparr>c_buf := c_buf s @ snd l, c_flag := dequeuing (shared u), t_cpc := cpc u\<rparr>"
  have "tso_cstep op s = Inr t"
    using u c_view_of [OF at] by (simp add: tso_cstep_def cstep_with_p G_def [symmetric] t_def l_def)
  moreover have at': "tso_at ly t g ps (cs @ [l])"
    using at can flag by (simp add: tso_at_def t_def G_def l_def)
  moreover have "blocks (shared u) = blocks (shared (c_view t))"
    using c_view_blocks [OF at'] by (simp add: G_def act [symmetric])
  moreover have "gdeq G = removed s @ carried (c_buf s)" "gc G = t_cpc s" "genq G = visible s"
    using at by (simp_all add: tso_at_def G_def)
  ultimately show ?thesis
    by (intro that [of t l "conc_of G" u] ginv_cinv [OF G] u) (simp_all add: t_def deq c_view_blocks [OF at] G_def [symmetric])
qed

section \<open>The oldest store takes effect\<close>

lemma first_entry:
  assumes "concat (map snd ls) = w # ws"
  obtains rs l vs rest where "ls = rs @ l # rest" and "concat (map snd rs) = []" and "snd l = w # vs"
proof -
  have "\<exists>rs l vs rest. ls = rs @ l # rest \<and> concat (map snd rs) = [] \<and> snd l = w # vs"
    using assms
  proof (induction ls)
    case (Cons l ls)
    show ?case
    proof (cases "snd l")
      case Nil
      then obtain rs l' vs rest where "ls = rs @ l' # rest" "concat (map snd rs) = []" "snd l' = w # vs"
        using Cons by auto
      then show ?thesis using Nil by (intro exI [of _ "l # rs"]) auto
    next
      case (Cons v vs)
      then show ?thesis using Cons.prems by (intro exI [of _ "[]"]) auto
    qed
  qed simp
  then show ?thesis using that by blast
qed

lemma tso_p_drain:
  assumes at: "tso_at ly s g ps cs" and b: "p_buf s = (w, xs) # ws"
  obtains g' ps' where "tso_at ly (p_drain s) g' ps' cs" and "length xs \<le> 1"
proof -
  have "concat (map snd ps) = (w, xs) # ws" using at b by (simp add: tso_at_def)
  then obtain rs l vs rest where "ps = rs @ l # rest" and ps': "concat (map snd rs) = []" "snd l = (w, xs) # vs"
    by (rule first_entry)
  then have ps: "ps = (rs @ [l]) @ rest" by simp
  have inv: "ginv ly g" "cans (p_can ly) p_act ((rs @ [l]) @ rest) g" "cans c_can c_act cs g"
    using at ps by (simp_all add: tso_at_def)
  then have "p_can ly l (fold p_act rs g)" by simp
  then have vs: "vs = []" "length xs \<le> 1" using ps'(2) by (auto elim: p_can_ok)
  have ws: "ws = concat (map snd rest)" using at b ps ps' vs by (simp add: tso_at_def)
  define g' where "g' = fold p_act (rs @ [l]) g"
  have "ginv ly g' \<and> cans (p_can ly) p_act rest g' \<and> cans c_can c_act cs g'"
    unfolding g'_def by (rule buffers.effects [OF inv])
  moreover have "gq g' = do_store w (memory s)" "genq g' = visible s @ xs" "gdeq g' = removed s"
    using at ps' vs by (simp_all add: g'_def tso_at_def del: concat_eq_Nil_conv)
  moreover have "gc (fold c_act cs g') = gc (fold c_act cs g)"
    by (cases cs rule: rev_cases) (simp_all add: g'_def)
  moreover have "gp (fold p_act rest g') = t_ppc s" using at ps by (simp add: tso_at_def g'_def)
  moreover have "p_drain s = s\<lparr>memory := do_store w (memory s), p_buf := ws, visible := visible s @ xs\<rparr>"
    using b by (simp add: p_drain_def)
  ultimately have "tso_at ly (p_drain s) g' rest cs"
    using at ws by (simp add: tso_at_def)
  then show ?thesis using that vs(2) by blast
qed

lemma tso_c_drain:
  assumes at: "tso_at ly s g ps cs" and b: "c_buf s = (w, xs) # ws"
  obtains g' cs' where "tso_at ly (c_drain s) g' ps cs'" and "\<forall>n b. w \<noteq> New_Block n b"
proof -
  have "concat (map snd cs) = (w, xs) # ws" using at b by (simp add: tso_at_def)
  then obtain rs l vs rest where "cs = rs @ l # rest" and cs': "concat (map snd rs) = []" "snd l = (w, xs) # vs"
    by (rule first_entry)
  then have cs: "cs = (rs @ [l]) @ rest" by simp
  have inv: "ginv ly g" "cans c_can c_act ((rs @ [l]) @ rest) g" "cans (p_can ly) p_act ps g"
    using at cs by (simp_all add: tso_at_def)
  then have "c_can l (fold c_act rs g)" by simp
  then have vs: "vs = []" using cs'(2) by (auto elim: c_can_ok)
  have ws: "ws = concat (map snd rest)" using at b cs cs' vs by (simp add: tso_at_def)
  define g' where "g' = fold c_act (rs @ [l]) g"
  have "ginv ly g' \<and> cans c_can c_act rest g' \<and> cans (p_can ly) p_act ps g'"
    unfolding g'_def by (rule buffers.other.effects [OF inv])
  moreover have "gq g' = do_store w (memory s)" "gdeq g' = removed s @ xs" "genq g' = visible s"
    using at cs' vs by (simp_all add: g'_def tso_at_def del: concat_eq_Nil_conv)
  moreover have "gp (fold p_act ps g') = gp (fold p_act ps g)"
    by (cases ps rule: rev_cases) (simp_all add: g'_def)
  moreover have "gc (fold c_act rest g') = t_cpc s" using at cs by (simp add: tso_at_def g'_def)
  moreover have "c_drain s = s\<lparr>memory := do_store w (memory s), c_buf := ws, removed := removed s @ xs\<rparr>"
    using b by (simp add: c_drain_def)
  ultimately have "tso_at ly (c_drain s) g' ps rest"
    using at ws by (simp add: tso_at_def)
  moreover have "c_ok w (gq (fold c_act rs g))"
    using \<open>c_can l (fold c_act rs g)\<close> cs'(2) by (auto elim: c_can_ok)
  then have "\<forall>n b. w \<noteq> New_Block n b" by (auto simp: c_ok_def)
  ultimately show ?thesis using that by blast
qed

end
