(* ===== verification/RW_TSO_Properties.thy ===== *)
theory RW_TSO_Properties
  imports RW_TSO_Steps
begin

text \<open>
  What holds of every execution of the two threads on a machine with store buffers, for every
  order of their steps and every moment at which a buffered store reaches the memory.
\<close>

section \<open>The invariant in every reachable state\<close>

lemma tso_start_inv:
  assumes "cinv ly (conc_start q)" and "layout_ok ly"
  shows "tso_inv ly (tso_start q)"
proof -
  obtain pre post E where at: "cinv_at ly (conc_start q) pre post E" using assms(1) by (auto simp: cinv_def)
  define g where "g = \<lparr>gq = q, gp = P_Idle, gc = C_Idle, genq = [], gdeq = [], gpre = pre, gpost = post, gE = E\<rparr>"
  have "conc_of g = conc_start q"
    using at unfolding flags_of by (simp add: g_def conc_start_def cinv_at_def c_ptrs_def)
  then have "ginv ly g" using at assms(2) by (simp add: ginv_def g_def)
  then have "tso_at ly (tso_start q) g [] []" by (simp add: tso_at_def tso_start_def g_def at_rest_def)
  then show ?thesis unfolding tso_inv_def by blast
qed

lemma p_drain_inv:
  assumes "tso_inv ly s"
  shows "tso_inv ly (p_drain s)"
proof (cases "p_buf s")
  case Nil
  then show ?thesis using assms by (simp add: p_drain_def)
next
  case (Cons e ws)
  obtain w xs where e: "e = (w, xs)" by (cases e)
  obtain g ps cs where at: "tso_at ly s g ps cs" using assms by (auto simp: tso_inv_def)
  show ?thesis by (rule tso_p_drain [OF at Cons [unfolded e]]) (auto simp: tso_inv_def)
qed

lemma c_drain_inv:
  assumes "tso_inv ly s"
  shows "tso_inv ly (c_drain s)"
proof (cases "c_buf s")
  case Nil
  then show ?thesis using assms by (simp add: c_drain_def)
next
  case (Cons e ws)
  obtain w xs where e: "e = (w, xs)" by (cases e)
  obtain g ps cs where at: "tso_at ly s g ps cs" using assms by (auto simp: tso_inv_def)
  show ?thesis by (rule tso_c_drain [OF at Cons [unfolded e]]) (auto simp: tso_inv_def)
qed

lemma producer_inv:
  assumes "tso_inv ly s" and "malloc_ok malloc"
  obtains t where "tso_pstep ly malloc md x s = Inr t" and "tso_inv ly t"
proof -
  obtain g ps cs where at: "tso_at ly s g ps cs" using assms(1) by (auto simp: tso_inv_def)
  show ?thesis by (rule tso_producer [OF at assms(2), of md x]) (use that in \<open>auto simp: tso_inv_def\<close>)
qed

lemma consumer_inv:
  assumes "tso_inv ly s"
  obtains t where "tso_cstep op s = Inr t" and "tso_inv ly t"
proof -
  obtain g ps cs where at: "tso_at ly s g ps cs" using assms by (auto simp: tso_inv_def)
  show ?thesis by (rule tso_consumer [OF at, of op]) (use that in \<open>auto simp: tso_inv_def\<close>)
qed

lemma tso_reach_inv: "tso_reach ly s \<Longrightarrow> layout_ok ly \<Longrightarrow> tso_inv ly s"
proof (induction rule: tso_reach.induct)
  case (start malloc n q)
  then show ?case by (intro tso_start_inv conc_reach_cinv conc_reach.start)
next
  case (producer s malloc mode x t)
  then show ?case using producer_inv [of ly s malloc mode x] by auto
next
  case (consumer s op t)
  then show ?case using consumer_inv [of ly s op] by auto
qed (simp_all add: p_drain_inv c_drain_inv)

section \<open>The abstract queue\<close>

lemma atomic_buffered:
  assumes "atomic_step no_mem (h, xs, c) (h, ys, d)"
  shows "buffered_step no_mem (k, ps, xs, c) (k, ps, ys, d)"
  using assms by (cases rule: atomic_step.cases) (auto intro: buffered_step.intros)

text \<open>The answer of the consumer's last call depends on the blocks as it sees them, and lasts.\<close>

lemma last_answer_blocks: "blocks q' = blocks q \<Longrightarrow> last_answer q' p = last_answer q p"
  by (simp add: last_answer_def get_block_def split: cpc.splits)

lemma call_seen_blocks:
  assumes "blocks q' = blocks q"
  shows "call_seen q' p c \<longleftrightarrow> call_seen q p c"
  using last_answer_blocks [OF assms] by (cases c) (simp_all add: call_seen_def)

lemma tso_view_inv:
  assumes "tso_inv ly s"
  obtains u where "cinv ly u" and "cpc u = t_cpc s" and "deq u = removed s @ carried (c_buf s)" and "enq u = visible s"
    and "blocks (shared u) = blocks (shared (c_view s))"
proof -
  obtain g ps cs where at: "tso_at ly s g ps cs" using assms by (auto simp: tso_inv_def)
  have "ginv ly g" "cans c_can c_act cs g" using at by (simp_all add: tso_at_def)
  then have G: "ginv ly (fold c_act cs g)" by (rule buffers.other.view)
  show ?thesis
    by (rule that [OF ginv_cinv [OF G]]) (use at c_view_blocks [OF at] in \<open>simp_all add: tso_at_def\<close>)
qed

lemma tso_call_kept:
  assumes s: "tso_inv ly s" and t: "tso_inv ly t" and "t_cpc t = t_cpc s"
    and "removed t @ carried (c_buf t) = removed s @ carried (c_buf s)" and "visible t = visible s @ zs"
  shows "call_seen (shared (c_view t)) (t_cpc t) c \<longleftrightarrow> call_seen (shared (c_view s)) (t_cpc s) c"
proof -
  obtain u where u: "cinv ly u" "cpc u = t_cpc s" "deq u = removed s @ carried (c_buf s)" "enq u = visible s"
    "blocks (shared u) = blocks (shared (c_view s))" using s by (rule tso_view_inv)
  obtain v where v: "cinv ly v" "cpc v = t_cpc t" "deq v = removed t @ carried (c_buf t)" "enq v = visible t"
    "blocks (shared v) = blocks (shared (c_view t))" using t by (rule tso_view_inv)
  have "call_seen (shared v) (cpc v) c \<longleftrightarrow> call_seen (shared u) (cpc u) c"
    by (rule call_seen_kept [OF u(1) v(1), of zs]) (use u v assms in simp_all)
  then show ?thesis using u(2) v(2) call_seen_blocks [OF u(5)] call_seen_blocks [OF v(5)] by simp
qed

lemma producer_buffered:
  assumes inv: "tso_inv ly s" and m: "malloc_ok malloc"
    and step: "tso_pstep ly malloc md x s = Inr t" and ref: "tso_refines s a"
  shows "\<exists>b. tso_refines t b \<and> (b = a \<or> buffered_step (no_memory ly malloc (shared (p_view s))) a b)"
proof -
  let ?no = "no_memory ly malloc (shared (p_view s))"
  obtain g ps cs where at: "tso_at ly s g ps cs" using inv by (auto simp: tso_inv_def)
  obtain u v where same: "t_cpc t = t_cpc s" "c_buf t = c_buf s" "visible t = visible s" "removed t = removed s"
    and e: "p_effect ly malloc md x u v" "ppc u = t_ppc s" "ppc v = t_ppc t"
      "enq u = visible s @ carried (p_buf s)" "enq v = visible s @ carried (p_buf t)"
      "largestBlockSize (shared u) = largestBlockSize (shared (p_view s))"
    using tso_producer [OF at m, of md x] step by (metis Inr_inject)
  have view: "c_view t = c_view s" using step by (auto simp: tso_pstep_def c_view_def res_bind_eq_Inr)
  obtain h xs c where a: "a = (h, carried (p_buf s), xs, c)" and h: "enq_seen (ppc u) h"
    and r: "\<And>h' ps. tso_refines t (h', ps, xs, c) \<longleftrightarrow> enq_seen (ppc v) h' \<and> ps = carried (p_buf t)"
    using ref same e(2,3) by (cases a) (auto simp: tso_refines_def view)
  have no: "no_memory ly malloc (shared u) = ?no" using e(6) by (simp add: no_memory_def)
  from e(1) h show ?thesis
  proof (cases rule: p_effect_abstract)
    case same
    then show ?thesis using e(4,5) by (intro exI [of _ a]) (simp add: a r)
  next
    case call
    then show ?thesis using e(4,5) buffered_step.call_enqueue [of ?no _ xs c md x]
      by (intro exI [of _ "(Some (md, x), carried (p_buf s), xs, c)"]) (simp add: a r)
  next
    case (refused m' y)
    then show ?thesis using no e(4,5) buffered_step.refused [of m' ?no y _ xs c]
      by (intro exI [of _ "(None, carried (p_buf s), xs, c)"]) (simp add: a r)
  next
    case (added m' y)
    then show ?thesis using e(4,5) buffered_step.issued [of ?no m' y _ xs c]
      by (intro exI [of _ "(None, carried (p_buf s) @ [y], xs, c)"]) (simp add: a r)
  qed
qed

lemma consumer_buffered:
  assumes inv: "tso_inv ly s" and step: "tso_cstep op s = Inr t" and ref: "tso_refines s a"
  shows "\<exists>b. tso_refines t b \<and> (b = a \<or> buffered_step no_mem a b)"
proof -
  obtain g ps cs where at: "tso_at ly s g ps cs" using inv by (auto simp: tso_inv_def)
  obtain u v where same: "p_buf t = p_buf s" "t_ppc t = t_ppc s" "visible t = visible s" "removed t = removed s"
    and u: "cinv ly u" "cstep op u = Inr v" "cpc u = t_cpc s" "cpc v = t_cpc t" "enq u = visible s"
      "deq u = removed s @ carried (c_buf s)" "deq v = removed s @ carried (c_buf t)"
    and bl: "blocks (shared u) = blocks (shared (c_view s))" "blocks (shared v) = blocks (shared (c_view t))"
    using tso_consumer [OF at, of op] step by (metis Inr_inject)
  obtain h xs c where a: "a = (h, carried (p_buf s), xs, c)" and h: "enq_seen (t_ppc s) h"
    and xs: "visible s = removed s @ carried (c_buf s) @ xs" and c: "call_seen (shared u) (cpc u) c"
    using ref u(3) by (cases a) (auto simp: tso_refines_def call_seen_blocks [OF bl(1)])
  have uv: "enq v = enq u" "ppc v = ppc u" using consumer_step [OF u(1), of op] u(2) by auto
  define k where "k = map_option (\<lambda>x. (case ppc u of P_Checked m _ _ _ _ \<Rightarrow> m | _ \<Rightarrow> CanAlloc, x)) (in_hand (ppc u))"
  have k: "enq_seen (ppc u) k"
    by (auto simp: k_def enq_seen_def in_hand_def option.map_comp split: ppc.splits)
  have "refines u (k, xs, c)" using u xs c k by (simp add: refines_def)
  from consumer_refines [OF u(1,2) this, of no_mem] obtain b where b: "refines v b"
    "b = (k, xs, c) \<or> atomic_step no_mem (k, xs, c) b" by blast
  have "\<exists>ys d. b = (k, ys, d)"
    using b uv by (cases b) (auto simp: refines_def k_def enq_seen_def elim: atomic_step.cases)
  then obtain ys d where ys: "b = (k, ys, d)" "enq v = deq v @ ys" "call_seen (shared (c_view t)) (cpc v) d"
    using b(1) uv by (auto simp: refines_def call_seen_blocks [OF bl(2)])
  have "tso_refines t (h, carried (p_buf s), ys, d)"
    using ys uv u same h by (simp add: tso_refines_def)
  moreover have "(ys, d) = (xs, c) \<or> buffered_step no_mem a (h, carried (p_buf s), ys, d)"
    using b(2) atomic_buffered [of no_mem k xs c ys d] unfolding ys(1) a by auto
  ultimately show ?thesis by (auto simp: a)
qed

lemma p_drain_buffered:
  assumes inv: "tso_inv ly s" and ref: "tso_refines s a"
  shows "\<exists>b. tso_refines (p_drain s) b \<and> (b = a \<or> buffered_step no_mem a b)"
proof (cases "p_buf s")
  case Nil
  then show ?thesis using ref by (intro exI [of _ a]) (simp add: p_drain_def)
next
  case (Cons e ws)
  obtain w es where e: "p_buf s = (w, es) # ws" using Cons by (cases e) simp
  obtain g ps cs where at: "tso_at ly s g ps cs" using inv by (auto simp: tso_inv_def)
  have "length es \<le> 1" by (rule tso_p_drain [OF at e])
  then consider (plain) "es = []" | (one) x where "es = [x]" by (cases es) auto
  moreover obtain h xs c where a: "a = (h, es @ carried ws, xs, c)" and h: "enq_seen (t_ppc s) h"
    and xs: "visible s = removed s @ carried (c_buf s) @ xs" and c: "call_seen (shared (c_view s)) (t_cpc s) c"
    using ref e by (cases a) (auto simp: tso_refines_def)
  have "call_seen (shared (c_view (p_drain s))) (t_cpc (p_drain s)) c"
    by (subst tso_call_kept [OF inv p_drain_inv [OF inv], of es]) (simp_all add: e c p_drain_def)
  then have d: "tso_refines (p_drain s) (h, carried ws, xs @ es, c)"
    using e xs h by (simp add: tso_refines_def p_drain_def)
  ultimately show ?thesis
  proof cases
    case (one x)
    then show ?thesis using d buffered_step.enqueued [of no_mem h x "carried ws" xs c] a by auto
  qed (use a d in auto)
qed

lemma c_drain_buffered:
  assumes inv: "tso_inv ly s" and "tso_refines s a"
  shows "tso_refines (c_drain s) a"
proof -
  have "call_seen (shared (c_view (c_drain s))) (t_cpc (c_drain s)) c \<longleftrightarrow> call_seen (shared (c_view s)) (t_cpc s) c" for c
    by (rule tso_call_kept [OF inv c_drain_inv [OF inv], of "[]"]) (simp_all add: c_drain_def split: list.splits)
  then show ?thesis
    using assms(2) by (cases a) (auto simp: tso_refines_def c_drain_def split: list.splits)
qed

section \<open>A thread waits for nothing\<close>

definition tso_env_inv :: "layout \<Rightarrow> (u64 \<Rightarrow> u64) \<Rightarrow> 'a tso \<Rightarrow> bool" where
  "tso_env_inv ly malloc s \<longleftrightarrow> tso_inv ly s \<and> layout_ok ly \<and> malloc_ok malloc"

fun producer_turn :: "'a tso_turn \<Rightarrow> bool" where
  "producer_turn (Turn a) = is_producer a"
| "producer_turn a = False"

lemma tso_step_ok:
  assumes "tso_env_inv ly malloc s"
  obtains t where "tso_step ly malloc a s = Inr t" and "tso_env_inv ly malloc t"
proof -
  have inv: "tso_inv ly s" and m: "malloc_ok malloc" using assms by (simp_all add: tso_env_inv_def)
  have "\<exists>t. tso_step ly malloc a s = Inr t \<and> tso_inv ly t"
  proof (cases a)
    case (Turn b)
    then show ?thesis
      using producer_inv [OF inv m] consumer_inv [OF inv] by (cases b) (simp_all add: tso_step_def, metis+)
  qed (simp_all add: tso_step_def p_drain_inv [OF inv] c_drain_inv [OF inv])
  then show ?thesis using that assms by (auto simp: tso_env_inv_def)
qed

text \<open>
  The elements of the enqueues so far, in the memory or on their way to it. \<open>adding\<close> holds while
  the producer enqueues \<open>x\<close> after \<open>xs\<close>, and still when it has returned: \<open>x\<close> has been added, unless
  the call was refused. \<open>no_mem\<close> is whether the allocator has memory for the block that the
  call asks for, if it does.
\<close>

definition issued_elems :: "'a tso \<Rightarrow> 'a list" where
  "issued_elems s = visible s @ carried (p_buf s)"

definition adding :: "layout \<Rightarrow> (u64 \<Rightarrow> u64) \<Rightarrow> bool \<Rightarrow> alloc_mode \<Rightarrow> 'a \<Rightarrow> 'a list \<Rightarrow> 'a tso \<Rightarrow> bool" where
  "adding ly malloc no_mem m x xs s \<longleftrightarrow>
     (if t_ppc s = P_Idle then issued_elems s = xs @ [x] \<or> issued_elems s = xs \<and> (m = CannotAlloc \<or> no_mem)
      else enq_seen (t_ppc s) (Some (m, x)) \<and> issued_elems s = xs \<and>
        (undecided (t_ppc s) \<longrightarrow> no_memory ly malloc (shared (p_view s)) = no_mem))"

lemma tso_own_step:
  assumes inv: "tso_env_inv ly malloc s \<and> adding ly malloc no_mem m x xs s"
    and own: "producer_turn a" and busy: "p_left (t_ppc s) \<noteq> 0"
  shows "\<exists>t. tso_step ly malloc a s = Inr t \<and> (tso_env_inv ly malloc t \<and> adding ly malloc no_mem m x xs t) \<and>
    p_left (t_ppc t) < p_left (t_ppc s)"
proof -
  have env: "tso_env_inv ly malloc s" and add: "enq_seen (t_ppc s) (Some (m, x))" "issued_elems s = xs"
    and no: "undecided (t_ppc s) \<longrightarrow> no_memory ly malloc (shared (p_view s)) = no_mem"
    using inv busy by (simp_all add: adding_def)
  obtain t where t: "tso_step ly malloc a s = Inr t" "tso_env_inv ly malloc t" by (rule tso_step_ok [OF env])
  obtain m' x' where a: "a = Turn (Producer m' x')" using own by (auto elim!: producer_turn.elims is_producer.elims)
  obtain g ps cs where at: "tso_at ly s g ps cs" using env by (auto simp: tso_env_inv_def tso_inv_def)
  have ok: "malloc_ok malloc" using env by (simp add: tso_env_inv_def)
  obtain u v where e: "p_effect ly malloc m' x' u v" "ppc u = t_ppc s" "ppc v = t_ppc t" "visible t = visible s"
      "enq u = visible s @ carried (p_buf s)" "enq v = visible s @ carried (p_buf t)"
      "largestBlockSize (shared u) = largestBlockSize (shared (p_view s))"
      "largestBlockSize (shared v) = largestBlockSize (shared (p_view t))"
    using tso_producer [OF at ok, of m' x'] t(1) unfolding a tso_step_def by (simp; metis Inr_inject)
  have less: "p_left (t_ppc t) < p_left (t_ppc s)" using e(1-3) busy by (auto simp: p_effect_def)
  have el: "issued_elems t = enq v" "enq u = xs" using e(4-6) add(2) by (simp_all add: issued_elems_def)
  have u: "undecided (t_ppc s) \<longrightarrow> no_memory ly malloc (shared u) = no_mem" using no e(7) by (simp add: no_memory_def)
  have v: "no_memory ly malloc (shared (p_view t)) = no_mem" if "undecided (t_ppc t)" "t_ppc t \<noteq> P_Idle"
  proof -
    have "undecided (t_ppc s)"
      using that busy e(1-3) by (auto simp: p_effect_def undecided_def p_left_def split: ppc.splits)
    moreover have "largestBlockSize (shared v) = largestBlockSize (shared u)"
      using e(1,3) that(1) by (simp add: p_effect_def)
    ultimately show ?thesis using u e(8) by (simp add: no_memory_def)
  qed
  from e(1) add(1) [folded e(2)] have "adding ly malloc no_mem m x xs t"
    by (cases rule: p_effect_abstract) (use el e(2,3) u v in \<open>auto simp: adding_def enq_seen_def\<close>)
  then show ?thesis using t less by blast
qed

lemma largest_entries:
  "largestBlockSize q = largestBlockSize r \<Longrightarrow>
   largestBlockSize (do_entries ws q) = largestBlockSize (do_entries ws r)"
proof (induction ws arbitrary: q r)
  case (Cons w ws)
  have "largestBlockSize (do_store (fst w) q) = largestBlockSize (do_store (fst w) r)"
    using Cons.prems by (cases "fst w") (simp_all add: upd_block_def set_block_def)
  from Cons.IH [OF this] show ?case by simp
qed simp

lemma c_drain_largest:
  assumes "tso_inv ly s"
  shows "largestBlockSize (shared (p_view (c_drain s))) = largestBlockSize (shared (p_view s))"
proof (cases "c_buf s")
  case Nil
  then show ?thesis by (simp add: c_drain_def)
next
  case (Cons e ws)
  obtain w xs where e: "c_buf s = (w, xs) # ws" using Cons by (cases e) simp
  obtain g ps cs where at: "tso_at ly s g ps cs" using assms by (auto simp: tso_inv_def)
  have "\<forall>n b. w \<noteq> New_Block n b" by (rule tso_c_drain [OF at e])
  then have "largestBlockSize (do_store w (memory s)) = largestBlockSize (memory s)"
    by (cases w) (simp_all add: upd_block_def set_block_def)
  from largest_entries [OF this] show ?thesis by (simp add: c_drain_def e p_view_def)
qed

lemma issued_other:
  assumes "tso_step ly malloc a s = Inr t" and "\<not> producer_turn a" and "tso_inv ly s"
  shows "t_ppc t = t_ppc s \<and> issued_elems t = issued_elems s \<and>
    largestBlockSize (shared (p_view t)) = largestBlockSize (shared (p_view s))"
proof (cases a)
  case (Turn b)
  then show ?thesis
    using assms(1,2) by (cases b) (auto simp: tso_step_def tso_cstep_def issued_elems_def p_view_def res_bind_eq_Inr)
next
  case Drain_Producer
  then show ?thesis
    using assms(1) by (auto simp: tso_step_def p_drain_def issued_elems_def p_view_def split: list.splits)
next
  case Drain_Consumer
  then show ?thesis
    using assms(1) c_drain_largest [OF assms(3)]
    by (auto simp: tso_step_def c_drain_def issued_elems_def split: list.splits)
qed

lemma tso_other_step:
  assumes inv: "tso_env_inv ly malloc s \<and> adding ly malloc no_mem m x xs s" and other: "\<not> producer_turn a"
  shows "\<exists>t. tso_step ly malloc a s = Inr t \<and> (tso_env_inv ly malloc t \<and> adding ly malloc no_mem m x xs t) \<and>
    p_left (t_ppc t) \<le> p_left (t_ppc s)"
proof -
  obtain t where t: "tso_step ly malloc a s = Inr t" "tso_env_inv ly malloc t" by (rule tso_step_ok) (use inv in blast)
  have "tso_inv ly s" using inv by (simp add: tso_env_inv_def)
  note same = issued_other [OF t(1) other this]
  have "adding ly malloc no_mem m x xs t" using inv same by (auto simp: adding_def no_memory_def split: if_splits)
  then show ?thesis using t same by auto
qed

interpretation buffered_producer: wait_free "tso_step ly malloc" producer_turn "\<lambda>s. p_left (t_ppc s)"
    "\<lambda>s. tso_env_inv ly malloc s \<and> adding ly malloc no_mem m x xs s"
  for ly malloc no_mem m x xs
  by unfold_locales (rule tso_own_step tso_other_step; assumption)+

section \<open>With empty buffers\<close>

lemma store_flags [simp]: "enqueuing (do_store w q) = enqueuing q" "dequeuing (do_store w q) = dequeuing q"
  by (cases w; simp add: upd_block_def set_block_def)+

text \<open>The flags are kept with the threads.\<close>

lemma tso_memory_flags:
  "tso_reach ly s \<Longrightarrow> layout_ok ly \<Longrightarrow> \<not> enqueuing (memory s) \<and> \<not> dequeuing (memory s)"
proof (induction rule: tso_reach.induct)
  case (start malloc n q)
  then have "cinv ly (conc_start q)" by (intro conc_reach_cinv conc_reach.start)
  then show ?case by (auto simp: cinv_def cinv_at_def c_ptrs_def conc_start_def tso_start_def at_rest_def)
qed (auto simp: tso_pstep_def tso_cstep_def p_drain_def c_drain_def res_bind_eq_Inr split: list.splits)

lemma tso_empty_buffers:
  assumes at: "tso_at ly s g ps cs" and "p_buf s = []" and "c_buf s = []"
  obtains G where "ginv ly G" and "gq G = memory s" and "gp G = t_ppc s" and "gc G = t_cpc s"
    and "genq G = visible s" and "gdeq G = removed s"
proof -
  have inv: "ginv ly g" "cans (p_can ly) p_act (ps @ []) g" "cans c_can c_act cs g"
    using at by (simp_all add: tso_at_def)
  define h where "h = fold p_act ps g"
  have h: "ginv ly h" "cans c_can c_act cs h" unfolding h_def using buffers.effects [OF inv] by simp_all
  define G where "G = fold c_act cs h"
  have e: "concat (map snd ps) = []" "concat (map snd cs) = []" using at assms(2,3) by (simp_all only: tso_at_def)
  have "ginv ly G" unfolding G_def by (rule buffers.other.view [OF h])
  moreover have "gc G = t_cpc s"
    using at by (cases cs rule: rev_cases) (simp_all add: G_def h_def tso_at_def)
  ultimately show ?thesis
    using that [of G] at e by (simp add: G_def h_def tso_at_def del: concat_eq_Nil_conv)
qed

text \<open>Emptying the buffer of the producer makes its elements visible.\<close>

lemma drained_visible:
  "visible ((p_drain ^^ length (p_buf s)) s) = visible s @ carried (p_buf s) \<and> p_buf ((p_drain ^^ length (p_buf s)) s) = []"
proof (induction "length (p_buf s)" arbitrary: s)
  case (Suc n)
  then obtain w xs ws where b: "p_buf s = (w, xs) # ws" by (cases "p_buf s") auto
  have "p_buf (p_drain s) = ws" "visible (p_drain s) = visible s @ xs" by (simp_all add: p_drain_def b)
  then show ?case using Suc.hyps(1) [of "p_drain s"] Suc.hyps(2) b by (simp add: funpow_swap1)
qed simp

section \<open>Properties\<close>

lemma tso_reach_env:
  assumes "tso_reach ly s" and "layout_ok ly" and "malloc_ok malloc"
  shows "tso_env_inv ly malloc s"
  using assms tso_reach_inv [OF assms(1,2)] by (simp add: tso_env_inv_def)

text \<open>A run of the witnesses' queue, which starts with room for one element.\<close>

definition tso_run :: "nat tso_turn list \<Rightarrow> nat tso" where
  "tso_run sched = (case run_steps (tso_step std_layout std_malloc) sched (tso_start (std_queue 1)) of Inr s \<Rightarrow> s)"

lemma tso_std_reach: "tso_reach std_layout (tso_start (std_queue 1))"
proof -
  have c: "ceilToPow2 2 = 2" by code_simp
  have b: "bytes_of std_layout 2 = 342" by (simp add: bytes_of_def std_layout_def)
  show ?thesis
    by (rule tso_reach.start [OF std_ok(2), of 1]) (use std_queue_1 in \<open>simp_all add: c b\<close>)
qed

lemma tso_steps_reach:
  assumes "tso_reach ly s" and "tso_env_inv ly malloc s"
  shows "\<exists>t. run_steps (tso_step ly malloc) sched s = Inr t \<and> tso_reach ly t"
proof -
  have "\<exists>t. run_steps (tso_step ly malloc) sched s = Inr t \<and> tso_reach ly t \<and> tso_env_inv ly malloc t"
  proof (rule run_steps_total [where I = "\<lambda>s. tso_reach ly s \<and> tso_env_inv ly malloc s" and ok = "\<lambda>_. True"])
    fix a s
    assume s: "tso_reach ly s \<and> tso_env_inv ly malloc s"
    obtain t where t: "tso_step ly malloc a s = Inr t" "tso_env_inv ly malloc t"
      by (rule tso_step_ok [of ly malloc s a]) (use s in simp_all)
    have "malloc_ok malloc" using s by (simp add: tso_env_inv_def)
    then have "tso_reach ly t"
      using t(1) s by (auto simp: tso_step_def split: tso_turn.splits turn.splits intro: tso_reach.intros)
    then show "\<exists>t. tso_step ly malloc a s = Inr t \<and> tso_reach ly t \<and> tso_env_inv ly malloc t" using t by blast
  qed (use assms in \<open>simp_all add: list_all_iff\<close>)
  then show ?thesis by blast
qed

lemma tso_run_reach: "tso_reach std_layout (tso_run sched)"
  using tso_steps_reach [OF tso_std_reach tso_reach_env [OF tso_std_reach std_ok], of sched]
  by (auto simp: tso_run_def)

text \<open>One enqueue, not yet in the memory, and a dequeue under way.\<close>

definition issued_turns :: "nat tso_turn list" where
  "issued_turns = [Turn (Producer CanAlloc 7), Turn (Producer CanAlloc 7), Turn (Producer CanAlloc 7),
     Drain_Producer, Turn (Consumer Try_Dequeue)]"

text \<open>
  C14. On a machine with store buffers no step of either thread faults, in any order of the steps
  and of the moments at which the stores reach the memory.
\<close>
theorem tso_never_fault:
  assumes "tso_reach ly s" and "layout_ok ly" and "malloc_ok malloc"
  shows "(\<exists>t. tso_pstep ly malloc mode x s = Inr t) \<and> (\<exists>t. tso_cstep op s = Inr t)"
proof -
  have inv: "tso_inv ly s" by (rule tso_reach_inv [OF assms(1,2)])
  show ?thesis
    using producer_inv [OF inv assms(3), of mode x] consumer_inv [OF inv, of op] by metis
qed

theorem tso_never_fault_witness:
  "(\<exists>t. tso_pstep std_layout std_malloc CanAlloc 8 (tso_run issued_turns) = Inr t) \<and>
   (\<exists>t. tso_cstep Pop_Front (tso_run issued_turns) = Inr t)"
  using tso_never_fault [OF tso_run_reach std_ok] .

text \<open>
  C13. On a machine with store buffers the queue refines a queue with a delay: an enqueue hands
  its element over when it returns, unless it may not allocate or the allocator has no memory for a block of the size it asks for,
  and the elements get into the queue later, in their order, with no other loss; a dequeue
  answers with the oldest and removes it, a \<open>peek\<close> points to the oldest, and either returns false or null only if none was in the queue
  when it began. Every step of a thread and every store that reaches the memory is a step of
  that queue, or none.
\<close>
theorem tso_refines_buffered_queue:
  assumes "tso_reach ly s" and "layout_ok ly" and "malloc_ok malloc"
    and "tso_refines s a" and "tso_step ly malloc turn s = Inr t"
  shows "tso_refines (tso_start q) (None, [], [], Outside Not_Called) \<and>
    (\<exists>b. tso_refines t b \<and> (b = a \<or> buffered_step (no_memory ly malloc (shared (p_view s))) a b))"
proof
  show "tso_refines (tso_start q) (None, [], [], Outside Not_Called)"
    by (simp add: tso_refines_def tso_start_def call_seen_def last_answer_def enq_seen_def)
  have inv: "tso_inv ly s" by (rule tso_reach_inv [OF assms(1,2)])
  show "\<exists>b. tso_refines t b \<and> (b = a \<or> buffered_step (no_memory ly malloc (shared (p_view s))) a b)"
  proof (cases turn)
    case (Turn b)
    then show ?thesis
      using producer_buffered [OF inv assms(3) _ assms(4)] consumer_buffered [OF inv _ assms(4)] assms(5)
      by (cases b) (auto simp: tso_step_def)
  next
    case Drain_Producer
    then show ?thesis using p_drain_buffered [OF inv assms(4)] assms(5) by (simp add: tso_step_def)
  next
    case Drain_Consumer
    then show ?thesis using c_drain_buffered [OF inv assms(4)] assms(5) by (intro exI [of _ a]) (simp add: tso_step_def)
  qed
qed

theorem tso_refines_buffered_queue_witness:
  "\<exists>b. tso_refines (tso_run (issued_turns @ [Drain_Producer])) b \<and>
     (b = (None, [7], [], Called Try_Dequeue True) \<or> buffered_step (no_memory std_layout std_malloc (shared (p_view (tso_run issued_turns)))) (None, [7], [], Called Try_Dequeue True) b)"
proof -
  have "tso_refines (tso_run issued_turns) (None, [7], [], Called Try_Dequeue True)" by code_simp
  moreover have "tso_step std_layout std_malloc Drain_Producer (tso_run issued_turns) =
      Inr (tso_run (issued_turns @ [Drain_Producer]))" by code_simp
  ultimately show ?thesis using tso_refines_buffered_queue [OF tso_run_reach std_ok] by blast
qed

text \<open>
  C15. When both threads are outside their calls and the stores of both have reached the memory,
  the memory holds a queue of the sequential development, with the elements enqueued less those
  dequeued: whatever the delays were, nothing is lost.
\<close>
theorem tso_quiescent_state:
  assumes "tso_reach ly s" and "layout_ok ly" and "t_ppc s = P_Idle" and "at_rest (t_cpc s)"
    and "p_buf s = []" and "c_buf s = []"
  shows "rwq_inv ly (memory s) \<and> visible s = removed s @ rwq_contents (memory s)"
proof -
  obtain g ps cs where at: "tso_at ly s g ps cs" using tso_reach_inv [OF assms(1,2)] by (auto simp: tso_inv_def)
  obtain G where G: "ginv ly G" "gq G = memory s" "gp G = P_Idle" "at_rest (gc G)" "genq G = visible s" "gdeq G = removed s"
    using tso_empty_buffers [OF at assms(5,6)] assms(3,4) by metis
  have at': "cinv_at ly (conc_of G) (gpre G) (gpost G) (gE G)" using G(1) by (simp add: ginv_def)
  have idle: "ppc (conc_of G) = P_Idle" "at_rest (cpc (conc_of G))" using G(3,4) by simp_all
  have q: "shared (conc_of G) = memory s"
    using G(2-4) tso_memory_flags [OF assms(1,2)] by (cases "memory s") (simp add: conc_of_def)
  note Q = quiet_rep [OF at' idle, unfolded q]
  have "visible s = removed s @ concat (map (gE G) (gpre G))" using at' G(5,6) by (simp add: cinv_at_def c_elems_def)
  then show ?thesis using Q(2,3) contents_items [OF Q(1)] by simp
qed

theorem tso_quiescent_state_witness:
  "rwq_inv std_layout (memory (tso_run (butlast issued_turns @ [Drain_Producer]))) \<and>
   rwq_contents (memory (tso_run (butlast issued_turns @ [Drain_Producer]))) = [7]"
proof -
  let ?s = "tso_run (butlast issued_turns @ [Drain_Producer])"
  have q: "t_ppc ?s = P_Idle" "at_rest (t_cpc ?s)" "p_buf ?s = []" "c_buf ?s = []" and e: "visible ?s = [7]" "removed ?s = []"
    by code_simp+
  show ?thesis using tso_quiescent_state [OF tso_run_reach std_ok(1) q] e by simp
qed

text \<open>
  C16. On a machine with store buffers an enqueue returns and its element gets into the queue. In
  every schedule that begins the enqueue of \<open>x\<close> and then gives the producer four more turns
  there is a moment when the producer is outside its call again, even if no store ever reaches the
  memory; and once the stores then in its buffer have, the elements in the queue since the
  start are those enqueued before the call, in their order, and then \<open>x\<close>. The call adds nothing only if it may
  not allocate or the allocator has no memory for the block it asks for.
\<close>
theorem tso_enqueue_wait_free:
  assumes "tso_reach ly s" and "layout_ok ly" and "malloc_ok malloc"
    and "t_ppc s = P_Idle" and "4 \<le> length (filter producer_turn sched)"
  shows "\<exists>k \<le> length sched. \<exists>t.
    run_steps (tso_step ly malloc) (Turn (Producer m x) # take k sched) s = Inr t \<and> t_ppc t = P_Idle \<and>
    (visible ((p_drain ^^ length (p_buf t)) t) = visible s @ carried (p_buf s) @ [x] \<or>
     visible ((p_drain ^^ length (p_buf t)) t) = visible s @ carried (p_buf s) \<and>
       (m = CannotAlloc \<or> no_memory ly malloc (shared (p_view s))))"
proof -
  note env = tso_reach_env [OF assms(1-3)]
  obtain g ps cs where at: "tso_at ly s g ps cs" using env by (auto simp: tso_env_inv_def tso_inv_def)
  obtain u v s1 where s1: "tso_pstep ly malloc m x s = Inr s1" and same: "visible s1 = visible s"
    and e: "p_effect ly malloc m x u v" "ppc u = t_ppc s" "ppc v = t_ppc s1"
      "enq u = visible s @ carried (p_buf s)" "enq v = visible s @ carried (p_buf s1)"
      "largestBlockSize (shared u) = largestBlockSize (shared (p_view s))"
      "largestBlockSize (shared v) = largestBlockSize (shared (p_view s1))"
    using tso_producer [OF at assms(3), of m x] by metis
  have step: "tso_step ly malloc (Turn (Producer m x)) s = Inr s1" using s1 by (simp add: tso_step_def)
  have add: "adding ly malloc (no_memory ly malloc (shared (p_view s))) m x (issued_elems s) s1"
    using e assms(4) same
    by (auto simp: adding_def issued_elems_def p_effect_def enq_seen_def in_hand_def undecided_def no_memory_def)
  have env1: "tso_env_inv ly malloc s1"
    by (rule tso_step_ok [OF env, of "Turn (Producer m x)"]) (use step in simp)
  have "p_left (t_ppc s1) \<le> 4" by (simp add: p_left_def split: ppc.splits)
  then have "p_left (t_ppc s1) \<le> length (filter producer_turn sched)" using assms(5) by linarith
  then obtain k t where t: "k \<le> length sched" "run_steps (tso_step ly malloc) (take k sched) s1 = Inr t"
      "t_ppc t = P_Idle" "adding ly malloc (no_memory ly malloc (shared (p_view s))) m x (issued_elems s) t"
    using buffered_producer.returns_inv [OF conjI [OF env1 add], of sched] by auto
  have "visible ((p_drain ^^ length (p_buf t)) t) = issued_elems t"
    using drained_visible [of t] by (simp add: issued_elems_def)
  then show ?thesis using t step by (intro exI [of _ k]) (simp add: adding_def issued_elems_def)
qed

theorem tso_enqueue_wait_free_witness:
  "\<exists>k \<le> 5. \<exists>t. run_steps (tso_step std_layout std_malloc)
       (Turn (Producer CanAlloc 8) # take k (Drain_Consumer # replicate 4 (Turn (Producer CanAlloc 9))))
       (tso_run (butlast issued_turns)) = Inr t \<and>
     t_ppc t = P_Idle \<and> visible ((p_drain ^^ length (p_buf t)) t) = [7, 8]"
proof -
  have s: "t_ppc (tso_run (butlast issued_turns)) = P_Idle" "visible (tso_run (butlast issued_turns)) = []"
    "carried (p_buf (tso_run (butlast issued_turns))) = [7]" by code_simp+
  have "\<not> no_memory std_layout std_malloc (shared (p_view (tso_run (butlast issued_turns))))" by code_simp
  then show ?thesis
    using tso_enqueue_wait_free [OF tso_run_reach std_ok s(1), of "Drain_Consumer # replicate 4 (Turn (Producer CanAlloc 9))" CanAlloc 8] s(2,3)
    by simp
qed

text \<open>
  The delay is real: on this machine an enqueue may have returned, and a call of the
  consumer that begins after it return false, while no store has reached the memory.
\<close>
theorem tso_enqueue_returns_before_visible:
  "let s = tso_run [Turn (Producer CanAlloc 7), Turn (Producer CanAlloc 7), Turn (Producer CanAlloc 7),
       Turn (Consumer Try_Dequeue), Turn (Consumer Try_Dequeue)]
   in t_ppc s = P_Idle \<and> carried (p_buf s) = [7] \<and> t_cpc s = C_Returned Try_Dequeue None \<and> removed s = [] \<and> c_buf s = []"
  by code_simp

end
