(* ===== verification/RW_Size.thy ===== *)
theory RW_Size
  imports RW_TSO_Properties
begin

text \<open>
  \<open>size_approx\<close> of \<open>readerwriterqueue.h\<close> while other threads are at work: its loads are steps of
  their own. It walks the ring once and adds up what it finds in each block, while the blocks
  fill and empty and new ones are linked in. The walk returns, and what it returns lies
  between the sums of bounds that the surroundings keep for each block (the contract
  \<open>size_call\<close>, which the calls from the consumer's thread, from the producer's and from a third
  one satisfy, each with bounds of its own).
\<close>

section \<open>The steps\<close>

datatype size_pc =
    S_Front nat nat u64
  | S_Tail nat nat u64 u64
  | S_Next nat nat u64
  | S_Return u64

text \<open>\<open>frontBlock_\<close>, \<open>block\<close> and \<open>result\<close>, and in \<open>S_Tail\<close> also \<open>blockFront\<close>.\<close>

definition size_begin :: "'a rwq \<Rightarrow> size_pc" where
  "size_begin q = S_Front (frontBlock q) (frontBlock q) 0"

definition size_step :: "'a rwq \<Rightarrow> size_pc \<Rightarrow> size_pc res" where
  "size_step q z = (case z of
     S_Front f a result \<Rightarrow>
       res_bind (get_block a q) (\<lambda>b. Inr (S_Tail f a result (blk_front b)))
   | S_Tail f a result blockFront \<Rightarrow>
       res_bind (get_block a q) (\<lambda>b.
       Inr (S_Next f a (result + ((blk_tail b - blockFront) AND sizeMask b))))
   | S_Next f a result \<Rightarrow>
       res_bind (get_block a q) (\<lambda>b.
       res_bind (deref (blk_next b)) (\<lambda>n.
       Inr (if n \<noteq> f then S_Front f n result else S_Return result)))
   | S_Return result \<Rightarrow> Inr (S_Return result))"

text \<open>A schedule of the call and of what else happens.\<close>

datatype 'o size_turn = Other 'o | Reader

fun is_reader :: "'o size_turn \<Rightarrow> bool" where
  "is_reader Reader = True"
| "is_reader (Other a) = False"

definition size_turn_step :: "('o \<Rightarrow> 'a conc \<Rightarrow> 'a conc res) \<Rightarrow> 'o size_turn \<Rightarrow> 'a conc \<times> size_pc \<Rightarrow> ('a conc \<times> size_pc) res" where
  "size_turn_step other a = (\<lambda>(s, z).
     case a of Other b \<Rightarrow> res_bind (other b s) (\<lambda>t. Inr (t, z))
     | Reader \<Rightarrow> res_bind (size_step (shared s) z) (\<lambda>z'. Inr (s, z')))"

definition size_returned :: "'a conc \<times> size_pc \<Rightarrow> bool" where
  "size_returned sz \<longleftrightarrow> (\<exists>r. snd sz = S_Return r)"

section \<open>A walk over the ring\<close>

definition ring_size :: "'a conc \<Rightarrow> nat" where
  "ring_size s = on_ring (ppc s) (length (blocks (shared s)))"

definition ring_list :: "'a conc \<Rightarrow> nat list \<Rightarrow> bool" where
  "ring_list s R \<longleftrightarrow> R \<noteq> [] \<and> c_ring (blocks (shared s)) (ring_size s) R []"

text \<open>The ring stays as it is, or one block is linked in.\<close>

definition ring_grows :: "'a conc \<Rightarrow> 'a conc \<Rightarrow> bool" where
  "ring_grows s t \<longleftrightarrow> (\<forall>R. ring_list s R \<longrightarrow>
     ring_size t = ring_size s \<and> ring_list t R \<or>
     ring_size t = Suc (ring_size s) \<and> (\<exists>X Y. R = X @ Y \<and> X \<noteq> [] \<and> ring_list t (X @ ring_size s # Y)))"

definition counted :: "(nat \<Rightarrow> nat) \<Rightarrow> (nat \<Rightarrow> nat) \<Rightarrow> nat list \<Rightarrow> u64 \<Rightarrow> bool" where
  "counted lo hi A r \<longleftrightarrow> (\<exists>ks. r = of_nat (sum_list ks) \<and> list_all2 (\<lambda>v k. lo v \<le> k \<and> k \<le> hi v) A ks)"

lemma counted_Nil [simp]: "counted lo hi [] 0"
  by (simp add: counted_def)

lemma counted_mono:
  assumes "counted lo hi A r" and "\<forall>v \<in> set A. lo' v \<le> lo v \<and> hi v \<le> hi' v"
  shows "counted lo' hi' A r"
proof -
  obtain ks where ks: "r = of_nat (sum_list ks)" "list_all2 (\<lambda>v k. lo v \<le> k \<and> k \<le> hi v) A ks"
    using assms(1) by (auto simp: counted_def)
  have "list_all2 (\<lambda>v k. lo' v \<le> k \<and> k \<le> hi' v) A ks"
    by (rule list.rel_mono_strong [OF ks(2)]) (use assms(2) in fastforce)
  then show ?thesis using ks(1) by (auto simp: counted_def)
qed

lemma counted_snoc:
  assumes "counted lo hi A r" and "lo b \<le> k" and "k \<le> hi b"
  shows "counted lo hi (A @ [b]) (r + of_nat k)"
proof -
  obtain ks where "r = of_nat (sum_list ks)" "list_all2 (\<lambda>v k. lo v \<le> k \<and> k \<le> hi v) A ks"
    using assms(1) by (auto simp: counted_def)
  then show ?thesis using assms(2,3)
    unfolding counted_def by (intro exI [of _ "ks @ [k]"]) (simp add: list_all2_appendI)
qed

lemma counted_insert:
  assumes "counted lo hi (X @ Y) r" and "lo a = 0"
  shows "counted lo hi (X @ a # Y) r"
proof -
  obtain ks where "r = of_nat (sum_list ks)" "list_all2 (\<lambda>v k. lo v \<le> k \<and> k \<le> hi v) (X @ Y) ks"
    using assms(1) by (auto simp: counted_def)
  then obtain k1 k2 where "r = of_nat (sum_list (k1 @ 0 # k2))"
    "list_all2 (\<lambda>v k. lo v \<le> k \<and> k \<le> hi v) X k1" "list_all2 (\<lambda>v k. lo v \<le> k \<and> k \<le> hi v) Y k2"
    by (auto simp: list_all2_append1)
  then show ?thesis using assms(2)
    unfolding counted_def by (intro exI [of _ "k1 @ 0 # k2"]) (simp add: list_all2_appendI)
qed

lemma counted_total:
  assumes "counted lo hi A r"
  obtains k where "r = of_nat k" and "sum_list (map lo A) \<le> k" and "k \<le> sum_list (map hi A)"
proof -
  obtain ks where ks: "r = of_nat (sum_list ks)" "list_all2 (\<lambda>v k. lo v \<le> k \<and> k \<le> hi v) A ks"
    using assms by (auto simp: counted_def)
  from ks(2) have "sum_list (map lo A) \<le> sum_list ks \<and> sum_list ks \<le> sum_list (map hi A)"
    by (induction rule: list_all2_induct) auto
  then show ?thesis using that ks(1) by blast
qed

text \<open>Where the call is: the blocks it has counted, and those it has still to visit.\<close>

definition size_near ::
  "('a conc \<Rightarrow> nat \<Rightarrow> nat) \<Rightarrow> ('a conc \<Rightarrow> nat \<Rightarrow> nat) \<Rightarrow> ('a conc \<Rightarrow> nat \<Rightarrow> u64 \<Rightarrow> bool) \<Rightarrow>
   'a conc \<Rightarrow> size_pc \<Rightarrow> nat \<Rightarrow> bool" where
  "size_near lo hi known s z d = (case z of
     S_Front f b r \<Rightarrow> (\<exists>A ns. ring_list s (A @ b # ns) \<and> hd (A @ [b]) = f \<and> counted (lo s) (hi s) A r \<and> d = 3 * length ns + 3)
   | S_Tail f b r i \<Rightarrow> (\<exists>A ns. ring_list s (A @ b # ns) \<and> hd (A @ [b]) = f \<and> counted (lo s) (hi s) A r \<and> known s b i \<and>
       d = 3 * length ns + 2)
   | S_Next f b r \<Rightarrow> (\<exists>A ns. ring_list s (A @ b # ns) \<and> hd (A @ [b]) = f \<and> counted (lo s) (hi s) (A @ [b]) r \<and>
       d = 3 * length ns + 1)
   | S_Return r \<Rightarrow> (\<exists>A. ring_list s A \<and> counted (lo s) (hi s) A r \<and> d = 0))"

lemma ring_list_lt: "ring_list s R \<Longrightarrow> v \<in> set R \<Longrightarrow> v < ring_size s \<and> v < length (blocks (shared s))"
  by (auto simp: ring_list_def c_ring_def)

lemma ring_list_next:
  assumes "ring_list s (A @ b # ns)"
  shows "blk_next (blocks (shared s) ! b) = Some (hd (ns @ [hd (A @ [b])]))"
proof -
  have "links (blocks (shared s)) (A @ b # (ns @ [hd (A @ b # ns)]))" using assms by (simp add: ring_list_def c_ring_def)
  then have "links (blocks (shared s)) (b # (ns @ [hd (A @ b # ns)]))" by (rule links_append [THEN iffD1, THEN conjunct2])
  moreover have "hd (A @ b # ns) = hd (A @ [b])" by (cases A) simp_all
  ultimately show ?thesis by (cases ns) simp_all
qed

section \<open>The contract\<close>

locale size_call =
  fixes other :: "'o \<Rightarrow> 'a conc \<Rightarrow> 'a conc res"
    and invar :: "'a conc \<Rightarrow> bool"
    and lo hi :: "'a conc \<Rightarrow> nat \<Rightarrow> nat"
    and known :: "'a conc \<Rightarrow> nat \<Rightarrow> u64 \<Rightarrow> bool"
  assumes other_ok: "invar s \<Longrightarrow> \<exists>t. other a s = Inr t \<and> invar t \<and> ring_grows s t \<and>
      (\<forall>v < ring_size s. lo t v \<le> lo s v \<and> hi s v \<le> hi t v \<and> (\<forall>i. known s v i \<longrightarrow> known t v i)) \<and>
      (\<forall>v < ring_size t. ring_size s \<le> v \<longrightarrow> lo t v = 0)"
    and front_known: "\<lbrakk> invar s; v < ring_size s \<rbrakk> \<Longrightarrow> known s v (blk_front (blocks (shared s) ! v))"
    and known_count: "\<lbrakk> invar s; v < ring_size s; known s v i \<rbrakk> \<Longrightarrow>
      \<exists>k. (blk_tail (blocks (shared s) ! v) - i) AND sizeMask (blocks (shared s) ! v) = of_nat k \<and> lo s v \<le> k \<and> k \<le> hi s v"
begin

definition "near = (\<lambda>(s, z) d. invar s \<and> size_near lo hi known s z d)"

lemmas read_defs = size_turn_step_def size_step_def get_block_def deref_def near_def

lemma near_front:
  assumes inv: "invar s" and N: "size_near lo hi known s (S_Front f b r) d"
  shows "\<exists>t d'. size_turn_step other Reader (s, S_Front f b r) = Inr t \<and> near t d' \<and> d' < d"
proof -
  obtain A ns where n: "ring_list s (A @ b # ns)" "hd (A @ [b]) = f" "counted (lo s) (hi s) A r" "d = 3 * length ns + 3"
    using N by (auto simp: size_near_def)
  let ?z = "S_Tail f b r (blk_front (blocks (shared s) ! b))"
  have b: "b < ring_size s" using ring_list_lt [OF n(1), of b] by simp
  then have "size_near lo hi known s ?z (3 * length ns + 2)"
    using n front_known [OF inv] by (auto simp: size_near_def)
  then show ?thesis
    using ring_list_lt [OF n(1), of b] inv n(4)
    by (intro exI [of _ "(s, ?z)"] exI [of _ "3 * length ns + 2"]) (simp add: read_defs)
qed

lemma near_tail:
  assumes inv: "invar s" and N: "size_near lo hi known s (S_Tail f b r i) d"
  shows "\<exists>t d'. size_turn_step other Reader (s, S_Tail f b r i) = Inr t \<and> near t d' \<and> d' < d"
proof -
  obtain A ns where n: "ring_list s (A @ b # ns)" "hd (A @ [b]) = f" "counted (lo s) (hi s) A r" "known s b i"
    "d = 3 * length ns + 2"
    using N by (auto simp: size_near_def)
  let ?m = "(blk_tail (blocks (shared s) ! b) - i) AND sizeMask (blocks (shared s) ! b)"
  obtain k where k: "?m = of_nat k" "lo s b \<le> k" "k \<le> hi s b"
    using known_count [OF inv _ n(4)] ring_list_lt [OF n(1), of b] by auto
  have "counted (lo s) (hi s) (A @ [b]) (r + ?m)" using counted_snoc [OF n(3) k(2,3)] k(1) by simp
  then have "size_near lo hi known s (S_Next f b (r + ?m)) (3 * length ns + 1)"
    using n by (auto simp: size_near_def)
  then show ?thesis using ring_list_lt [OF n(1), of b] inv n(5)
    by (intro exI [of _ "(s, S_Next f b (r + ?m))"] exI [of _ "3 * length ns + 1"]) (simp add: read_defs)
qed

lemma near_next:
  assumes inv: "invar s" and N: "size_near lo hi known s (S_Next f b r) d"
  shows "\<exists>t d'. size_turn_step other Reader (s, S_Next f b r) = Inr t \<and> near t d' \<and> d' < d"
proof -
  obtain A ns where n: "ring_list s (A @ b # ns)" "hd (A @ [b]) = f" "counted (lo s) (hi s) (A @ [b]) r"
    "d = 3 * length ns + 1"
    using N by (auto simp: size_near_def)
  note nx = ring_list_next [OF n(1), unfolded n(2)]
  show ?thesis
  proof (cases ns)
    case Nil
    then have "size_near lo hi known s (S_Return r) 0" using n by (auto simp: size_near_def)
    then show ?thesis using ring_list_lt [OF n(1), of b] inv n(4) nx Nil
      by (intro exI [of _ "(s, S_Return r)"] exI [of _ 0]) (simp add: read_defs)
  next
    case (Cons c cs)
    have "distinct (A @ b # c # cs)" using n(1) Cons by (simp add: ring_list_def c_ring_def)
    moreover have "f \<in> set (A @ [b])" using n(2) by (metis hd_in_set snoc_eq_iff_butlast)
    ultimately have "c \<noteq> f" by auto
    have "hd ((A @ [b]) @ [c]) = f" using n(2) by (cases A) simp_all
    then have "size_near lo hi known s (S_Front f c r) (3 * length cs + 3)"
      using n Cons unfolding size_near_def by (simp, intro exI [of _ "A @ [b]"] exI [of _ cs]) simp
    then show ?thesis using ring_list_lt [OF n(1), of b] inv n(4) nx Cons \<open>c \<noteq> f\<close>
      by (intro exI [of _ "(s, S_Front f c r)"] exI [of _ "3 * length cs + 3"]) (simp add: read_defs)
  qed
qed

lemma reader_near:
  assumes "near (s, z) d" and "\<not> size_returned (s, z)"
  shows "\<exists>t d'. size_turn_step other Reader (s, z) = Inr t \<and> near t d' \<and> d' < d"
  using assms near_front near_tail near_next by (cases z) (auto simp: near_def size_returned_def)

text \<open>
  What a step of another thread leaves of a walk: a block may be linked in behind the walk, where
  it is not counted, or ahead of it.
\<close>

lemma other_counted:
  assumes "invar s" and "other a s = Inr t" and "ring_list s R" and "set A \<subseteq> set R" and "counted (lo s) (hi s) A r"
  shows "counted (lo t) (hi t) A r"
proof (rule counted_mono [OF assms(5)])
  show "\<forall>v \<in> set A. lo t v \<le> lo s v \<and> hi s v \<le> hi t v"
    using other_ok [OF assms(1), of a] assms(2,4) ring_list_lt [OF assms(3)] by auto
qed

lemma other_ring:
  assumes "invar s" and "other a s = Inr t" and "ring_list s R"
  obtains "ring_list t R"
  | X Y where "R = X @ Y" and "X \<noteq> []" and "ring_list t (X @ ring_size s # Y)" and "lo t (ring_size s) = 0"
proof -
  have t: "ring_grows s t" "\<forall>v < ring_size t. ring_size s \<le> v \<longrightarrow> lo t v = 0"
    using other_ok [OF assms(1), of a] assms(2) by auto
  have "ring_size t = ring_size s \<and> ring_list t R \<or>
      ring_size t = Suc (ring_size s) \<and> (\<exists>X Y. R = X @ Y \<and> X \<noteq> [] \<and> ring_list t (X @ ring_size s # Y))"
    using t(1) assms(3) unfolding ring_grows_def by blast
  then show ?thesis using that t(2) by auto
qed

lemma other_walk:
  assumes inv: "invar s" and step: "other a s = Inr t" and ring: "ring_list s (A @ b # ns)"
    and hd: "hd (A @ [b]) = f" and C: "counted (lo s) (hi s) (A @ C) r" and b: "set C \<subseteq> {b}"
  obtains A' ns' where "ring_list t (A' @ b # ns')" and "hd (A' @ [b]) = f"
    and "counted (lo t) (hi t) (A' @ C) r" and "length ns' \<le> length ns + 1"
proof -
  have C': "counted (lo t) (hi t) (A @ C) r" by (rule other_counted [OF inv step ring _ C]) (use b in auto)
  from inv step ring show ?thesis
  proof (cases rule: other_ring)
    case 1
    then show ?thesis using that [of A ns] hd C' by simp
  next
    case (2 X Y)
    show ?thesis
    proof (cases "length X \<le> length A")
      case True
      then obtain Z where Z: "A = X @ Z" "Y = Z @ b # ns" using 2(1) by (auto simp: append_eq_append_conv2)
      have "counted (lo t) (hi t) ((X @ ring_size s # Z) @ C) r"
        using counted_insert [of "lo t" "hi t" X "Z @ C" r "ring_size s"] C' 2(4) by (simp add: Z)
      moreover have "hd ((X @ ring_size s # Z) @ [b]) = f" using hd 2(2) by (simp add: Z hd_append)
      ultimately show ?thesis using that [of "X @ ring_size s # Z" ns] 2(3) by (simp add: Z)
    next
      case False
      then obtain W where "X = A @ W" "W @ Y = b # ns" "W \<noteq> []" using 2(1) by (auto simp: append_eq_append_conv2)
      then obtain V where V: "X = A @ b # V" "ns = V @ Y" by (cases W) auto
      show ?thesis using that [of A "V @ ring_size s # Y"] 2(3) hd C' by (simp add: V)
    qed
  qed
qed

lemma other_done:
  assumes inv: "invar s" and step: "other a s = Inr t" and ring: "ring_list s A" and C: "counted (lo s) (hi s) A r"
  obtains A' where "ring_list t A'" and "counted (lo t) (hi t) A' r"
proof -
  have C': "counted (lo t) (hi t) A r" by (rule other_counted [OF inv step ring _ C]) simp
  from inv step ring show ?thesis
  proof (cases rule: other_ring)
    case (2 X Y)
    then show ?thesis using that [OF 2(3)] C' by (simp add: counted_insert)
  qed (use that C' in blast)
qed

lemma other_near:
  assumes near: "near (s, z) d"
  shows "\<exists>t d'. size_turn_step other (Other a) (s, z) = Inr t \<and> near t d' \<and> d' \<le> d + 3"
proof -
  have inv: "invar s" and N: "size_near lo hi known s z d" using near by (simp_all add: near_def)
  obtain t where step: "other a s = Inr t" and inv': "invar t"
    and kn: "\<forall>v < ring_size s. \<forall>i. known s v i \<longrightarrow> known t v i"
    using other_ok [OF inv, of a] by blast
  have "\<exists>d'. size_near lo hi known t z d' \<and> d' \<le> d + 3"
  proof (cases z)
    case (S_Front f b r)
    then obtain A ns where n: "ring_list s (A @ b # ns)" "hd (A @ [b]) = f" "counted (lo s) (hi s) (A @ []) r" "d = 3 * length ns + 3"
      using N by (auto simp: size_near_def)
    show ?thesis
      by (rule other_walk [OF inv step n(1-3)]) (use n(4) in \<open>fastforce simp: size_near_def S_Front\<close>)+
  next
    case (S_Tail f b r i)
    then obtain A ns where n: "ring_list s (A @ b # ns)" "hd (A @ [b]) = f" "counted (lo s) (hi s) (A @ []) r" "known s b i"
      "d = 3 * length ns + 2"
      using N by (auto simp: size_near_def)
    have "known t b i" using kn n(4) ring_list_lt [OF n(1), of b] by simp
    show ?thesis
      by (rule other_walk [OF inv step n(1-3)]) (use n(5) \<open>known t b i\<close> in \<open>fastforce simp: size_near_def S_Tail\<close>)+
  next
    case (S_Next f b r)
    then obtain A ns where n: "ring_list s (A @ b # ns)" "hd (A @ [b]) = f" "counted (lo s) (hi s) (A @ [b]) r"
      "d = 3 * length ns + 1"
      using N by (auto simp: size_near_def)
    show ?thesis
      by (rule other_walk [OF inv step n(1-3)]) (use n(4) in \<open>fastforce simp: size_near_def S_Next\<close>)+
  next
    case (S_Return r)
    then obtain A where n: "ring_list s A" "counted (lo s) (hi s) A r" using N by (auto simp: size_near_def)
    show ?thesis by (rule other_done [OF inv step n]) (fastforce simp: size_near_def S_Return)
  qed
  then show ?thesis using step inv' by (simp add: near_def size_turn_step_def)
qed

lemma near_0: "near (s, z) 0 \<Longrightarrow> size_returned (s, z)"
  by (cases z) (auto simp: near_def size_near_def size_returned_def)

end

sublocale size_call \<subseteq> call: paced "size_turn_step other" is_reader size_returned near 3
proof
  show "size_returned sz" if "near sz 0" for sz using near_0 that by (cases sz) simp
  show "\<exists>t d'. size_turn_step other a sz = Inr t \<and> near t d' \<and> d' < d" if "near sz d" "is_reader a" "\<not> size_returned sz" for sz d a
    using that reader_near by (cases sz; cases a) simp_all
  show "\<exists>t d'. size_turn_step other a sz = Inr t \<and> near t d' \<and> d' \<le> d + 3" if "near sz d" "\<not> is_reader a" for sz d a
    using that other_near by (cases sz; cases a) simp_all
qed

context size_call
begin

lemma ring_list_sum: "ring_list s A \<Longrightarrow> sum_list (map h A) = (\<Sum>v < ring_size s. h v)"
  by (simp add: ring_list_def c_ring_def sum_list_distinct_conv_sum_set)

lemma result_between:
  assumes "near (s, S_Return r) d"
  obtains k where "r = of_nat k" and "(\<Sum>v < ring_size s. lo s v) \<le> k" and "k \<le> (\<Sum>v < ring_size s. hi s v)"
proof -
  obtain A where A: "ring_list s A" "counted (lo s) (hi s) A r" using assms by (auto simp: near_def size_near_def)
  from counted_total [OF A(2)] obtain k where "r = of_nat k" "sum_list (map (lo s) A) \<le> k" "k \<le> sum_list (map (hi s) A)" .
  then show ?thesis using that [of k] ring_list_sum [OF A(1), of "lo s"] ring_list_sum [OF A(1), of "hi s"] by simp
qed

lemma call_starts:
  assumes "invar s" and "ring_list s (frontBlock (shared s) # R)"
  shows "near (s, size_begin (shared s)) (3 * ring_size s)"
proof -
  have "ring_size s = Suc (length R)"
    using assms(2) distinct_card [of "frontBlock (shared s) # R"] by (auto simp: ring_list_def c_ring_def)
  then have "size_near lo hi known s (size_begin (shared s)) (3 * ring_size s)"
    using assms(2) by (simp add: size_near_def size_begin_def) (intro exI [of _ "[]"] exI [of _ R]; simp)
  then show ?thesis using assms(1) by (simp add: near_def)
qed

lemma run_near:
  assumes "near (s, z) d"
  shows "\<exists>t z' d'. run_steps (size_turn_step other) sched (s, z) = Inr (t, z') \<and> near (t, z') d'"
proof -
  have "\<exists>t. run_steps (size_turn_step other) sched (s, z) = Inr t \<and> (\<exists>d. near t d)"
  proof (rule run_steps_total [where I = "\<lambda>s. \<exists>d. near s d" and ok = "\<lambda>_. True"])
    fix a and sz :: "'a conc \<times> size_pc"
    assume "\<exists>d. near sz d"
    then obtain s z d where sz: "sz = (s, z)" and near: "near (s, z) d" by (cases sz) auto
    show "\<exists>t. size_turn_step other a sz = Inr t \<and> (\<exists>d. near t d)"
    proof (cases "a = Reader \<and> size_returned (s, z)")
      case True
      then show ?thesis using near sz by (auto simp: size_turn_step_def size_step_def size_returned_def)
    next
      case False
      then show ?thesis using reader_near [OF near] other_near [OF near] sz by (cases a) blast+
    qed
  qed (use assms in \<open>auto simp: list_all_iff\<close>)
  then show ?thesis by auto
qed

end

section \<open>The steps of the threads\<close>

definition block_count :: "'a block \<Rightarrow> nat" where
  "block_count b = unat ((blk_tail b - blk_front b) AND sizeMask b)"

definition count_at :: "'a conc \<Rightarrow> nat \<Rightarrow> nat" where
  "count_at s v = block_count (blocks (shared s) ! v)"

definition ghost_of :: "'a conc \<Rightarrow> nat list \<Rightarrow> nat list \<Rightarrow> (nat \<Rightarrow> 'a list) \<Rightarrow> 'a ghost" where
  "ghost_of s pre post E = \<lparr>gq = shared s, gp = ppc s, gc = cpc s, genq = enq s, gdeq = deq s, gpre = pre, gpost = post, gE = E\<rparr>"

lemma ghost_conc:
  assumes "cinv_at ly s pre post E"
  shows "conc_of (ghost_of s pre post E) = s"
  using assms unfolding flags_of by (simp add: ghost_of_def cinv_at_def c_ptrs_def)

lemma ghost_of_sel [simp]:
  "gq (ghost_of s pre post E) = shared s" "gp (ghost_of s pre post E) = ppc s" "gE (ghost_of s pre post E) = E"
  "gpre (ghost_of s pre post E) = pre" "gpost (ghost_of s pre post E) = post"
  by (simp_all add: ghost_of_def)

lemma cinv_count:
  assumes "cinv_at ly s pre post E" and "v < length (blocks (shared s))"
  shows "count_at s v = length (E v)"
    and "(blk_tail (blocks (shared s) ! v) - blk_front (blocks (shared s) ! v)) AND sizeMask (blocks (shared s) ! v) =
      of_nat (length (E v))"
proof -
  have "block_rep (settled (blocks (shared s) ! v) (E v)) (E v)"
    using cinv_block(2) [OF assms] by (rule settled_rep)
  from count_elems [OF this] show 2: "(blk_tail (blocks (shared s) ! v) - blk_front (blocks (shared s) ! v)) AND
      sizeMask (blocks (shared s) ! v) = of_nat (length (E v))" by simp
  have "length (E v) < 2 ^ 64"
  proof -
    obtain k where "k < 64" "length (E v) < 2 ^ k" using cinv_block(2) [OF assms] by (auto simp: conc_rep_def)
    moreover have "(2 :: nat) ^ k \<le> 2 ^ 64" using \<open>k < 64\<close> by (intro power_increasing) simp_all
    ultimately show ?thesis by linarith
  qed
  then show "count_at s v = length (E v)" by (simp add: count_at_def block_count_def 2 unat_of_nat)
qed

lemma cinv_ring_list:
  assumes "cinv ly s"
  obtains R where "ring_list s (frontBlock (shared s) # R)"
proof -
  obtain pre post E where at: "cinv_at ly s pre post E" using assms by (auto simp: cinv_def)
  then have "pre \<noteq> []" "hd pre = frontBlock (shared s)" "c_ring (blocks (shared s)) (ring_size s) pre post"
    by (simp_all add: cinv_at_def c_ptrs_def ring_size_def)
  then have "ring_list s (pre @ post)" by (simp add: ring_list_def c_ring_def)
  moreover have "pre @ post = frontBlock (shared s) # (tl pre @ post)"
    using \<open>pre \<noteq> []\<close> \<open>hd pre = frontBlock (shared s)\<close> by (cases pre) simp_all
  ultimately show ?thesis using that by metis
qed

text \<open>The sum over the ring: the elements of the queue, and one that is about to become reachable.\<close>

lemma ring_total:
  assumes "cinv ly s"
  shows "length (enq s) - length (deq s) \<le> (\<Sum>v < ring_size s. count_at s v)"
    and "(\<Sum>v < ring_size s. count_at s v) \<le> length (enq s) - length (deq s) + (if ppc s = P_Idle then 0 else 1)"
proof -
  obtain pre post E where at: "cinv_at ly s pre post E" using assms by (auto simp: cinv_def)
  have ring: "c_ring (blocks (shared s)) (ring_size s) pre post" using at by (simp add: cinv_at_def ring_size_def)
  then have d: "distinct (pre @ post)" "set (pre @ post) = {..<ring_size s}" by (simp_all add: c_ring_def)
  have "(\<Sum>v < ring_size s. count_at s v) = (\<Sum>v < ring_size s. length (E v))"
    using cinv_count(1) [OF at] ring by (intro sum.cong) (auto simp: c_ring_def)
  also have "\<dots> = sum_list (map (\<lambda>v. length (E v)) (pre @ post))"
    using d by (simp add: sum_list_distinct_conv_sum_set del: map_append)
  also have "\<dots> = length (concat (map E pre)) + (\<Sum>v\<leftarrow>post. length (hidden (ppc s) v))"
  proof -
    have "map (\<lambda>v. length (E v)) post = map (\<lambda>v. length (hidden (ppc s) v)) post"
      using at by (simp add: cinv_at_def c_elems_def)
    then show ?thesis by (simp add: length_concat comp_def del: map_eq_conv)
  qed
  also have "length (concat (map E pre)) = length (enq s) - length (deq s)"
    using at by (simp add: cinv_at_def c_elems_def)
  finally have total: "(\<Sum>v < ring_size s. count_at s v) =
      length (enq s) - length (deq s) + (\<Sum>v\<leftarrow>post. length (hidden (ppc s) v))" .
  have one: "(\<Sum>v\<leftarrow>post. if v = n then 1 else 0) \<le> (1 :: nat)" for n
    using d(1) by (simp add: sum_list_distinct_conv_sum_set sum.delta)
  have "(\<Sum>v\<leftarrow>post. length (hidden (ppc s) v)) \<le> (if ppc s = P_Idle then 0 else 1)"
    using one by (cases "ppc s") (simp_all add: hidden_def if_distrib [of length] cong: if_cong)
  then show "length (enq s) - length (deq s) \<le> (\<Sum>v < ring_size s. count_at s v)"
    "(\<Sum>v < ring_size s. count_at s v) \<le> length (enq s) - length (deq s) + (if ppc s = P_Idle then 0 else 1)"
    using total by simp_all
qed

lemma ring_grows_same:
  assumes "ring_size t = ring_size s" and "length (blocks (shared s)) \<le> length (blocks (shared t))"
    and "\<forall>v < ring_size s. blk_next (blocks (shared t) ! v) = blk_next (blocks (shared s) ! v)"
  shows "ring_grows s t"
proof -
  have "ring_list t R" if "ring_list s R" for R
    using that assms ring_nexts [of "blocks (shared s)" "ring_size s" R "[]" "blocks (shared t)"]
    by (auto simp: ring_list_def c_ring_def)
  then show ?thesis using assms(1) by (simp add: ring_grows_def)
qed

lemma ring_grows_link:
  assumes at: "cinv_at ly s pre post E" and pc: "ppc s = P_Link y tb b"
    and t: "blocks (shared t) = (blocks (shared s))[tb := (blocks (shared s) ! tb)\<lparr>blk_next := Some b\<rparr>]"
    and pc': "ppc t = P_New_Block y b"
  shows "ring_grows s t"
proof -
  have seen: "tb = last pre" "length (blocks (shared s)) = Suc b"
    "blk_next (blocks (shared s) ! b) = blk_next (blocks (shared s) ! tb)"
    using at pc by (simp_all add: cinv_at_def p_seen_def)
  have size: "ring_size s = b" "ring_size t = Suc b" using seen(2) t pc pc' by (simp_all add: ring_size_def on_ring_def)
  have tb: "tb < b"
  proof -
    have "c_ring (blocks (shared s)) b pre post" "pre \<noteq> []"
      using at size(1) by (simp_all add: cinv_at_def ring_size_def c_ptrs_def)
    then show ?thesis using ring_lt [of "blocks (shared s)" b pre post tb] seen(1) by simp
  qed
  have "\<exists>X Y. R = X @ Y \<and> X \<noteq> [] \<and> ring_list t (X @ ring_size s # Y)" if R: "ring_list s R" for R
  proof -
    have "set R = {..<b}" using R size(1) by (simp add: ring_list_def c_ring_def)
    then obtain X Y where XY: "R = (X @ [tb]) @ Y" using tb split_list [of tb R] by auto
    have "hd (X @ tb # Y) = hd (X @ [tb])" "hd (X @ tb # b # Y) = hd (X @ [tb])" by (cases X; simp)+
    then have "c_ring (blocks (shared s)) b (X @ [tb]) Y" using R size(1) by (simp add: XY ring_list_def c_ring_def)
    from ring_link [OF this] have "c_ring (blocks (shared t)) (Suc b) (X @ [tb]) (b # Y)"
      using seen(2,3) by (simp add: t)
    then have "ring_list t ((X @ [tb]) @ b # Y)"
      using size(2) \<open>hd (X @ tb # b # Y) = hd (X @ [tb])\<close> by (simp add: ring_list_def c_ring_def)
    then show ?thesis using XY size(1) by (intro exI [of _ "X @ [tb]"] exI [of _ Y]) simp
  qed
  then show ?thesis using size by (simp add: ring_grows_def)
qed

lemma p_ring_grows:
  assumes at: "cinv_at ly s pre post E" and t: "pstep ly malloc m x s = Inr t"
  shows "ring_grows s t"
proof (cases "ppc s")
  case (P_Link y tb b)
  show ?thesis
    by (rule ring_grows_link [OF at P_Link])
      (use t P_Link in \<open>auto simp: pstep_def get_block_def set_block_def Let_def res_bind_eq_Inr split: if_splits\<close>)
next
  case (P_Checked md y a bf bt)
  from t this show ?thesis
    by (cases rule: pstep_checked_cases)
      (auto simp: P_Checked ring_size_def on_ring_def p_return_def set_block_def construct_raw_def construct_def nth_list_update
        intro!: ring_grows_same split: if_splits)
next
  case (P_Alloc y a)
  from t this show ?thesis
    by (cases rule: pstep_alloc_cases)
      (auto simp: P_Alloc ring_size_def on_ring_def p_return_def nth_append intro!: ring_grows_same)
qed (use t in \<open>auto simp: pstep_def ring_size_def on_ring_def p_return_def get_block_def set_block_def construct_raw_def construct_def
    nth_list_update Let_def res_bind_eq_Inr intro!: ring_grows_same split: if_splits\<close>)

lemma producer_counts:
  assumes inv: "cinv ly s" and ly: "layout_ok ly" and m: "malloc_ok malloc" and t: "pstep ly malloc md x s = Inr t"
  shows "ring_grows s t" and "v < ring_size s \<Longrightarrow> count_at s v \<le> count_at t v"
    and "v < ring_size s \<Longrightarrow> blk_front (blocks (shared t) ! v) = blk_front (blocks (shared s) ! v)"
proof -
  obtain pre post E where at: "cinv_at ly s pre post E" using inv by (auto simp: cinv_def)
  show "ring_grows s t" by (rule p_ring_grows [OF at t])
  define g where "g = ghost_of s pre post E"
  have g: "conc_of g = s" unfolding g_def by (rule ghost_conc [OF at])
  define l where "l = (ppc t, p_stores s t)"
  have ginv: "ginv ly g" using at ly by (simp add: ginv_def g) (simp add: g_def)
  have can: "p_can ly l g" using p_writeI [OF m, of ly md x g t] t by (simp add: g l_def p_can_def)
  obtain pre' post' E' where r: "p_ring (ppc s) (ppc t) (pre, post, E) = (pre', post', E')" by (metis prod_cases3)
  have at': "cinv_at ly t pre' post' E'" by (rule producer_ring [OF at ly m t r])
  have t': "conc_of (p_act l g) = t" using p_act_conc [of ly malloc md x g t] t at' by (simp add: g l_def)
  have E': "gE (p_act l g) = E'" using r by (simp add: p_act_def l_def ring_of_def g_def)
  have bs: "blocks (gq (p_act l g)) = blocks (shared t)" using t' by (metis conc_of_sel(5))
  have "c_owned (gq g) (gq (p_act l g))" using p_act_owned [OF can] by simp
  then have own: "length (blocks (shared s)) \<le> length (blocks (shared t))"
    "\<forall>a < length (blocks (shared s)). blk_front (blocks (shared t) ! a) = blk_front (blocks (shared s) ! a)"
    unfolding c_owned_def bs by (simp_all add: g_def)
  { assume v: "v < ring_size s"
    then have lt: "v < length (blocks (shared s))" by (simp add: ring_size_def on_ring_def split: ppc.splits)
    show "blk_front (blocks (shared t) ! v) = blk_front (blocks (shared s) ! v)"
      using own(2) lt by simp
    have "v < length (blocks (shared t))" using own(1) lt by simp
    moreover have "gE g = E" "gq g = shared s" by (simp_all add: g_def)
    ultimately show "count_at s v \<le> count_at t v"
      using p_act_elems [OF ginv can, of v] lt cinv_count(1) [OF at lt] cinv_count(1) [OF at', of v]
      by (auto simp: E') }
qed

lemma consumer_counts:
  assumes inv: "cinv ly s" and t: "cstep op s = Inr t"
  shows "ring_grows s t" and "ring_size t = ring_size s" and "v < ring_size s \<Longrightarrow> count_at t v \<le> count_at s v"
    and "v < ring_size s \<Longrightarrow> blk_tail (blocks (shared t) ! v) = blk_tail (blocks (shared s) ! v) \<and>
      sizeMask (blocks (shared t) ! v) = sizeMask (blocks (shared s) ! v)"
proof -
  obtain pre post E where at: "cinv_at ly s pre post E" using inv by (auto simp: cinv_def)
  define g where "g = ghost_of s pre post E"
  have g: "conc_of g = s" unfolding g_def by (rule ghost_conc [OF at])
  define l where "l = (cpc t, c_stores s)"
  have can: "c_can l g" using c_writeI [of op g t] t by (simp add: g l_def c_can_def)
  obtain pre' post' E' where r: "c_ring_step (cpc s) (pre, post, E) = (pre', post', E')" by (metis prod_cases3)
  have at': "cinv_at ly t pre' post' E'" by (rule consumer_ring [OF at t r])
  have t': "conc_of (c_act l g) = t" using c_act_conc [of op g t] t at' by (simp add: g l_def)
  have bs: "blocks (gq (c_act l g)) = blocks (shared t)" using t' by (metis conc_of_sel(5))
  have "p_owned (gq g) (gq (c_act l g))" using c_act_owned [OF can] by simp
  then have own: "length (blocks (shared t)) = length (blocks (shared s))"
    "\<forall>a < length (blocks (shared s)). blk_tail (blocks (shared t) ! a) = blk_tail (blocks (shared s) ! a) \<and>
       blk_next (blocks (shared t) ! a) = blk_next (blocks (shared s) ! a) \<and>
       blk_size (blocks (shared t) ! a) = blk_size (blocks (shared s) ! a)"
    unfolding p_owned_def bs by (simp_all add: g_def)
  have lt: "v < length (blocks (shared s))" if "v < ring_size s" for v
    using that by (simp add: ring_size_def on_ring_def split: ppc.splits)
  show size: "ring_size t = ring_size s" using own(1) cstep_stores(4) [OF t] by (simp add: ring_size_def)
  show "ring_grows s t" by (rule ring_grows_same [OF size]) (use own lt in simp_all)
  { assume v: "v < ring_size s"
    show "blk_tail (blocks (shared t) ! v) = blk_tail (blocks (shared s) ! v) \<and>
        sizeMask (blocks (shared t) ! v) = sizeMask (blocks (shared s) ! v)"
      using own(2) lt [OF v] by (simp add: sizeMask_def)
    have "length (E' v) \<le> length (E v)" using r by (auto simp: c_ring_step_def split: cpc.splits)
    then show "count_at t v \<le> count_at s v"
      using cinv_count(1) [OF at lt [OF v]] cinv_count(1) [OF at', of v] own(1) lt [OF v] by simp }
qed

lemma ring_grows_size:
  assumes "cinv ly s" and "ring_grows s t"
  shows "ring_size s \<le> ring_size t"
  using cinv_ring_list [OF assms(1)] assms(2) unfolding ring_grows_def by (metis le_refl le_SucI)

section \<open>The three callers\<close>

text \<open>The consumer calls: the producer only adds, so no block holds less than at the start.\<close>

definition from_consumer :: "layout \<Rightarrow> (u64 \<Rightarrow> u64) \<Rightarrow> 'a conc \<Rightarrow> 'a conc \<Rightarrow> bool" where
  "from_consumer ly malloc s0 s \<longleftrightarrow> conc_env_inv ly malloc s \<and> ring_size s0 \<le> ring_size s \<and>
     (\<forall>v < ring_size s0. count_at s0 v \<le> count_at s v)"

interpretation consumer_calls: size_call "\<lambda>(m, x). pstep ly malloc m x" "from_consumer ly malloc s0"
    "\<lambda>s v. if v < ring_size s0 then count_at s0 v else 0" count_at "\<lambda>s v i. i = blk_front (blocks (shared s) ! v)"
  for ly malloc and s0 :: "'a conc"
proof
  fix s :: "'a conc" and a :: "alloc_mode \<times> 'a"
  assume inv: "from_consumer ly malloc s0 s"
  obtain m x where a: "a = (m, x)" by (cases a)
  have c: "cinv ly s" "layout_ok ly" "malloc_ok malloc" using inv by (simp_all add: from_consumer_def conc_env_inv_def)
  obtain t where t: "pstep ly malloc m x s = Inr t" "cinv ly t" by (rule producer_step [OF c])
  note P = producer_counts [OF c t(1)]
  have size: "ring_size s \<le> ring_size t" by (rule ring_grows_size [OF c(1) P(1)])
  have "\<forall>v < ring_size s0. count_at s0 v \<le> count_at t v"
    using inv P(2) by (meson from_consumer_def le_trans less_le_trans)
  then have inv': "from_consumer ly malloc s0 t" using inv size t(2) by (simp add: from_consumer_def conc_env_inv_def)
  have "ring_size s0 \<le> ring_size s" using inv by (simp add: from_consumer_def)
  then show "\<exists>t. (case a of (m, x) \<Rightarrow> pstep ly malloc m x) s = Inr t \<and> from_consumer ly malloc s0 t \<and> ring_grows s t \<and>
      (\<forall>v < ring_size s. (if v < ring_size s0 then count_at s0 v else 0) \<le> (if v < ring_size s0 then count_at s0 v else 0) \<and>
         count_at s v \<le> count_at t v \<and> (\<forall>i. i = blk_front (blocks (shared s) ! v) \<longrightarrow> i = blk_front (blocks (shared t) ! v))) \<and>
      (\<forall>v < ring_size t. ring_size s \<le> v \<longrightarrow> (if v < ring_size s0 then count_at s0 v else 0) = 0)"
    using t(1) inv' P by (intro exI [of _ t]) (simp add: a)
next
  fix s :: "'a conc" and v i
  assume inv: "from_consumer ly malloc s0 s" and v: "v < ring_size s" and i: "i = blk_front (blocks (shared s) ! v)"
  obtain pre post E where at: "cinv_at ly s pre post E"
    using inv by (auto simp: from_consumer_def conc_env_inv_def cinv_def)
  have lt: "v < length (blocks (shared s))" using v by (simp add: ring_size_def on_ring_def split: ppc.splits)
  show "\<exists>k. (blk_tail (blocks (shared s) ! v) - i) AND sizeMask (blocks (shared s) ! v) = of_nat k \<and>
      (if v < ring_size s0 then count_at s0 v else 0) \<le> k \<and> k \<le> count_at s v"
    using cinv_count [OF at lt] inv by (intro exI [of _ "length (E v)"]) (auto simp: i from_consumer_def)
qed simp

text \<open>The producer calls: the consumer only removes, so no block holds more than at the start.\<close>

definition from_producer :: "layout \<Rightarrow> (u64 \<Rightarrow> u64) \<Rightarrow> 'a conc \<Rightarrow> 'a conc \<Rightarrow> bool" where
  "from_producer ly malloc s0 s \<longleftrightarrow> conc_env_inv ly malloc s \<and> ring_size s = ring_size s0 \<and>
     (\<forall>v < ring_size s0. count_at s v \<le> count_at s0 v)"

interpretation producer_calls: size_call cstep "from_producer ly malloc s0" count_at "\<lambda>s. count_at s0"
    "\<lambda>s v i. \<exists>k. (blk_tail (blocks (shared s) ! v) - i) AND sizeMask (blocks (shared s) ! v) = of_nat k \<and>
       count_at s v \<le> k \<and> k \<le> count_at s0 v"
  for ly malloc and s0 :: "'a conc"
proof
  fix s :: "'a conc" and op
  assume inv: "from_producer ly malloc s0 s"
  have c: "cinv ly s" using inv by (simp add: from_producer_def conc_env_inv_def)
  obtain t where t: "cstep op s = Inr t" "cinv ly t" by (rule consumer_step [OF c])
  note C = consumer_counts [OF c t(1)]
  have inv': "from_producer ly malloc s0 t"
    using inv t(2) C(2,3) by (fastforce simp: from_producer_def conc_env_inv_def intro: order_trans)
  show "\<exists>t. cstep op s = Inr t \<and> from_producer ly malloc s0 t \<and> ring_grows s t \<and>
      (\<forall>v < ring_size s. count_at t v \<le> count_at s v \<and> count_at s0 v \<le> count_at s0 v \<and>
         (\<forall>i. (\<exists>k. (blk_tail (blocks (shared s) ! v) - i) AND sizeMask (blocks (shared s) ! v) = of_nat k \<and>
             count_at s v \<le> k \<and> k \<le> count_at s0 v) \<longrightarrow>
           (\<exists>k. (blk_tail (blocks (shared t) ! v) - i) AND sizeMask (blocks (shared t) ! v) = of_nat k \<and>
             count_at t v \<le> k \<and> k \<le> count_at s0 v))) \<and>
      (\<forall>v < ring_size t. ring_size s \<le> v \<longrightarrow> count_at t v = 0)"
    using t(1) inv' C by (intro exI [of _ t]) (auto intro: order_trans)
next
  fix s :: "'a conc" and v
  assume inv: "from_producer ly malloc s0 s" and v: "v < ring_size s"
  obtain pre post E where at: "cinv_at ly s pre post E"
    using inv by (auto simp: from_producer_def conc_env_inv_def cinv_def)
  have lt: "v < length (blocks (shared s))" using v by (simp add: ring_size_def on_ring_def split: ppc.splits)
  show "\<exists>k. (blk_tail (blocks (shared s) ! v) - blk_front (blocks (shared s) ! v)) AND sizeMask (blocks (shared s) ! v) =
      of_nat k \<and> count_at s v \<le> k \<and> k \<le> count_at s0 v"
    using cinv_count [OF at lt] inv v by (intro exI [of _ "length (E v)"]) (auto simp: from_producer_def)
qed simp

text \<open>A third thread calls: nothing is known of the counts.\<close>

interpretation third_calls: size_call "turn_step ly malloc" "conc_env_inv ly malloc" "\<lambda>s v. 0" "\<lambda>s v. 2 ^ 64" "\<lambda>s v i. True"
  for ly malloc
proof
  fix s :: "'a conc" and a
  assume inv: "conc_env_inv ly malloc s"
  have c: "cinv ly s" "layout_ok ly" "malloc_ok malloc" using inv by (simp_all add: conc_env_inv_def)
  obtain t where t: "turn_step ly malloc a s = Inr t" "conc_env_inv ly malloc t" using turn_step_ok [OF inv, of a] by blast
  have "ring_grows s t"
    using t(1) producer_counts(1) [OF c] consumer_counts(1) [OF c(1)] by (cases a) (auto simp: turn_step_def)
  then show "\<exists>t. turn_step ly malloc a s = Inr t \<and> conc_env_inv ly malloc t \<and> ring_grows s t \<and>
      (\<forall>v < ring_size s. (0 :: nat) \<le> 0 \<and> (2 :: nat) ^ 64 \<le> 2 ^ 64 \<and> (\<forall>i :: u64. True \<longrightarrow> True)) \<and>
      (\<forall>v < ring_size t. ring_size s \<le> v \<longrightarrow> (0 :: nat) = 0)"
    using t by simp
next
  fix s :: "'a conc" and v i
  let ?m = "(blk_tail (blocks (shared s) ! v) - i) AND sizeMask (blocks (shared s) ! v)"
  have "unat ?m < 2 ^ LENGTH(64)" by (rule unsigned_less)
  then have "unat ?m \<le> 2 ^ 64" by simp
  then show "\<exists>k. ?m = of_nat k \<and> (0 :: nat) \<le> k \<and> k \<le> 2 ^ 64" by (intro exI [of _ "unat ?m"]) simp
qed simp

end
