(* ===== verification/RW_Size_Properties.thy ===== *)
theory RW_Size_Properties
  imports RW_Size
begin

text \<open>
  What \<open>size_approx\<close> promises while other threads are at work: it returns, and its result lies
  between what the queue held when it was called and what it holds when it returns.
\<close>

lemma conc_reach_env:
  assumes "conc_reach ly s" and "layout_ok ly" and "malloc_ok malloc"
  shows "conc_env_inv ly malloc s"
  using conc_reach_cinv [OF assms(1,2)] assms(2,3) by (simp add: conc_env_inv_def)

text \<open>A queue with one element, and one with three elements in one block.\<close>

definition one :: "nat conc" where
  "one = std_run (replicate 3 (Producer CanAlloc 5))"

lemma one_reach: "conc_reach std_layout one"
  unfolding one_def by (rule std_run_reach)

definition three :: "nat conc" where
  "three = (case conc_run std_layout std_malloc (concat (map (\<lambda>x. replicate 3 (Producer CanAlloc x)) [5, 6, 7]))
     (conc_start (std_queue 3)) of Inr s \<Rightarrow> s)"

text \<open>
  C11. Called from the consumer's thread, \<open>size_approx\<close> returns at least the number of elements
  that were in the queue at the call, and at most the number there are at its return, an
  enqueue that is under way then counting as one; whatever the producer does meanwhile.
\<close>
theorem size_approx_from_consumer:
  assumes "conc_reach ly s" and "layout_ok ly" and "malloc_ok malloc"
    and "run_steps (size_turn_step (\<lambda>(m, x). pstep ly malloc m x)) sched (s, size_begin (shared s)) = Inr (t, S_Return r)"
  shows "\<exists>k. r = of_nat k \<and> length (enq s) - length (deq s) \<le> k \<and>
    k \<le> length (enq t) - length (deq t) + (if ppc t = P_Idle then 0 else 1)"
proof -
  have inv: "from_consumer ly malloc s s" using conc_reach_env [OF assms(1-3)] by (simp add: from_consumer_def)
  have c: "cinv ly s" using conc_reach_cinv [OF assms(1,2)] .
  obtain R where "ring_list s (frontBlock (shared s) # R)" by (rule cinv_ring_list [OF c])
  from consumer_calls.run_near [OF consumer_calls.call_starts [OF inv this], of sched]
  obtain d where near: "consumer_calls.near ly malloc s (t, S_Return r) d" using assms(4) by auto
  then have inv': "from_consumer ly malloc s t" by (simp add: consumer_calls.near_def)
  then have le: "ring_size s \<le> ring_size t" and c': "cinv ly t" by (simp_all add: from_consumer_def conc_env_inv_def)
  have "(\<Sum>v < ring_size t. if v < ring_size s then count_at s v else 0) = (\<Sum>v < ring_size s. count_at s v)"
    using le by (intro sum.mono_neutral_cong_right) auto
  then obtain k where "r = of_nat k" "(\<Sum>v < ring_size s. count_at s v) \<le> k" "k \<le> (\<Sum>v < ring_size t. count_at t v)"
    using consumer_calls.result_between [OF near] by metis
  moreover from this have "length (enq s) - length (deq s) \<le> k"
    "k \<le> length (enq t) - length (deq t) + (if ppc t = P_Idle then 0 else 1)"
    using ring_total(1) [OF c] ring_total(2) [OF c'] by linarith+
  ultimately show ?thesis by blast
qed

theorem size_approx_from_consumer_witness:
  "\<exists>k. (1 :: u64) = of_nat k \<and> length [5 :: nat] \<le> k \<and> k \<le> length [5 :: nat] + 1"
proof -
  let ?run = "run_steps (size_turn_step (\<lambda>(m, x). pstep std_layout std_malloc m x))
      [Reader, Other (CanAlloc, 7), Reader, Reader] (one, size_begin (shared one))"
  have "case ?run of Inr (t, z) \<Rightarrow> z = S_Return 1 \<and> enq t = [5] \<and> deq t = [] \<and> ppc t \<noteq> P_Idle | Inl _ \<Rightarrow> False"
    by code_simp
  then obtain t where run: "?run = Inr (t, S_Return 1)" and t: "enq t = [5]" "deq t = []" "ppc t \<noteq> P_Idle"
    by (auto split: sum.splits)
  have "enq one = [5]" "deq one = []" by code_simp+
  then show ?thesis using size_approx_from_consumer [OF one_reach std_ok run] t by simp
qed

text \<open>
  Called from the producer's thread, outside its other calls, it returns at most the number of
  elements at the call and at least the number there are at its return.
\<close>
theorem size_approx_from_producer:
  assumes "conc_reach ly s" and "layout_ok ly" and "ppc s = P_Idle"
    and "run_steps (size_turn_step cstep) sched (s, size_begin (shared s)) = Inr (t, S_Return r)"
  shows "\<exists>k. r = of_nat k \<and> length (enq t) - length (deq t) \<le> k \<and> k \<le> length (enq s) - length (deq s)"
proof -
  have c: "cinv ly s" using conc_reach_cinv [OF assms(1,2)] .
  have inv: "from_producer ly std_malloc s s"
    using conc_reach_env [OF assms(1,2) std_ok(2)] by (simp add: from_producer_def)
  obtain R where "ring_list s (frontBlock (shared s) # R)" by (rule cinv_ring_list [OF c])
  from producer_calls.run_near [OF producer_calls.call_starts [OF inv this], of sched]
  obtain d where near: "producer_calls.near ly std_malloc s (t, S_Return r) d" using assms(4) by auto
  then have inv': "from_producer ly std_malloc s t" by (simp add: producer_calls.near_def)
  then have eq: "ring_size t = ring_size s" and c': "cinv ly t" by (simp_all add: from_producer_def conc_env_inv_def)
  obtain k where "r = of_nat k" "(\<Sum>v < ring_size t. count_at t v) \<le> k" "k \<le> (\<Sum>v < ring_size s. count_at s v)"
    using producer_calls.result_between [OF near] unfolding eq by metis
  moreover from this have "length (enq t) - length (deq t) \<le> k" "k \<le> length (enq s) - length (deq s)"
    using ring_total(1) [OF c'] ring_total(2) [OF c] assms(3) by (simp_all split: if_splits)
  ultimately show ?thesis by blast
qed

theorem size_approx_from_producer_witness:
  "\<exists>k. (1 :: u64) = of_nat k \<and> length ([] :: nat list) \<le> k \<and> k \<le> length [5 :: nat]"
proof -
  let ?run = "run_steps (size_turn_step cstep) (Reader # replicate 4 (Other Try_Dequeue) @ [Reader, Reader]) (one, size_begin (shared one))"
  have "case ?run of Inr (t, z) \<Rightarrow> z = S_Return 1 \<and> enq t = [5] \<and> deq t = [5] | Inl _ \<Rightarrow> False"
    by code_simp
  then obtain t where run: "?run = Inr (t, S_Return 1)" and t: "enq t = [5]" "deq t = [5]"
    by (auto split: sum.splits)
  have "enq one = [5]" "deq one = []" "ppc one = P_Idle" by code_simp+
  then show ?thesis using size_approx_from_producer [OF one_reach std_ok(1) _ run] t by auto
qed

text \<open>
  C12. It returns, from whatever thread it is called and whatever the two others do, without a
  fault: three steps for each block of the ring are enough, and three more for each step of the
  others, which may link a block in.
\<close>
theorem size_approx_returns:
  assumes "conc_reach ly s" and "layout_ok ly" and "malloc_ok malloc"
    and "3 * ring_size s + 3 * length (filter (\<lambda>a. \<not> is_reader a) sched) \<le> length (filter is_reader sched)"
  shows "\<exists>k \<le> length sched. \<exists>t r.
    run_steps (size_turn_step (turn_step ly malloc)) (take k sched) (s, size_begin (shared s)) = Inr (t, S_Return r)"
proof -
  obtain R where "ring_list s (frontBlock (shared s) # R)"
    by (rule cinv_ring_list [OF conc_reach_cinv [OF assms(1,2)]])
  from third_calls.call_starts [OF conc_reach_env [OF assms(1-3)] this]
  obtain k t where "k \<le> length sched" and "size_returned t"
    and "run_steps (size_turn_step (turn_step ly malloc)) (take k sched) (s, size_begin (shared s)) = Inr t"
    using third_calls.call.comes_near assms(4) by blast
  then show ?thesis by (cases t) (auto simp: size_returned_def)
qed

theorem size_approx_returns_witness:
  "\<exists>k \<le> 8. \<exists>t r. run_steps (size_turn_step (turn_step std_layout std_malloc))
     (take k (Reader # Other (Producer CanAlloc 7) # replicate 6 Reader)) (one, size_begin (shared one)) = Inr (t, S_Return r)"
proof -
  have "ring_size one = 1" by code_simp
  then show ?thesis
    using size_approx_returns [OF one_reach std_ok, of "Reader # Other (Producer CanAlloc 7) # replicate 6 Reader"]
    by (simp add: numeral_eq_Suc)
qed

text \<open>
  The header allows the call from the two threads of the queue only. From a third one it may
  return 0 although the queue never holds fewer than two elements: here it has read the front of a full block
  when the consumer takes an element and the producer adds one.
\<close>
theorem size_approx_from_third_thread:
  "let s = three;
       (t, z) = projr (run_steps (size_turn_step (turn_step std_layout std_malloc))
         ([Reader] @ map Other (replicate 4 (Consumer Try_Dequeue) @ replicate 3 (Producer CanAlloc 8)) @ [Reader, Reader])
         (s, size_begin (shared s)))
   in enq s = [5, 6, 7] \<and> deq s = [] \<and> enq t = [5, 6, 7, 8] \<and> deq t = [5] \<and> z = S_Return 0"
  by code_simp

end
