(* ===== verification/Atomicops.thy ===== *)
theory Atomicops
  imports RW_Concurrent
begin

text \<open>
  \<open>include/qing/util/atomicops.h\<close>: which build the header detects, what its two fences are made
  of on each build, and the atomic variable of the queue. The queue's fences, by program point
  of \<open>RW_Concurrent\<close>, are here too. What the processor and its instructions guarantee is not in
  the source: it is a parameter, with the documented facts the header relies on as hypotheses.
\<close>

section \<open>The build\<close>

datatype compiler = AE_ICC | AE_VCPP | AE_GCC | Other_Compiler

datatype arch = AE_ARCH_IA64 | AE_ARCH_X64 | AE_ARCH_X86 | AE_ARCH_PPC | AE_ARCH_UNKNOWN

text \<open>Both are read off the macros that the compiler defines.\<close>

definition detect_compiler :: "string list \<Rightarrow> compiler" where
  "detect_compiler ds =
     (if ''__INTEL_COMPILER'' \<in> set ds then AE_ICC
      else if ''_MSC_VER'' \<in> set ds then AE_VCPP
      else if ''__GNUC__'' \<in> set ds then AE_GCC
      else Other_Compiler)"

definition detect_arch :: "string list \<Rightarrow> arch" where
  "detect_arch ds =
     (if ''_M_IA64'' \<in> set ds \<or> ''__ia64__'' \<in> set ds then AE_ARCH_IA64
      else if ''_WIN64'' \<in> set ds \<or> ''__amd64__'' \<in> set ds \<or> ''_M_X64'' \<in> set ds \<or> ''__x86_64__'' \<in> set ds then AE_ARCH_X64
      else if ''_M_IX86'' \<in> set ds \<or> ''__i386__'' \<in> set ds then AE_ARCH_X86
      else if ''_M_PPC'' \<in> set ds \<or> ''__powerpc__'' \<in> set ds then AE_ARCH_PPC
      else AE_ARCH_UNKNOWN)"

definition own_fences :: "compiler \<Rightarrow> bool" where
  "own_fences c \<longleftrightarrow> c = AE_VCPP \<or> c = AE_ICC"

section \<open>The fences\<close>

datatype memory_order =
    memory_order_relaxed
  | memory_order_acquire
  | memory_order_release
  | memory_order_acq_rel
  | memory_order_seq_cst

definition memory_order_sync :: memory_order where
  "memory_order_sync = memory_order_seq_cst"

datatype instr = Mm_mfence | Mf | Sync | Lwsync

text \<open>A fence is a list of these: barriers for the compiler, an instruction, or a standard fence.\<close>

datatype barrier =
    ReadBarrier
  | WriteBarrier
  | ReadWriteBarrier
  | Instr instr
  | Atomic_Signal_Fence memory_order
  | Atomic_Thread_Fence memory_order

definition AeFullSync :: "arch \<Rightarrow> instr option" where
  "AeFullSync a = (case a of
     AE_ARCH_X64 \<Rightarrow> Some Mm_mfence | AE_ARCH_X86 \<Rightarrow> Some Mm_mfence | AE_ARCH_IA64 \<Rightarrow> Some Mf
   | AE_ARCH_PPC \<Rightarrow> Some Sync | AE_ARCH_UNKNOWN \<Rightarrow> None)"

definition AeLiteSync :: "arch \<Rightarrow> instr option" where
  "AeLiteSync a = (case a of
     AE_ARCH_X64 \<Rightarrow> Some Mm_mfence | AE_ARCH_X86 \<Rightarrow> Some Mm_mfence | AE_ARCH_IA64 \<Rightarrow> Some Mf
   | AE_ARCH_PPC \<Rightarrow> Some Lwsync | AE_ARCH_UNKNOWN \<Rightarrow> None)"

fun own_compiler_fence :: "memory_order \<Rightarrow> barrier list" where
  "own_compiler_fence memory_order_relaxed = []"
| "own_compiler_fence memory_order_acquire = [ReadBarrier]"
| "own_compiler_fence memory_order_release = [WriteBarrier]"
| "own_compiler_fence memory_order_acq_rel = [ReadWriteBarrier]"
| "own_compiler_fence memory_order_seq_cst = [ReadWriteBarrier]"

fun std_compiler_fence :: "memory_order \<Rightarrow> barrier list" where
  "std_compiler_fence memory_order_relaxed = []"
| "std_compiler_fence memory_order_acquire = [Atomic_Signal_Fence memory_order_acquire]"
| "std_compiler_fence memory_order_release = [Atomic_Signal_Fence memory_order_release]"
| "std_compiler_fence memory_order_acq_rel = [Atomic_Signal_Fence memory_order_acq_rel]"
| "std_compiler_fence memory_order_seq_cst = [Atomic_Signal_Fence memory_order_seq_cst]"

definition compiler_fence :: "compiler \<Rightarrow> memory_order \<Rightarrow> barrier list" where
  "compiler_fence c ord = (if own_fences c then own_compiler_fence ord else std_compiler_fence ord)"

text \<open>\<open>full\<close> and \<open>lite\<close> are the instructions that the two macros name.\<close>

fun x86_fence :: "instr \<Rightarrow> memory_order \<Rightarrow> barrier list" where
  "x86_fence full memory_order_relaxed = []"
| "x86_fence full memory_order_acquire = [ReadBarrier]"
| "x86_fence full memory_order_release = [WriteBarrier]"
| "x86_fence full memory_order_acq_rel = [ReadWriteBarrier]"
| "x86_fence full memory_order_seq_cst = [ReadWriteBarrier, Instr full, ReadWriteBarrier]"

fun heavy_fence :: "instr \<Rightarrow> instr \<Rightarrow> memory_order \<Rightarrow> barrier list" where
  "heavy_fence full lite memory_order_relaxed = []"
| "heavy_fence full lite memory_order_acquire = [ReadBarrier, Instr lite, ReadBarrier]"
| "heavy_fence full lite memory_order_release = [WriteBarrier, Instr lite, WriteBarrier]"
| "heavy_fence full lite memory_order_acq_rel = [ReadWriteBarrier, Instr lite, ReadWriteBarrier]"
| "heavy_fence full lite memory_order_seq_cst = [ReadWriteBarrier, Instr full, ReadWriteBarrier]"

fun std_fence :: "memory_order \<Rightarrow> barrier list" where
  "std_fence memory_order_relaxed = []"
| "std_fence memory_order_acquire = [Atomic_Thread_Fence memory_order_acquire]"
| "std_fence memory_order_release = [Atomic_Thread_Fence memory_order_release]"
| "std_fence memory_order_acq_rel = [Atomic_Thread_Fence memory_order_acq_rel]"
| "std_fence memory_order_seq_cst = [Atomic_Thread_Fence memory_order_seq_cst]"

text \<open>
  \<open>None\<close>: the function does not compile, since it names a macro that is not defined; a name in a
  function that is no template must be defined also where the branch is not taken.
\<close>

definition fence :: "compiler \<Rightarrow> arch \<Rightarrow> memory_order \<Rightarrow> barrier list option" where
  "fence c a ord =
     (if own_fences c
      then if a = AE_ARCH_X86 \<or> a = AE_ARCH_X64
           then (case AeFullSync a of None \<Rightarrow> None | Some full \<Rightarrow> Some (x86_fence full ord))
           else (case (AeFullSync a, AeLiteSync a) of
                   (Some full, Some lite) \<Rightarrow> Some (heavy_fence full lite ord)
                 | _ \<Rightarrow> None)
      else Some (std_fence ord))"

section \<open>The atomic variable\<close>

text \<open>
  \<open>std::atomic\<close>, with relaxed loads and stores, or a volatile variable on an old Visual C++ (a
  version below 1700 has no \<open>std::atomic\<close>). Both hold a value that is read and written as a whole.
\<close>

datatype 'a weak_atomic = Std_Atomic 'a | Volatile 'a

definition use_std_atomic :: "compiler \<Rightarrow> nat \<Rightarrow> bool" where
  "use_std_atomic c msc_ver \<longleftrightarrow> c \<noteq> AE_VCPP \<or> 1700 \<le> msc_ver"

definition make_weak_atomic :: "compiler \<Rightarrow> nat \<Rightarrow> 'a \<Rightarrow> 'a weak_atomic" where
  "make_weak_atomic c msc_ver x = (if use_std_atomic c msc_ver then Std_Atomic x else Volatile x)"

fun load :: "'a weak_atomic \<Rightarrow> 'a" where
  "load (Std_Atomic x) = x"
| "load (Volatile x) = x"

fun store :: "'a \<Rightarrow> 'a weak_atomic \<Rightarrow> 'a weak_atomic" where
  "store x (Std_Atomic _) = Std_Atomic x"
| "store x (Volatile _) = Volatile x"

definition assign :: "'a weak_atomic \<Rightarrow> 'a weak_atomic \<Rightarrow> 'a weak_atomic" where
  "assign other w = store (load other) w"

lemma load_store [simp]: "load (store x w) = x" "load (assign v w) = load v"
  by (cases w; simp add: assign_def)+

section \<open>What a fence orders\<close>

text \<open>The pairs of accesses, the earlier one first, that an order keeps in order.\<close>

datatype reordering = LoadLoad | LoadStore | StoreStore | StoreLoad

fun required :: "memory_order \<Rightarrow> reordering set" where
  "required memory_order_relaxed = {}"
| "required memory_order_acquire = {LoadLoad, LoadStore}"
| "required memory_order_release = {LoadStore, StoreStore}"
| "required memory_order_acq_rel = {LoadLoad, LoadStore, StoreStore}"
| "required memory_order_seq_cst = {LoadLoad, LoadStore, StoreStore, StoreLoad}"

text \<open>
  A program is a list of accesses and parts of fences, each with a number of its own. It is
  reordered twice. The compiler swaps neighbours: two accesses at will, an access and a part of
  a fence only if the access may sink below the part, or rise above it; it keeps the order of
  the parts.
\<close>

datatype access = Load | Store

datatype op = Access access | Part barrier

type_synonym item = "nat \<times> op"

record compiler_rules =
  sinks :: "barrier \<Rightarrow> access \<Rightarrow> bool"
  rises :: "barrier \<Rightarrow> access \<Rightarrow> bool"

definition swappable :: "compiler_rules \<Rightarrow> op \<Rightarrow> op \<Rightarrow> bool" where
  "swappable r x y = (case (x, y) of
     (Access _, Access _) \<Rightarrow> True
   | (Access k, Part b) \<Rightarrow> sinks r b k
   | (Part b, Access k) \<Rightarrow> rises r b k
   | (Part _, Part _) \<Rightarrow> False)"

inductive compiles :: "compiler_rules \<Rightarrow> item list \<Rightarrow> item list \<Rightarrow> bool" for r where
  same: "compiles r p p"
| swap: "\<lbrakk> compiles r p (us @ x # y # vs); swappable r (snd x) (snd y) \<rbrakk> \<Longrightarrow> compiles r p (us @ y # x # vs)"

definition before :: "'a list \<Rightarrow> 'a \<Rightarrow> 'a \<Rightarrow> bool" where
  "before p x y \<longleftrightarrow> (\<exists>us vs ws. p = us @ x # vs @ y # ws)"

text \<open>
  The processor executes the compiled accesses in an order \<open>e\<close>. Two of them stay in order if the
  processor does not make that reordering, or an instruction or a fence of the standard library
  between them excludes it.
\<close>

record machine =
  relaxes :: "arch \<Rightarrow> reordering set"
  excludes :: "barrier \<Rightarrow> reordering set"

fun pair_of :: "access \<Rightarrow> access \<Rightarrow> reordering" where
  "pair_of Load Load = LoadLoad"
| "pair_of Load Store = LoadStore"
| "pair_of Store Store = StoreStore"
| "pair_of Store Load = StoreLoad"

definition executes :: "machine \<Rightarrow> arch \<Rightarrow> item list \<Rightarrow> item list \<Rightarrow> bool" where
  "executes m a p e \<longleftrightarrow> (\<forall>x y k l. snd x = Access k \<and> snd y = Access l \<and> before p x y \<and>
     (pair_of k l \<notin> relaxes m a \<or>
      (\<exists>f b. snd f = Part b \<and> before p x f \<and> before p f y \<and> pair_of k l \<in> excludes m b)) \<longrightarrow> before e x y)"

text \<open>
  What the header relies on. Of the compiler: no load sinks below a read barrier and nothing rises above it;
  nothing sinks below a write barrier and no store rises above it; nothing crosses a read-write barrier;
  and a standard fence is a read barrier if it acquires, a write barrier if it releases.
  Nothing is supposed of an instruction: the compiler may move accesses across it.
\<close>

definition acquires :: "memory_order \<Rightarrow> bool" where
  "acquires ord \<longleftrightarrow> ord \<in> {memory_order_acquire, memory_order_acq_rel, memory_order_seq_cst}"

definition releases :: "memory_order \<Rightarrow> bool" where
  "releases ord \<longleftrightarrow> ord \<in> {memory_order_release, memory_order_acq_rel, memory_order_seq_cst}"

definition read_barrier :: "compiler_rules \<Rightarrow> barrier \<Rightarrow> bool" where
  "read_barrier r b \<longleftrightarrow> \<not> sinks r b Load \<and> (\<forall>k. \<not> rises r b k)"

definition write_barrier :: "compiler_rules \<Rightarrow> barrier \<Rightarrow> bool" where
  "write_barrier r b \<longleftrightarrow> (\<forall>k. \<not> sinks r b k) \<and> \<not> rises r b Store"

definition compiler_ok :: "compiler_rules \<Rightarrow> bool" where
  "compiler_ok r \<longleftrightarrow> read_barrier r ReadBarrier \<and> write_barrier r WriteBarrier \<and>
     read_barrier r ReadWriteBarrier \<and> write_barrier r ReadWriteBarrier \<and>
     (\<forall>ord. acquires ord \<longrightarrow> read_barrier r (Atomic_Signal_Fence ord) \<and> read_barrier r (Atomic_Thread_Fence ord)) \<and>
     (\<forall>ord. releases ord \<longrightarrow> write_barrier r (Atomic_Signal_Fence ord) \<and> write_barrier r (Atomic_Thread_Fence ord))"

text \<open>
  Of the processors, what their manuals say: x86 only delays stores past loads, \<open>lwsync\<close> orders
  all but that, the other instructions order everything. A compiler barrier is supposed to do
  nothing to the processor. The standard fence of an order is compiled to what orders its pairs.
\<close>

definition machine_ok :: "machine \<Rightarrow> bool" where
  "machine_ok m \<longleftrightarrow>
     relaxes m AE_ARCH_X86 \<subseteq> {StoreLoad} \<and> relaxes m AE_ARCH_X64 \<subseteq> {StoreLoad} \<and>
     (\<forall>i. {LoadLoad, LoadStore, StoreStore} \<subseteq> excludes m (Instr i) \<and> (StoreLoad \<in> excludes m (Instr i) \<or> i = Lwsync)) \<and>
     (\<forall>ord. required ord \<subseteq> excludes m (Atomic_Thread_Fence ord))"

text \<open>The accesses before a fence and those after it, around it in a program.\<close>

definition fenced :: "item list \<Rightarrow> barrier list \<Rightarrow> item list \<Rightarrow> item list \<Rightarrow> bool" where
  "fenced pre bs post p \<longleftrightarrow> distinct p \<and>
     (\<exists>fs. p = pre @ fs @ post \<and> map snd fs = map Part bs)"

lemma beforeI: "before (us @ x # vs @ y # ws) x y"
  by (auto simp: before_def)

lemma before_in_append: "x \<in> set us \<Longrightarrow> y \<in> set vs \<Longrightarrow> before (us @ vs) x y"
proof -
  assume "x \<in> set us" "y \<in> set vs"
  then obtain u1 u2 v1 v2 where "us = u1 @ x # u2" "vs = v1 @ y # v2" by (meson split_list)
  then show ?thesis using beforeI [of u1 x "u2 @ v1" y v2] by simp
qed

lemma before_Nil [simp]: "\<not> before [] x y"
  by (simp add: before_def)

lemma before_Cons [simp]: "before (z # p) x y \<longleftrightarrow> x = z \<and> y \<in> set p \<or> before p x y"
proof
  assume "before (z # p) x y"
  then obtain us vs ws where "z # p = us @ x # vs @ y # ws" by (auto simp: before_def)
  then show "x = z \<and> y \<in> set p \<or> before p x y" by (cases us) (auto simp: before_def)
next
  assume "x = z \<and> y \<in> set p \<or> before p x y"
  then show "before (z # p) x y"
  proof
    assume "x = z \<and> y \<in> set p"
    then show ?thesis using before_in_append [of x "[z]" y p] by simp
  next
    assume "before p x y"
    then obtain us vs ws where "p = us @ x # vs @ y # ws" by (auto simp: before_def)
    then show ?thesis using beforeI [of "z # us" x vs y ws] by simp
  qed
qed

lemma before_nth: "before p x y \<longleftrightarrow> (\<exists>i j. i < j \<and> j < length p \<and> p ! i = x \<and> p ! j = y)"
proof
  assume "before p x y"
  then obtain us vs ws where p: "p = us @ x # vs @ y # ws" by (auto simp: before_def)
  have "p ! length us = x" "p ! (length us + Suc (length vs)) = y" by (simp_all add: p nth_append)
  then show "\<exists>i j. i < j \<and> j < length p \<and> p ! i = x \<and> p ! j = y"
    by (intro exI [of _ "length us"] exI [of _ "length us + Suc (length vs)"]) (simp add: p)
next
  assume "\<exists>i j. i < j \<and> j < length p \<and> p ! i = x \<and> p ! j = y"
  then obtain i j where ij: "i < j" "j < length p" "p ! i = x" "p ! j = y" by blast
  have "x \<in> set (take (Suc i) p)" using ij by (auto simp: take_Suc_conv_app_nth)
  moreover have "drop (Suc i) p ! (j - Suc i) = y" "j - Suc i < length (drop (Suc i) p)" using ij by simp_all
  then have "y \<in> set (drop (Suc i) p)" by (metis nth_mem)
  ultimately show "before p x y" using before_in_append [of x "take (Suc i) p" y "drop (Suc i) p"] by simp
qed

lemma before_trans:
  assumes "distinct p" and "before p x y" and "before p y z"
  shows "before p x z"
proof -
  obtain i j where a: "i < j" "j < length p" "p ! i = x" "p ! j = y" using assms(2) by (auto simp: before_nth)
  obtain k l where b: "k < l" "l < length p" "p ! k = y" "p ! l = z" using assms(3) by (auto simp: before_nth)
  have "k < length p" using b by simp
  then have "k = j" using a(2,4) b(3) assms(1) nth_eq_iff_index_eq by metis
  then have "i < l" using a(1) b(1) by simp
  then show ?thesis using a(3) b(2,4) by (auto simp: before_nth)
qed

lemma before_swap:
  assumes "before (us @ u # v # vs) x y" and "(x, y) \<noteq> (u, v)" and "distinct (us @ u # v # vs)"
  shows "before (us @ v # u # vs) x y"
proof -
  let ?p = "us @ u # v # vs" and ?q = "us @ v # u # vs" and ?n = "length us"
  define f where "f i = (if i = ?n then Suc ?n else if i = Suc ?n then ?n else i)" for i
  have q: "?q ! f i = ?p ! i" for i by (auto simp: f_def nth_append nth_Cons')
  obtain i j where ij: "i < j" "j < length ?p" "?p ! i = x" "?p ! j = y" using assms(1) by (auto simp: before_nth)
  have "\<not> (i = ?n \<and> j = Suc ?n)" using ij(3,4) assms(2) by (auto simp: nth_append)
  then have "f i < f j" using ij(1) by (auto simp: f_def)
  moreover have "f j < length ?q" using ij(2) by (auto simp: f_def)
  ultimately show ?thesis using q ij(3,4) by (metis before_nth)
qed

text \<open>What may not be swapped stays in order.\<close>

lemma compiles_order:
  assumes "compiles r p q" and "distinct p"
  shows "distinct q \<and> (before p x y \<longrightarrow> \<not> swappable r (snd x) (snd y) \<longrightarrow> before q x y)"
  using assms
proof (induction rule: compiles.induct)
  case (swap p us u v vs)
  have d: "distinct (us @ u # v # vs)" using swap by blast
  have "before (us @ v # u # vs) x y" if "before p x y" "\<not> swappable r (snd x) (snd y)"
    using before_swap [OF _ _ d, of x y] swap that by auto
  then show ?case using d by auto
qed simp

lemma compiles_keeps:
  assumes "compiles r p q" and "distinct p" and "before p x y" and "\<not> swappable r (snd x) (snd y)"
  shows "before q x y"
  using compiles_order [OF assms(1,2)] assms(3,4) by blast

section \<open>The fences of the queue\<close>

text \<open>The fences that a thread passes in the step that leads from one program point to another.\<close>

definition p_fences :: "'a ppc \<Rightarrow> memory_order list" where
  "p_fences p' = (case p' of
     P_Checked _ _ _ _ _ \<Rightarrow> [memory_order_acquire]
   | P_Publish _ _ _ \<Rightarrow> [memory_order_release]
   | P_Next _ _ \<Rightarrow> [memory_order_acquire]
   | P_Next_Tail _ _ _ \<Rightarrow> [memory_order_acquire]
   | P_Next_Block _ _ \<Rightarrow> [memory_order_release]
   | P_New_Block _ _ \<Rightarrow> [memory_order_release]
   | _ \<Rightarrow> [])"

definition c_fences :: "'a cpc \<Rightarrow> 'a cpc \<Rightarrow> memory_order list" where
  "c_fences c c' = (case c of
     C_Tail _ _ _ \<Rightarrow> [memory_order_acquire]
   | C_Take _ _ _ \<Rightarrow> [memory_order_release]
   | C_Advance _ _ \<Rightarrow>
       memory_order_acquire # (case c' of C_Move _ _ _ \<Rightarrow> [memory_order_release] | _ \<Rightarrow> [])
   | _ \<Rightarrow> (case c' of C_Tail _ _ _ \<Rightarrow> [memory_order_acquire] | _ \<Rightarrow> []))"

section \<open>Properties\<close>

text \<open>
  An access before a fence that may not sink below its first part, and one after it that may not
  rise above its last, stay on their sides of all its parts.
\<close>

definition held :: "compiler_rules \<Rightarrow> barrier list \<Rightarrow> access \<Rightarrow> access \<Rightarrow> bool" where
  "held r bs k l \<longleftrightarrow> bs \<noteq> [] \<and> \<not> sinks r (hd bs) k \<and> \<not> rises r (last bs) l"

lemma held_apart:
  assumes "held r bs k l" and "fenced pre bs post p" and "compiles r p q"
    and x: "x \<in> set pre" "snd x = Access k" and y: "y \<in> set post" "snd y = Access l"
  shows "before q x y" and "\<And>b. b \<in> set bs \<Longrightarrow> \<exists>f. snd f = Part b \<and> before q x f \<and> before q f y"
proof -
  obtain fs where p: "p = pre @ fs @ post" "map snd fs = map Part bs" and d: "distinct p"
    using assms(2) by (auto simp: fenced_def)
  have dq: "distinct q" using compiles_order [OF assms(3) d] by blast
  have ne: "fs \<noteq> []" using assms(1) p(2) by (auto simp: held_def)
  have h: "snd (hd fs) = Part (hd bs)" "snd (last fs) = Part (last bs)"
    using p(2) ne assms(1) by (metis hd_map held_def, metis last_map held_def)
  have mem: "hd fs \<in> set fs" "last fs \<in> set fs" using ne by simp_all
  have first: "before q x (hd fs)"
    by (rule compiles_keeps [OF assms(3) d])
      (use before_in_append [of x pre "hd fs" "fs @ post"] x mem h assms(1) in \<open>simp_all add: p swappable_def held_def\<close>)
  have final: "before q (last fs) y"
    by (rule compiles_keeps [OF assms(3) d])
      (use before_in_append [of "last fs" "pre @ fs" y post] y mem h assms(1) in \<open>simp_all add: p swappable_def held_def\<close>)
  have parts: "before q f g" if "before p f g" "f \<in> set fs" "g \<in> set fs" for f g
  proof -
    have "\<exists>b. snd f = Part b" "\<exists>b. snd g = Part b" using that(2,3) p(2) by (metis image_iff set_map)+
    then show ?thesis by (intro compiles_keeps [OF assms(3) d that(1)]) (auto simp: swappable_def)
  qed
  have all: "before q x f \<and> before q f y" if f: "f \<in> set fs" for f
  proof -
    have "f = hd fs \<or> before fs (hd fs) f"
      using f ne by (cases fs) (auto simp: before_in_append [of _ "[_]", simplified])
    moreover have "f = last fs \<or> before fs f (last fs)"
      using f ne by (cases fs rule: rev_cases) (auto simp: before_in_append [of _ _ _ "[_]", simplified])
    moreover have "before p u v" if b: "before fs u v" for u v
    proof -
      obtain us vs ws where "fs = us @ u # vs @ v # ws" using b by (auto simp: before_def)
      then show ?thesis using beforeI [of "pre @ us" u vs v "ws @ post"] by (simp add: p)
    qed
    ultimately have "f = hd fs \<or> before q (hd fs) f" "f = last fs \<or> before q f (last fs)"
      using parts f mem by blast+
    then show ?thesis using before_trans [OF dq] first final by metis
  qed
  show "before q x y" using all [OF mem(1)] before_trans [OF dq] by blast
  show "\<exists>f. snd f = Part b \<and> before q x f \<and> before q f y" if b: "b \<in> set bs" for b
  proof -
    obtain f where "f \<in> set fs" "snd f = Part b" using b p(2) by (metis image_iff set_map)
    then show ?thesis using all by blast
  qed
qed

text \<open>The two levels of every fence: where the compiler leaves the accesses, and what orders them there.\<close>

lemma required_pair: "pair_of k l \<in> required ord \<Longrightarrow>
    (acquires ord \<and> k = Load \<or> releases ord \<and> l = Store \<or> acquires ord \<and> releases ord)"
  by (cases ord; cases k; cases l) (simp_all add: acquires_def releases_def)

lemma fence_held:
  assumes "compiler_ok r" and "fence c a ord = Some bs \<or> compiler_fence c ord = bs" and "pair_of k l \<in> required ord"
  shows "held r bs k l"
  using assms
  by (cases ord; cases k; cases l)
    (auto simp: fence_def compiler_fence_def held_def compiler_ok_def read_barrier_def write_barrier_def
      acquires_def releases_def split: if_splits option.splits)

lemma fence_excludes:
  assumes "machine_ok m" and "fence c a ord = Some bs" and "pair_of k l \<in> required ord"
  shows "pair_of k l \<notin> relaxes m a \<or> (\<exists>b \<in> set bs. pair_of k l \<in> excludes m b)"
proof (cases "own_fences c")
  case True
  then show ?thesis
    using assms
    by (cases a; cases ord; cases k; cases l) (auto simp: fence_def AeFullSync_def AeLiteSync_def machine_ok_def)
next
  case False
  then have "bs = std_fence ord" using assms(2) by (simp add: fence_def)
  then have "Atomic_Thread_Fence ord \<in> set bs" using assms(3) by (cases ord) simp_all
  moreover have "pair_of k l \<in> excludes m (Atomic_Thread_Fence ord)" using assms(1,3) by (auto simp: machine_ok_def)
  ultimately show ?thesis by blast
qed

text \<open>
  C17. Every fence that the header defines orders what its argument asks for, on every build.
  In a program with a fence between two accesses, whatever the compiler does to the program
  and whatever order the processor then executes the accesses in, the one before the fence is
  executed before the one after it, if their pair is one of those of the memory order. It needs
  both the barriers, which hold the compiler, and the instruction, where the processor makes
  the reordering.
\<close>
theorem fence_orders:
  assumes "machine_ok m" and "compiler_ok r" and "fence c a ord = Some bs"
    and "fenced pre bs post p" and "compiles r p q" and "executes m a q e"
    and "x \<in> set pre" and "snd x = Access k" and "y \<in> set post" and "snd y = Access l"
    and "pair_of k l \<in> required ord"
  shows "before e x y"
proof -
  have "held r bs k l" using fence_held [OF assms(2)] assms(3,11) by blast
  note H = held_apart [OF this assms(4,5,7-10)]
  have "pair_of k l \<notin> relaxes m a \<or> (\<exists>f b. snd f = Part b \<and> before q x f \<and> before q f y \<and> pair_of k l \<in> excludes m b)"
    using fence_excludes [OF assms(1,3,11)] H(2) by blast
  then show ?thesis using assms(6,8,10) H(1) unfolding executes_def by blast
qed

text \<open>
  A machine and a compiler of the witness: x86 delays stores, the other processors reorder
  everything; the compiler moves what it may.
\<close>

definition std_machine :: machine where
  "std_machine = \<lparr>relaxes = (\<lambda>a. if a = AE_ARCH_X86 \<or> a = AE_ARCH_X64 then {StoreLoad} else {LoadLoad, LoadStore, StoreStore, StoreLoad}),
     excludes = (\<lambda>b. case b of
         Instr i \<Rightarrow> if i = Lwsync then {LoadLoad, LoadStore, StoreStore} else {LoadLoad, LoadStore, StoreStore, StoreLoad}
       | Atomic_Thread_Fence ord \<Rightarrow> required ord
       | _ \<Rightarrow> {})\<rparr>"

definition std_rules :: compiler_rules where
  "std_rules = \<lparr>sinks = (\<lambda>b k. case b of
       ReadBarrier \<Rightarrow> k = Store | WriteBarrier \<Rightarrow> False | ReadWriteBarrier \<Rightarrow> False | Instr _ \<Rightarrow> True
     | Atomic_Signal_Fence ord \<Rightarrow> \<not> releases ord \<and> (acquires ord \<longrightarrow> k = Store)
     | Atomic_Thread_Fence ord \<Rightarrow> \<not> releases ord \<and> (acquires ord \<longrightarrow> k = Store)),
   rises = (\<lambda>b k. case b of
       ReadBarrier \<Rightarrow> False | WriteBarrier \<Rightarrow> k = Load | ReadWriteBarrier \<Rightarrow> False | Instr _ \<Rightarrow> True
     | Atomic_Signal_Fence ord \<Rightarrow> \<not> acquires ord \<and> (releases ord \<longrightarrow> k = Load)
     | Atomic_Thread_Fence ord \<Rightarrow> \<not> acquires ord \<and> (releases ord \<longrightarrow> k = Load))\<rparr>"

lemma std_rules_ok: "compiler_ok std_rules" "machine_ok std_machine"
  by (simp_all add: compiler_ok_def read_barrier_def write_barrier_def std_rules_def machine_ok_def std_machine_def
      acquires_def releases_def)

text \<open>
  A release on PowerPC: a store to an element, the fence, the store that publishes it, and a load
  that the compiler has moved up across the fence. The processor executes the load first.
\<close>

theorem fence_orders_witness:
  "before [(5, Access Load), (1, Access Store), (6 :: nat, Access Store)] (1, Access Store) (6, Access Store)"
proof -
  let ?f = "[(2, Part WriteBarrier), (3, Part (Instr Lwsync)), (4, Part WriteBarrier)]"
  let ?p = "[(1, Access Store)] @ ?f @ [(5, Access Load), (6, Access Store)]"
  let ?q = "[(1, Access Store), (2, Part WriteBarrier), (3, Part (Instr Lwsync)), (5, Access Load), (4, Part WriteBarrier), (6, Access Store)]"
  let ?e = "[(5, Access Load), (1, Access Store), (6 :: nat, Access Store)]"
  have f: "fence AE_VCPP AE_ARCH_PPC memory_order_release = Some [WriteBarrier, Instr Lwsync, WriteBarrier]"
    by code_simp
  have p: "fenced [(1, Access Store)] [WriteBarrier, Instr Lwsync, WriteBarrier] [(5, Access Load), (6, Access Store)] ?p"
    unfolding fenced_def by (intro conjI exI [of _ ?f]) simp_all
  have q: "compiles std_rules ?p ?q"
    using compiles.swap [of std_rules ?p "[(1, Access Store), (2, Part WriteBarrier), (3, Part (Instr Lwsync))]"
      "(4, Part WriteBarrier)" "(5, Access Load)" "[(6, Access Store)]"] compiles.same [of std_rules ?p]
    by (simp add: swappable_def std_rules_def)
  have e: "executes std_machine AE_ARCH_PPC ?q ?e"
    by (auto simp: executes_def std_machine_def)
  show ?thesis
    by (rule fence_orders [where k = Store and l = Store, OF std_rules_ok(2,1) f p q e]) simp_all
qed

text \<open>
  \<open>compiler_fence\<close> holds the compiler in the same way; what the processor does it leaves.
\<close>
theorem compiler_fence_orders:
  assumes "compiler_ok r" and "fenced pre (compiler_fence c ord) post p" and "compiles r p q"
    and "x \<in> set pre" and "snd x = Access k" and "y \<in> set post" and "snd y = Access l"
    and "pair_of k l \<in> required ord"
  shows "before q x y"
  using held_apart(1) [OF fence_held [OF assms(1) _ assms(8)] assms(2-7)] by blast

theorem compiler_fence_orders_witness:
  "before [(1, Access Load), (2 :: nat, Part ReadBarrier), (3, Access Store)] (1, Access Load) (3, Access Store)"
proof (rule compiler_fence_orders [where k = Load and l = Store, OF std_rules_ok(1) _ compiles.same])
  show "fenced [(1, Access Load)] (compiler_fence AE_ICC memory_order_acquire) [(3, Access Store)]
      [(1, Access Load), (2, Part ReadBarrier), (3, Access Store)]"
    unfolding fenced_def compiler_fence_def own_fences_def by (intro conjI exI [of _ "[(2, Part ReadBarrier)]"]) simp_all
qed simp_all

text \<open>
  On x86 no fence that an operation of the queue passes, by the header's own fences, holds an instruction:
  nothing empties the store buffers of the processor during a call; only the constructor and
  the destructor issue one, a full \<open>mfence\<close>.
\<close>
theorem queue_fences_on_x86:
  assumes "own_fences c" and "a = AE_ARCH_X86 \<or> a = AE_ARCH_X64"
  shows "(\<forall>ord \<in> set (p_fences p) \<union> set (c_fences k k'). \<exists>bs. fence c a ord = Some bs \<and> (\<forall>i. Instr i \<notin> set bs)) \<and>
    fence c a memory_order_sync = Some [ReadWriteBarrier, Instr Mm_mfence, ReadWriteBarrier]"
proof
  have ord: "ord = memory_order_acquire \<or> ord = memory_order_release" if "ord \<in> set (p_fences p) \<union> set (c_fences k k')" for ord
    using that by (auto simp: p_fences_def c_fences_def split: ppc.splits cpc.splits)
  show "\<forall>ord \<in> set (p_fences p) \<union> set (c_fences k k'). \<exists>bs. fence c a ord = Some bs \<and> (\<forall>i. Instr i \<notin> set bs)"
  proof
    fix ord assume "ord \<in> set (p_fences p) \<union> set (c_fences k k')"
    from ord [OF this] show "\<exists>bs. fence c a ord = Some bs \<and> (\<forall>i. Instr i \<notin> set bs)"
      using assms by (auto simp: fence_def AeFullSync_def)
  qed
  show "fence c a memory_order_sync = Some [ReadWriteBarrier, Instr Mm_mfence, ReadWriteBarrier]"
    using assms by (auto simp: fence_def AeFullSync_def memory_order_sync_def)
qed

theorem queue_fences_on_x86_witness:
  "\<exists>bs. fence AE_VCPP AE_ARCH_X64 memory_order_release = Some bs \<and> (\<forall>i. Instr i \<notin> set bs)"
proof -
  have "memory_order_release \<in> set (p_fences (P_Publish (0 :: nat) 0 0))" by code_simp
  moreover have "own_fences AE_VCPP" by code_simp
  ultimately show ?thesis
    using queue_fences_on_x86 [of AE_VCPP AE_ARCH_X64 "P_Publish (0 :: nat) 0 0" C_Idle C_Idle] by blast
qed

text \<open>
  The header compiles on every build but one: Visual C++ and Intel's compiler on a processor
  that is none of the four it knows have no instruction for its fences.
\<close>
theorem fence_compiles_iff: "fence c a ord = None \<longleftrightarrow> own_fences c \<and> a = AE_ARCH_UNKNOWN"
  by (cases a) (simp_all add: fence_def AeFullSync_def AeLiteSync_def)

end
