(* ===== verification/Net_Address.thy ===== *)
theory Net_Address
  imports Qing_Prelude
begin

text \<open>
  \<open>src/net/address.cpp\<close> and \<open>src/net/util.cpp\<close>: socket addresses, name lookup, creation of
  sockets, and the size formatter. The operating system enters as parameters: the byte order
  of the host, the results of \<open>inet_pton\<close> and \<open>getaddrinfo\<close>, of \<open>socket\<close> and \<open>setsockopt\<close>.
  Log output is left out.
\<close>

section \<open>Byte order\<close>

text \<open>\<open>le\<close> says that the host is little-endian.\<close>

definition htons :: "bool \<Rightarrow> u16 \<Rightarrow> u16" where
  "htons le x = (if le then push_bit 8 x OR drop_bit 8 x else x)"

definition htonl :: "bool \<Rightarrow> u32 \<Rightarrow> u32" where
  "htonl le x =
     (if le then push_bit 24 x OR (push_bit 8 x AND 0xff0000) OR (drop_bit 8 x AND 0xff00) OR drop_bit 24 x
      else x)"

definition ntohs :: "bool \<Rightarrow> u16 \<Rightarrow> u16" where "ntohs = htons"

definition ntohl :: "bool \<Rightarrow> u32 \<Rightarrow> u32" where "ntohl = htonl"

lemma ntohs_htons [simp]: "ntohs le (htons le x) = x"
  by (rule bit_word_eqI) (auto simp: ntohs_def htons_def bit_simps)

lemma htonl_0 [simp]: "htonl le 0 = 0"
  by (simp add: htonl_def)

section \<open>Names and addresses\<close>

record sockaddr_in =
  sin_family :: u16
  sin_port :: u16
  s_addr :: u32
  sin_zero :: "u8 list"

definition zero_sockaddr :: sockaddr_in where
  "zero_sockaddr = \<lparr>sin_family = 0, sin_port = 0, s_addr = 0, sin_zero = replicate 8 0\<rparr>"

definition AF_INET :: u16 where "AF_INET = 2"

definition INADDR_ANY :: u32 where "INADDR_ANY = 0"

record address = a_sockAddr :: sockaddr_in

text \<open>
  \<open>inet_pton\<close>: the address in network order when it returns a positive value, \<open>None\<close> otherwise.
  \<open>getaddrinfo\<close>: the error code and the addresses of the answer, in network order.
\<close>

record name_env =
  inet_pton :: "string \<Rightarrow> u32 option"
  getaddrinfo :: "string \<Rightarrow> int \<times> u32 list"

definition getHostByName :: "name_env \<Rightarrow> string \<Rightarrow> u32" where
  "getHostByName N host =
     (let (ret, answer) = getaddrinfo N host in
      if ret \<noteq> 0 then - 1
      else case answer of
        cur # _ \<Rightarrow> cur
      | [] \<Rightarrow> - 1)"

definition Address_port :: "bool \<Rightarrow> u16 \<Rightarrow> address" where
  "Address_port le port =
     \<lparr>a_sockAddr = zero_sockaddr\<lparr>sin_family := AF_INET, s_addr := htonl le INADDR_ANY,
        sin_port := htons le port\<rparr>\<rparr>"

definition Address_ip_port :: "bool \<Rightarrow> name_env \<Rightarrow> string \<Rightarrow> u16 \<Rightarrow> address" where
  "Address_ip_port le N ip port =
     (let a = zero_sockaddr\<lparr>sin_family := AF_INET, sin_port := htons le port\<rparr> in
      case inet_pton N ip of
        Some addr \<Rightarrow> \<lparr>a_sockAddr = a\<lparr>s_addr := addr\<rparr>\<rparr>
      | None \<Rightarrow>
          let ret = getHostByName N ip in
          if ret \<noteq> - 1 then \<lparr>a_sockAddr = a\<lparr>s_addr := ret\<rparr>\<rparr>
          else \<lparr>a_sockAddr = a\<lparr>s_addr := htonl le INADDR_ANY\<rparr>\<rparr>)"

definition Address_sockaddr :: "sockaddr_in \<Rightarrow> address" where
  "Address_sockaddr addr = \<lparr>a_sockAddr = addr\<rparr>"

definition Address_ip :: "bool \<Rightarrow> address \<Rightarrow> u32" where
  "Address_ip le a = ntohl le (s_addr (a_sockAddr a))"

definition Address_get_port :: "bool \<Rightarrow> address \<Rightarrow> u16" where
  "Address_get_port le a = ntohs le (sin_port (a_sockAddr a))"

text \<open>
  \<open>inet_ntop\<close> writes the dotted decimals of the address and a NUL into the buffer of 32 bytes,
  which was filled with NUL; \<open>std::string(buf, 32)\<close> takes all of them.
\<close>

fun decimal :: "nat \<Rightarrow> string" where
  "decimal n = (if n < 10 then [char_of (48 + n)] else decimal (n div 10) @ [char_of (48 + n mod 10)])"

declare decimal.simps [simp del]

definition byte_of :: "nat \<Rightarrow> u32 \<Rightarrow> nat" where
  "byte_of k x = unat (drop_bit (8 * k) x AND 0xff)"

definition inet_ntop :: "bool \<Rightarrow> u32 \<Rightarrow> string" where
  "inet_ntop le addr =
     (let h = ntohl le addr in
      decimal (byte_of 3 h) @ ''.'' @ decimal (byte_of 2 h) @ ''.'' @
      decimal (byte_of 1 h) @ ''.'' @ decimal (byte_of 0 h))"

definition ipString :: "bool \<Rightarrow> address \<Rightarrow> string" where
  "ipString le a =
     (let text = inet_ntop le (s_addr (a_sockAddr a));
          buf = text @ replicate (32 - length text) (char_of (0 :: nat)) in
      take 32 buf)"

section \<open>Sockets\<close>

text \<open>
  The operating system keeps the set of open descriptors. \<open>socket\<close> gives a descriptor or -1;
  each \<open>setsockopt\<close> gives 0 or -1.
\<close>

record socket_os =
  open_fds :: "int set"

definition os_socket :: "int \<Rightarrow> socket_os \<Rightarrow> int \<times> socket_os" where
  "os_socket fd os = (if fd = - 1 then (- 1, os) else (fd, os\<lparr>open_fds := insert fd (open_fds os)\<rparr>))"

definition getNewSocket :: "int \<Rightarrow> int \<Rightarrow> int \<Rightarrow> socket_os \<Rightarrow> int \<times> socket_os" where
  "getNewSocket fd reuse sndbuf os =
     (let (socket, os) = os_socket fd os in
      if socket = - 1 then (- 1, os)
      else if reuse = - 1 then (- 1, os)
      else if sndbuf = - 1 then (- 1, os)
      else (socket, os))"

section \<open>Sizes\<close>

text \<open>
  A \<open>float\<close> has a significand of 24 bits: converting an unsigned 32-bit integer rounds to the
  nearest multiple of the unit in the last place, ties to even. Dividing by a power of two is
  exact, and \<open>%.2f\<close> rounds the exact value to hundredths, ties to even. \<open>rne a b\<close> is \<open>a / b\<close>
  rounded so to an integer.
\<close>

definition rne :: "nat \<Rightarrow> nat \<Rightarrow> nat" where
  "rne a b =
     (let d = a div b; r = a mod b in
      if 2 * r < b \<or> 2 * r = b \<and> even d then d else d + 1)"

fun float_ulp :: "nat \<Rightarrow> nat \<Rightarrow> nat" where
  "float_ulp 0 n = 1"
| "float_ulp (Suc fuel) n = (if n < 2 ^ 24 then 1 else 2 * float_ulp fuel (n div 2))"

definition to_float :: "u32 \<Rightarrow> nat" where
  "to_float w = (let n = unat w; u = float_ulp 8 n in rne n u * u)"

definition two_digits :: "nat \<Rightarrow> string" where
  "two_digits n = [char_of (48 + n div 10), char_of (48 + n mod 10)]"

definition format2 :: "nat \<Rightarrow> nat \<Rightarrow> string \<Rightarrow> string" where
  "format2 a b unit =
     (let h = rne (100 * a) b in decimal (h div 100) @ ''.'' @ two_digits (h mod 100) @ '' '' @ unit)"

definition cenvertBytesToSize :: "u32 \<Rightarrow> string" where
  "cenvertBytesToSize sz =
     (let bytes = to_float sz;
          tb = 1099511627776; gb = 1073741824; mb = 1048576; kb = 1024 in
      if bytes \<ge> tb then format2 bytes tb ''TB''
      else if bytes \<ge> gb \<and> bytes < tb then format2 bytes gb ''GB''
      else if bytes \<ge> mb \<and> bytes < gb then format2 bytes mb ''MB''
      else if bytes \<ge> kb \<and> bytes < mb then format2 bytes kb ''KB''
      else if bytes < kb then format2 bytes 1 ''Bytes''
      else format2 bytes 1 ''Bytes'')"

end
