(* ===== verification/Net_Poller.thy ===== *)
theory Net_Poller
  imports Net_Address
begin

text \<open>
  \<open>src/net/poller.cpp\<close>: class \<open>Poller\<close> in its three variants (IOCP, epoll, kqueue) and the
  enumerations of \<open>net/define.hpp\<close>. The kernel enters as the results of its calls; what a poll
  dispatches is the list of handler calls it makes. A socket object is a number, a null
  pointer \<open>None\<close>. Some names in the epoll and kqueue code are not declared in the sources
  (\<open>socket\<close>, \<open>eventHandler\<close>, \<open>activeEvs_\<close>): they are read as the socket of the argument, the
  argument or the object of the event, and the array \<open>_events\<close>.
\<close>

section \<open>Enumerations\<close>

datatype conn_status = CLIENT_UNCONNECTED | CLIENT_CONNECTING | CLIENT_CONNECTED

datatype io_code = CODE_SUCCESS | CODE_ERROR | CODE_REMOTE_CLOSED

datatype io_type = HANDLE_ACCEPT | HANDLE_READ | HANDLE_WRITE | HANDLE_COMPLETE

definition EVENT_NONE :: u32 where "EVENT_NONE = 0"
definition EVENT_OPEN :: u32 where "EVENT_OPEN = push_bit 0 1"
definition EVENT_READ :: u32 where "EVENT_READ = push_bit 1 1"
definition EVENT_WRITE :: u32 where "EVENT_WRITE = push_bit 2 1"
definition EVENT_CLOSE :: u32 where "EVENT_CLOSE = push_bit 3 1"
definition EVENT_ERROR :: u32 where "EVENT_ERROR = push_bit 4 1"

definition MAX_EVENT_SIZE :: nat where "MAX_EVENT_SIZE = 256"

section \<open>State\<close>

type_synonym obj = nat

text \<open>A handler call a poll makes; a call through a null pointer is a fault.\<close>

datatype dispatch = OnRead obj | OnWrite obj

text \<open>Events as the kernel fills the array \<open>_events\<close>: epoll's data pointer and mask, kqueue's udata, flags and filter.\<close>

record epoll_event = ev_ptr :: "obj option" ev_events :: u32

record kevent = kv_udata :: "obj option" kv_flags :: u16 kv_filter :: u16

record io_data = io_type :: io_type io_socket :: int io_bytes :: u32

record poller =
  p_handle :: int
  socketPool :: "int \<rightharpoonup> obj option"
  p_registered :: "(int \<times> u32) set"

text \<open>The constructor stores whatever handle the kernel gives; an error is only logged.\<close>

definition Poller :: "int \<Rightarrow> poller" where
  "Poller h = \<lparr>p_handle = h, socketPool = Map.empty, p_registered = {}\<rparr>"

text \<open>
  The destructor: the handle goes to \<open>CloseHandle\<close> or \<open>::close\<close>; IOCP calls \<open>WSACleanup\<close> too,
  whatever the first call returns.
\<close>

datatype handle_event = CloseHandle int | WSACleanup | Close_fd int

definition Poller_destroy :: "bool \<Rightarrow> poller \<Rightarrow> handle_event list" where
  "Poller_destroy iocp p = (if iocp then [CloseHandle (p_handle p), WSACleanup] else [Close_fd (p_handle p)])"

section \<open>IOCP\<close>

text \<open>\<open>operator[]\<close> of the pool: a missing socket is inserted with a null pointer.\<close>

definition pool_at :: "int \<Rightarrow> poller \<Rightarrow> obj option \<times> poller" where
  "pool_at s p = (case socketPool p s of
      Some ob \<Rightarrow> (ob, p)
    | None \<Rightarrow> (None, p\<lparr>socketPool := (socketPool p)(s \<mapsto> None)\<rparr>))"

definition deref_obj :: "obj option \<Rightarrow> obj res" where
  "deref_obj ob = (case ob of None \<Rightarrow> Inl Null_Deref | Some x \<Rightarrow> Inr x)"

text \<open>
  \<open>GetQueuedCompletionStatus\<close> gives its result, the byte count and the overlapped structure,
  which is \<open>None\<close> when no packet was dequeued; the byte count is stored in the structure. The unsigned timeout is never below zero.
\<close>

definition poll_timeout :: "u32 \<Rightarrow> u32" where
  "poll_timeout timeout = (if timeout < 0 then 0xffffffff else timeout)"

definition poll_iocp ::
  "(u32 \<Rightarrow> bool \<times> u32 \<times> io_data option) \<Rightarrow> u32 \<Rightarrow> poller
   \<Rightarrow> (bool \<times> dispatch list \<times> io_data option \<times> poller) res" where
  "poll_iocp sys timeout p =
     (let (ret, countBytes, overlapped) = sys (poll_timeout timeout) in
      if \<not> ret \<and> overlapped = None then Inr (False, [], None, p)
      else case overlapped of
        None \<Rightarrow> Inl Null_Deref
      | Some io \<Rightarrow>
          let io = io\<lparr>io_bytes := countBytes\<rparr> in
          if io_type io = HANDLE_COMPLETE then Inr (True, [], Some io, p)
          else
            let (ob, p) = pool_at (io_socket io) p in
            case io_type io of
              HANDLE_ACCEPT \<Rightarrow> res_bind (deref_obj ob) (\<lambda>x. Inr (True, [OnRead x], Some io, p))
            | HANDLE_READ \<Rightarrow> res_bind (deref_obj ob) (\<lambda>x. Inr (True, [OnRead x], Some io, p))
            | HANDLE_WRITE \<Rightarrow> res_bind (deref_obj ob) (\<lambda>x. Inr (True, [OnWrite x], Some io, p))
            | HANDLE_COMPLETE \<Rightarrow> Inr (True, [], Some io, p))"

section \<open>epoll\<close>

definition EPOLLIN :: u32 where "EPOLLIN = 0x001"
definition EPOLLOUT :: u32 where "EPOLLOUT = 0x004"
definition EPOLLERR :: u32 where "EPOLLERR = 0x008"
definition EPOLLONESHOT :: u32 where "EPOLLONESHOT = 0x40000000"

definition convertEventMask_epoll :: "u32 \<Rightarrow> u32" where
  "convertEventMask_epoll e =
     (let op = 0;
          op = if e AND EVENT_READ \<noteq> 0 then op OR (EPOLLIN OR EPOLLONESHOT) else op;
          op = if e AND EVENT_WRITE \<noteq> 0 then op OR (EPOLLOUT OR EPOLLONESHOT) else op;
          op = if e AND EVENT_ERROR \<noteq> 0 then op OR EPOLLERR else op
      in op)"

definition epoll_event_step :: "epoll_event \<Rightarrow> dispatch list" where
  "epoll_event_step ev =
     (case ev_ptr ev of
        None \<Rightarrow> []
      | Some x \<Rightarrow>
          if ev_events ev AND EPOLLIN \<noteq> 0 then [OnRead x]
          else if ev_events ev AND EPOLLOUT \<noteq> 0 then [OnWrite x]
          else [])"

text \<open>The loop reads \<open>_events[i]\<close> for \<open>i\<close> below \<open>result\<close>; the array has \<open>MAX_EVENT_SIZE\<close> entries.\<close>

function epoll_loop :: "nat \<Rightarrow> nat \<Rightarrow> epoll_event list \<Rightarrow> dispatch list \<Rightarrow> dispatch list res" where
  "epoll_loop i result events out =
     (if i < result
      then if i < length events
           then epoll_loop (i + 1) result events (out @ epoll_event_step (events ! i))
           else Inl Out_Of_Bounds
      else Inr out)"
  by pat_completeness auto
termination by (relation "measure (\<lambda>(i, result, _). result - i)") auto

declare epoll_loop.simps [simp del]

definition poll_epoll ::
  "(u32 \<Rightarrow> int \<times> epoll_event list) \<Rightarrow> bool \<Rightarrow> u32 \<Rightarrow> (bool \<times> dispatch list) res" where
  "poll_epoll epoll_wait eintr timeout =
     (let (r, events) = epoll_wait (poll_timeout timeout);
          result = word_of_int r :: u32 in
      if result < 0 then (if eintr then Inr (True, []) else Inr (False, []))
      else if result = 0 then Inr (True, [])
      else res_bind (epoll_loop 0 (unat result) events []) (\<lambda>out. Inr (True, out)))"

section \<open>kqueue\<close>

definition EVFILT_READ :: u16 where "EVFILT_READ = - 1"
definition EVFILT_WRITE :: u16 where "EVFILT_WRITE = - 2"
definition EV_EOF :: u16 where "EV_EOF = 0x8000"
definition EV_ERROR :: u16 where "EV_ERROR = 0x4000"

definition convertEventMask_kqueue :: "u32 \<Rightarrow> u16" where
  "convertEventMask_kqueue e =
     (let op = 0;
          op = if e AND EVENT_READ \<noteq> 0 then op OR EVFILT_READ else op;
          op = if e AND EVENT_WRITE \<noteq> 0 then op OR EVFILT_WRITE else op
      in op)"

definition kqueue_event_step :: "kevent \<Rightarrow> dispatch list" where
  "kqueue_event_step ev =
     (case kv_udata ev of
        None \<Rightarrow> []
      | Some x \<Rightarrow>
          (if kv_flags ev AND EV_EOF \<noteq> 0 \<or> kv_flags ev AND EV_ERROR \<noteq> 0 then [OnRead x] else []) @
          (if kv_filter ev = EVFILT_READ then [OnRead x]
           else if kv_filter ev = EVFILT_WRITE then [OnWrite x]
           else []))"

function kqueue_loop :: "nat \<Rightarrow> nat \<Rightarrow> kevent list \<Rightarrow> dispatch list \<Rightarrow> dispatch list res" where
  "kqueue_loop i result events out =
     (if i < result
      then if i < length events
           then kqueue_loop (i + 1) result events (out @ kqueue_event_step (events ! i))
           else Inl Out_Of_Bounds
      else Inr out)"
  by pat_completeness auto
termination by (relation "measure (\<lambda>(i, result, _). result - i)") auto

declare kqueue_loop.simps [simp del]

definition poll_kqueue :: "(u32 \<Rightarrow> int \<times> kevent list) \<Rightarrow> u32 \<Rightarrow> (bool \<times> dispatch list) res" where
  "poll_kqueue kevent_wait timeout =
     (let (r, events) = kevent_wait timeout;
          result = word_of_int r :: u32 in
      if result = - 1 then Inr (False, [])
      else if result = 0 then Inr (True, [])
      else res_bind (kqueue_loop 0 (unat result) events []) (\<lambda>out. Inr (True, out)))"

section \<open>add, modify, remove\<close>

text \<open>
  The platform, and the result of the kernel call each function makes. A successful
  registration is recorded with the mask it was made with.
\<close>

datatype platform = IOCP | EPOLL | KQUEUE

definition poller_add :: "platform \<Rightarrow> int \<Rightarrow> obj option \<Rightarrow> int \<Rightarrow> u32 \<Rightarrow> poller \<Rightarrow> bool \<times> poller" where
  "poller_add pf sys ob socket e p =
     (let p = p\<lparr>socketPool := (socketPool p)(socket \<mapsto> ob)\<rparr> in
      case pf of
        IOCP \<Rightarrow> if sys = 0 then (False, p) else (True, p\<lparr>p_registered := insert (socket, e) (p_registered p)\<rparr>)
      | EPOLL \<Rightarrow>
          if ob = None then (False, p)
          else
            let events = convertEventMask_epoll EVENT_READ in
            if sys < 0 then (False, p)
            else (True, p\<lparr>p_registered := insert (socket, events) (p_registered p)\<rparr>)
      | KQUEUE \<Rightarrow>
          if sys < 0 then (False, p)
          else (True, p\<lparr>p_registered := insert (socket, ucast EVFILT_READ) (p_registered p)\<rparr>))"

text \<open>\<open>found\<close>: the handler lookup of the kqueue code gives a handler.\<close>

definition poller_modify :: "platform \<Rightarrow> int \<Rightarrow> bool \<Rightarrow> int \<Rightarrow> u32 \<Rightarrow> poller \<Rightarrow> bool \<times> poller" where
  "poller_modify pf sys found socket e p =
     (case pf of
        IOCP \<Rightarrow> (True, p)
      | EPOLL \<Rightarrow>
          if sys < 0 then (False, p)
          else (True, p\<lparr>p_registered := insert (socket, convertEventMask_epoll e)
                          {(s, m). (s, m) \<in> p_registered p \<and> s \<noteq> socket}\<rparr>)
      | KQUEUE \<Rightarrow>
          if \<not> found then (False, p)
          else if sys < 0 then (False, p)
          else (True, p\<lparr>p_registered := insert (socket, ucast (convertEventMask_kqueue e)) (p_registered p)\<rparr>))"

definition poller_remove :: "platform \<Rightarrow> int \<Rightarrow> int \<Rightarrow> poller \<Rightarrow> bool \<times> poller" where
  "poller_remove pf sys socket p =
     (case pf of
        IOCP \<Rightarrow> (True, p)
      | _ \<Rightarrow>
          let result = word_of_int sys :: u32;
              p' = if sys < 0 then p
                   else p\<lparr>p_registered := {(s, m). (s, m) \<in> p_registered p \<and> s \<noteq> socket}\<rparr> in
          if result < 0 then (False, p') else (True, p'))"

section \<open>Lemmas\<close>

lemma unsigned_not_negative [simp]: "\<not> (w :: u32) < 0"
  by simp

lemma epoll_loop_bounds:
  "length events < result \<Longrightarrow> i \<le> length events \<Longrightarrow> epoll_loop i result events out = Inl Out_Of_Bounds"
proof (induction i result events out rule: epoll_loop.induct)
  case (1 i result events out)
  then show ?case by (subst epoll_loop.simps) auto
qed

lemma epoll_loop_ok:
  "result \<le> length events \<Longrightarrow> i \<le> result \<Longrightarrow>
   epoll_loop i result events out =
     Inr (out @ concat (map epoll_event_step (drop i (take result events))))"
proof (induction i result events out rule: epoll_loop.induct)
  case (1 i result events out)
  show ?case
  proof (cases "i < result")
    case True
    then have "drop i (take result events) = events ! i # drop (i + 1) (take result events)"
      using 1(2) by (simp add: Cons_nth_drop_Suc [symmetric])
    then show ?thesis using 1 True by (subst epoll_loop.simps) simp
  next
    case False
    then show ?thesis using 1(3) by (subst epoll_loop.simps) simp
  qed
qed

lemma kqueue_loop_ok:
  "result \<le> length events \<Longrightarrow> i \<le> result \<Longrightarrow>
   kqueue_loop i result events out =
     Inr (out @ concat (map kqueue_event_step (drop i (take result events))))"
proof (induction i result events out rule: kqueue_loop.induct)
  case (1 i result events out)
  show ?case
  proof (cases "i < result")
    case True
    then have "drop i (take result events) = events ! i # drop (i + 1) (take result events)"
      using 1(2) by (simp add: Cons_nth_drop_Suc [symmetric])
    then show ?thesis using 1 True by (subst kqueue_loop.simps) simp
  next
    case False
    then show ?thesis using 1(3) by (subst kqueue_loop.simps) simp
  qed
qed

end
