(* ===== verification/Net_Socket.thy ===== *)
theory Net_Socket
  imports Net_Poller
begin

text \<open>
  \<open>src/net/tcp_socket.cpp\<close>: class \<open>TcpSocket\<close>. The kernel enters as the results of \<open>WSASend\<close>,
  \<open>WSARecv\<close> and \<open>WSAGetLastError\<close>; the callbacks are the events an operation emits. Members
  that no header declares are read as written: \<open>_ioData\<close> is the structure the poller completes,
  \<open>_handle\<close> a handle of the socket. A pushed receive buffer is a length and the bytes.
\<close>

section \<open>State\<close>

record 'h tcp_socket =
  ts_socket :: int
  ts_handle :: int
  ts_address :: "address option"
  ts_poller :: "nat option"
  sendHandler :: "'h option"
  recvHandler :: "'h option"
  closeHandler :: "'h option"
  connStatus :: conn_status
  ioData :: io_data
  readIoData :: io_data
  writeIoData :: io_data
  readBuffer :: "u8 list"
  writeBuffer :: "(u32 \<times> u8 list option) option"
  writeQueue :: "(u32 \<times> u8 list) list"

datatype 'h socket_event =
    Sent 'h io_code u32 "string option"
  | Received 'h io_code
  | Closed 'h
  | Closesocket int

definition zero_io :: io_data where
  "zero_io = \<lparr>io_type = HANDLE_ACCEPT, io_socket = 0, io_bytes = 0\<rparr>"

text \<open>The members as the header initialises them, around the socket and the poller.\<close>

definition fresh_socket :: "int \<Rightarrow> nat option \<Rightarrow> 'h tcp_socket" where
  "fresh_socket s poller =
     \<lparr>ts_socket = s, ts_handle = s, ts_address = None, ts_poller = poller, sendHandler = None,
      recvHandler = None, closeHandler = None, connStatus = CLIENT_UNCONNECTED, ioData = zero_io,
      readIoData = zero_io, writeIoData = zero_io, readBuffer = [], writeBuffer = None, writeQueue = []\<rparr>"

section \<open>Operations\<close>

definition valid :: "'h tcp_socket \<Rightarrow> bool" where
  "valid s \<longleftrightarrow> ts_socket s \<noteq> - 1"

definition init_io :: "'h tcp_socket \<Rightarrow> 'h tcp_socket" where
  "init_io s = s\<lparr>ioData := zero_io\<lparr>io_socket := ts_socket s\<rparr>\<rparr>"

text \<open>The constructors: with a new socket, with a poller, with a poller and a socket.\<close>

definition TcpSocket :: "int \<Rightarrow> int \<Rightarrow> int \<Rightarrow> socket_os \<Rightarrow> 'h tcp_socket \<times> socket_os" where
  "TcpSocket fd reuse sndbuf os =
     (let (s, os) = getNewSocket fd reuse sndbuf os in (init_io (fresh_socket s None), os))"

definition TcpSocket_poller :: "nat \<Rightarrow> 'h tcp_socket" where
  "TcpSocket_poller poller = fresh_socket (- 1) (Some poller)"

definition TcpSocket_socket :: "nat \<Rightarrow> int \<Rightarrow> 'h tcp_socket" where
  "TcpSocket_socket poller socket = init_io (fresh_socket socket (Some poller))"

text \<open>The destructor forgets the socket; it does not close it.\<close>

definition TcpSocket_destroy :: "'h tcp_socket \<Rightarrow> 'h tcp_socket" where
  "TcpSocket_destroy s = s\<lparr>ts_socket := - 1, ts_poller := None, sendHandler := None, recvHandler := None, closeHandler := None\<rparr>"

definition setAddress :: "address \<Rightarrow> 'h tcp_socket \<Rightarrow> 'h tcp_socket" where
  "setAddress a s = s\<lparr>ts_address := Some a\<rparr>"

definition registerSendHandler :: "'h option \<Rightarrow> 'h tcp_socket \<Rightarrow> 'h tcp_socket" where
  "registerSendHandler h s = s\<lparr>sendHandler := h\<rparr>"

definition registerRacvtHandler :: "'h option \<Rightarrow> 'h tcp_socket \<Rightarrow> 'h tcp_socket" where
  "registerRacvtHandler h s = s\<lparr>recvHandler := h\<rparr>"

definition registerCloseHandler :: "'h option \<Rightarrow> 'h tcp_socket \<Rightarrow> 'h tcp_socket" where
  "registerCloseHandler h s = s\<lparr>closeHandler := h\<rparr>"

definition writeFinished :: "io_code \<Rightarrow> u32 \<Rightarrow> string option \<Rightarrow> 'h tcp_socket \<Rightarrow> 'h socket_event list" where
  "writeFinished code len message s = (case sendHandler s of None \<Rightarrow> [] | Some h \<Rightarrow> [Sent h code len message])"

definition readFinished :: "io_code \<Rightarrow> 'h tcp_socket \<Rightarrow> 'h socket_event list" where
  "readFinished code s = (case recvHandler s of None \<Rightarrow> [] | Some h \<Rightarrow> [Received h code])"

definition close :: "'h tcp_socket \<Rightarrow> 'h socket_event list \<times> 'h tcp_socket" where
  "close s =
     (if \<not> valid s then ([], s)
      else
        let ev = (if ts_handle s \<noteq> - 1 then [Closesocket (ts_handle s)] else []);
            s = s\<lparr>ts_socket := - 1\<rparr> in
        (ev @ (case closeHandler s of None \<Rightarrow> [] | Some h \<Rightarrow> [Closed h]), s))"

text \<open>
  \<open>write\<close>: \<open>Some b\<close> for \<open>return b\<close>, \<open>None\<close> for the returns without a value. \<open>send\<close> is what
  \<open>WSASend\<close> returns, stored in an unsigned integer, and \<open>err\<close> the last error.
\<close>

definition WSA_IO_PENDING :: u32 where "WSA_IO_PENDING = 997"
definition ERROR_SUCCESS :: u32 where "ERROR_SUCCESS = 0"
definition SOCKET_ERROR :: int where "SOCKET_ERROR = - 1"

definition tcp_write :: "int \<Rightarrow> u32 \<Rightarrow> u8 list option \<Rightarrow> u32 \<Rightarrow> 'h tcp_socket
    \<Rightarrow> bool option \<times> 'h socket_event list \<times> 'h tcp_socket" where
  "tcp_write send err data len s =
     (if \<not> valid s then (Some False, [], s)
      else if len = 0 then (Some False, [], s)
      else
        let s = s\<lparr>writeBuffer := Some (len, data),
                   writeIoData := (writeIoData s)\<lparr>io_type := HANDLE_WRITE, io_bytes := 0\<rparr>\<rparr>;
            sendResult = word_of_int send :: u32 in
        if sendResult \<noteq> 0 \<and> sendResult = word_of_int SOCKET_ERROR \<and> WSA_IO_PENDING \<noteq> err
        then let (ev, s) = close s in (None, ev, s)
        else (None, [], s))"

definition tcp_read :: "int \<Rightarrow> u32 \<Rightarrow> 'h tcp_socket \<Rightarrow> bool \<times> 'h socket_event list \<times> 'h tcp_socket" where
  "tcp_read recv err s =
     (if \<not> valid s \<and> io_type (ioData s) = HANDLE_COMPLETE then (False, [], s)
      else
        let s = s\<lparr>readIoData := (readIoData s)\<lparr>io_bytes := 0, io_type := HANDLE_READ\<rparr>\<rparr> in
        if recv \<noteq> 0 \<and> err \<noteq> ERROR_SUCCESS \<and> err \<noteq> WSA_IO_PENDING
        then let (ev, s) = close s in (False, ev, s)
        else (True, [], s))"

definition onWrite :: "'h tcp_socket \<Rightarrow> 'h tcp_socket" where
  "onWrite s = s"

text \<open>\<open>bytes\<close> is unsigned: not above zero is zero. The bytes pushed are those of the read buffer.\<close>

definition onRead :: "'h tcp_socket \<Rightarrow> ('h socket_event list \<times> 'h tcp_socket) res" where
  "onRead s =
     (let n = io_bytes (ioData s) in
      if n \<le> 0 then Inr (close s)
      else if length (readBuffer s) < unat n then Inl Out_Of_Bounds
      else Inr ([], s\<lparr>writeQueue := writeQueue s @ [(n, take (unat n) (readBuffer s))]\<rparr>))"

section \<open>A socket over time\<close>

text \<open>
  A step is a call of an operation, or the completion of a receive, which fills the read buffer
  and the structure that the poller completes. Destroying the socket emits nothing.
\<close>

datatype 'h socket_op =
    Set_Send "'h option" | Set_Recv "'h option" | Set_Close "'h option"
  | Write_Finished io_code u32 "string option" | Read_Finished io_code
  | Write int u32 "u8 list option" u32 | Read int u32 | On_Write | On_Read "u8 list" | Close

fun socket_step :: "'h socket_op \<Rightarrow> 'h tcp_socket \<Rightarrow> ('h socket_event list \<times> 'h tcp_socket) res" where
  "socket_step (Set_Send h) s = Inr ([], registerSendHandler h s)"
| "socket_step (Set_Recv h) s = Inr ([], registerRacvtHandler h s)"
| "socket_step (Set_Close h) s = Inr ([], registerCloseHandler h s)"
| "socket_step (Write_Finished c n m) s = Inr (writeFinished c n m s, s)"
| "socket_step (Read_Finished c) s = Inr (readFinished c s, s)"
| "socket_step (Write send err data len) s = (let (_, ev, s') = tcp_write send err data len s in Inr (ev, s'))"
| "socket_step (Read recv err) s = (let (_, ev, s') = tcp_read recv err s in Inr (ev, s'))"
| "socket_step On_Write s = Inr ([], onWrite s)"
| "socket_step (On_Read bytes) s =
     onRead (s\<lparr>readBuffer := bytes, ioData := (ioData s)\<lparr>io_bytes := of_nat (length bytes)\<rparr>\<rparr>)"
| "socket_step Close s = Inr (close s)"

fun socket_run :: "'h socket_op list \<Rightarrow> 'h tcp_socket \<Rightarrow> ('h socket_event list \<times> 'h tcp_socket) res" where
  "socket_run [] s = Inr ([], s)"
| "socket_run (op # ops) s =
     res_bind (socket_step op s) (\<lambda>(ev, s').
     res_bind (socket_run ops s') (\<lambda>(ev', s''). Inr (ev @ ev', s'')))"

section \<open>Lemmas\<close>

text \<open>The events that end a socket, and the only way to emit one.\<close>

definition closing :: "'h socket_event \<Rightarrow> bool" where
  "closing e \<longleftrightarrow> (case e of Closed _ \<Rightarrow> True | Closesocket _ \<Rightarrow> True | _ \<Rightarrow> False)"

text \<open>
  What a step may do to the socket: nothing that ends it and it stays as valid as it was, or it
  was valid, the end events are those of one \<open>close\<close>, and it is not valid any more.
\<close>

definition step_ends :: "'h tcp_socket \<Rightarrow> 'h socket_event list \<Rightarrow> 'h tcp_socket \<Rightarrow> bool" where
  "step_ends s ev s' \<longleftrightarrow>
     ts_handle s' = ts_handle s \<and>
     ((filter closing ev = [] \<and> ts_socket s' = ts_socket s) \<or>
      (valid s \<and> \<not> valid s' \<and>
       filter closing ev = (if ts_handle s \<noteq> - 1 then [Closesocket (ts_handle s)] else []) @
         (case closeHandler s of None \<Rightarrow> [] | Some h \<Rightarrow> [Closed h])))"

lemma close_ends:
  "close s = (ev, s') \<Longrightarrow> step_ends s ev s' \<and> \<not> valid s' \<and> closeHandler s' = closeHandler s \<and> writeQueue s' = writeQueue s"
  by (auto simp: close_def valid_def step_ends_def closing_def Let_def split: if_splits option.splits)

lemma step_ends_upd:
  assumes "ts_socket t = ts_socket s" and "ts_handle t = ts_handle s" and "closeHandler t = closeHandler s"
    and "step_ends t ev s'"
  shows "step_ends s ev s'"
  using assms(4) unfolding step_ends_def valid_def assms(1-3) .

lemma step_ends_refl [simp]: "step_ends s [] s"
  by (simp add: step_ends_def)

lemma tcp_write_ends:
  "tcp_write send err data len s = (r, ev, s') \<Longrightarrow> step_ends s ev s' \<and> writeQueue s' = writeQueue s"
  unfolding tcp_write_def Let_def
  by (auto simp: step_ends_def [of s "[]"] split: if_splits prod.splits
      dest!: close_ends intro: step_ends_upd [rotated 3])

lemma tcp_read_ends:
  "tcp_read recv err s = (r, ev, s') \<Longrightarrow> step_ends s ev s' \<and> writeQueue s' = writeQueue s"
  unfolding tcp_read_def Let_def
  by (auto simp: step_ends_def [of s "[]"] split: if_splits prod.splits
      dest!: close_ends intro: step_ends_upd [rotated 3])

lemma onRead_ends:
  assumes "onRead s = Inr (ev, s')"
  shows "step_ends s ev s'"
proof -
  have "close s = (ev, s') \<or> ev = [] \<and> (\<exists>q. s' = s\<lparr>writeQueue := q\<rparr>)"
    using assms by (auto simp: onRead_def Let_def split: if_splits)
  then show ?thesis using close_ends [of s ev s'] by (auto simp: step_ends_def)
qed

lemma socket_step_ends:
  assumes "socket_step op s = Inr (ev, s')"
  shows "step_ends s ev s'"
proof (cases op)
  case (Write send err data len)
  then show ?thesis using assms by (auto simp: Let_def split: prod.splits dest: tcp_write_ends)
next
  case (Read recv err)
  then show ?thesis using assms by (auto simp: Let_def split: prod.splits dest: tcp_read_ends)
next
  case (On_Read bytes)
  let ?t = "s\<lparr>readBuffer := bytes, ioData := (ioData s)\<lparr>io_bytes := of_nat (length bytes)\<rparr>\<rparr>"
  have "onRead ?t = Inr (ev, s')" using assms On_Read by simp
  then have "step_ends ?t ev s'" by (rule onRead_ends)
  then show ?thesis by (rule step_ends_upd [rotated 3]) simp_all
next
  case Close
  then show ?thesis using assms close_ends by auto
qed (use assms in \<open>auto simp: step_ends_def registerSendHandler_def registerRacvtHandler_def
    registerCloseHandler_def writeFinished_def readFinished_def onWrite_def closing_def split: option.splits\<close>)

text \<open>The close handler registered after some operations, when it is \<open>h\<close> before them.\<close>

fun registered_close :: "'h socket_op list \<Rightarrow> 'h option \<Rightarrow> 'h option" where
  "registered_close [] h = h"
| "registered_close (Set_Close h' # ops) h = registered_close ops h'"
| "registered_close (_ # ops) h = registered_close ops h"

lemma registered_close_Cons:
  "registered_close (op # ops) h = registered_close ops (registered_close [op] h)"
  by (cases op) simp_all

lemma close_closeHandler [simp]: "closeHandler (snd (close s)) = closeHandler s"
  by (simp add: close_def Let_def)

lemma socket_step_closeHandler:
  assumes "socket_step op s = Inr (ev, t)"
  shows "closeHandler t = registered_close [op] (closeHandler s)"
proof -
  have c: "closeHandler t' = closeHandler s'" if "close s' = (ev', t')" for s' t' :: "'a tcp_socket" and ev'
    using close_closeHandler [of s'] that by simp
  show ?thesis
  proof (cases op)
    case (Write send err data len)
    then show ?thesis using assms by (auto simp: tcp_write_def Let_def split: if_splits prod.splits dest: c)
  next
    case (Read recv err)
    then show ?thesis using assms by (auto simp: tcp_read_def Let_def split: if_splits prod.splits dest: c)
  next
    case (On_Read bytes)
    then show ?thesis using assms by (auto simp: onRead_def Let_def split: if_splits dest: c)
  next
    case Close
    then show ?thesis using assms by (auto dest: c)
  qed (use assms in \<open>auto simp: registerSendHandler_def registerRacvtHandler_def registerCloseHandler_def
      onWrite_def\<close>)
qed

text \<open>
  The run has one step that ends the socket: before it the socket is valid and nothing is closed,
  the step closes the handle and calls the handler registered by then, and after it the socket is
  not valid and nothing more is closed.
\<close>

definition ends_once :: "'h tcp_socket \<Rightarrow> 'h socket_op list \<Rightarrow> 'h socket_event list \<Rightarrow> 'h tcp_socket \<Rightarrow> bool" where
  "ends_once s ops ev t \<longleftrightarrow> (\<exists>before op after e1 u e2 v e3.
     ops = before @ op # after \<and> ev = e1 @ e2 @ e3 \<and>
     socket_run before s = Inr (e1, u) \<and> valid u \<and> filter closing e1 = [] \<and>
     socket_step op u = Inr (e2, v) \<and> \<not> valid v \<and>
     filter closing e2 = (if ts_handle s \<noteq> - 1 then [Closesocket (ts_handle s)] else []) @
       (case registered_close before (closeHandler s) of None \<Rightarrow> [] | Some h \<Rightarrow> [Closed h]) \<and>
     socket_run after v = Inr (e3, t) \<and> \<not> valid t \<and> filter closing e3 = [])"

lemma ends_once_Cons:
  assumes st: "socket_step op s = Inr (e, s1)" and "filter closing e = []" and h: "ts_handle s1 = ts_handle s"
    and "ends_once s1 ops ev t"
  shows "ends_once s (op # ops) (e @ ev) t"
proof -
  obtain before o1 after e1 u e2 v e3 where A: "ops = before @ o1 # after" "ev = e1 @ e2 @ e3"
      "socket_run before s1 = Inr (e1, u)" "valid u" "filter closing e1 = []"
      "socket_step o1 u = Inr (e2, v)" "\<not> valid v"
      "filter closing e2 = (if ts_handle s1 \<noteq> - 1 then [Closesocket (ts_handle s1)] else []) @
         (case registered_close before (closeHandler s1) of None \<Rightarrow> [] | Some h \<Rightarrow> [Closed h])"
      "socket_run after v = Inr (e3, t)" "\<not> valid t" "filter closing e3 = []"
    using assms(4) unfolding ends_once_def by (elim exE conjE) (rule that)
  have r: "registered_close (op # before) (closeHandler s) = registered_close before (closeHandler s1)"
    using registered_close_Cons [of op before] socket_step_closeHandler [OF st] by simp
  show ?thesis
    unfolding ends_once_def
    by (rule exI [of _ "op # before"], rule exI [of _ o1], rule exI [of _ after], rule exI [of _ "e @ e1"],
        rule exI [of _ u], rule exI [of _ e2], rule exI [of _ v], rule exI [of _ e3])
      (simp only: r, use A st assms(2) h in simp)
qed

text \<open>A run ends a socket that is valid exactly once, or leaves it as valid as it was.\<close>

lemma socket_run_ends:
  "socket_run ops s = Inr (ev, t) \<Longrightarrow>
   ts_handle t = ts_handle s \<and> (filter closing ev = [] \<and> ts_socket t = ts_socket s \<or> valid s \<and> ends_once s ops ev t)"
proof (induction ops arbitrary: s ev)
  case (Cons op ops)
  then obtain e1 u e2 where st: "socket_step op s = Inr (e1, u)" and run: "socket_run ops u = Inr (e2, t)"
    and ev: "ev = e1 @ e2" by auto
  note A = socket_step_ends [OF st] and B = Cons.IH [OF run]
  have h: "ts_handle u = ts_handle s" using A by (simp add: step_ends_def)
  show ?case
  proof (cases "filter closing e1 = [] \<and> ts_socket u = ts_socket s")
    case True
    have "valid u = valid s" "filter closing ev = filter closing e2" using True by (simp_all add: valid_def ev)
    then show ?thesis using B True h ends_once_Cons [OF st _ h] ev by metis
  next
    case False
    then have a: "valid s" "\<not> valid u"
      "filter closing e1 = (if ts_handle s \<noteq> - 1 then [Closesocket (ts_handle s)] else []) @
         (case closeHandler s of None \<Rightarrow> [] | Some h \<Rightarrow> [Closed h])"
      using A unfolding step_ends_def by blast+
    then have b: "filter closing e2 = []" "ts_socket t = ts_socket u" "ts_handle t = ts_handle u"
      using B by blast+
    then have nt: "\<not> valid t" using a(2) by (simp add: valid_def)
    have "ends_once s (op # ops) ev t"
      unfolding ends_once_def
      by (rule exI [of _ "[]"], rule exI [of _ op], rule exI [of _ ops], rule exI [of _ "[]"], rule exI [of _ s],
          rule exI [of _ e1], rule exI [of _ u], rule exI [of _ e2]) (simp add: ev a st run b(1) nt)
    then show ?thesis using a(1) b(3) h by simp
  qed
qed simp

text \<open>After the end of a socket it is not valid.\<close>

lemma ends_once_invalid: "ends_once s ops ev t \<Longrightarrow> \<not> valid t"
  by (auto simp: ends_once_def)

end
