(* ===== verification/Net_Endpoints.thy ===== *)
theory Net_Endpoints
  imports Net_Socket Timer_Update
begin

text \<open>
  \<open>src/net/tcp_listener.cpp\<close> and \<open>src/net/tcp_client.cpp\<close>: the listener in its variants and the
  client's connection attempts and main loop. The socket manager (\<open>GetSockMgr\<close>) is not in the
  sources; what the client uses of it, the connection status of a registered socket and
  \<open>RunPoll\<close>, is in the state and in the parameters.
\<close>

section \<open>TcpListener\<close>

record listener =
  l_socket :: int
  l_address :: address
  l_listening :: bool
  l_io :: io_data
  l_poller :: poller
  l_acceptHandler :: "nat option"
  l_accepted :: "int list"

text \<open>The results of the calls \<open>listen\<close> makes: \<open>socket\<close>, \<open>setsockopt\<close>, \<open>bind\<close>, \<open>listen\<close>, registration.\<close>

record listen_env =
  le_socket :: int
  le_setsockopt :: int
  le_bind :: int
  le_listen :: int
  le_register :: int

definition TcpListener :: "address \<Rightarrow> int \<Rightarrow> listener" where
  "TcpListener a h = \<lparr>l_socket = - 1, l_address = a, l_listening = False,
     l_io = zero_io, l_poller = Poller h, l_acceptHandler = None, l_accepted = []\<rparr>"

definition TcpListener_ip_port :: "bool \<Rightarrow> name_env \<Rightarrow> string \<Rightarrow> u16 \<Rightarrow> int \<Rightarrow> listener" where
  "TcpListener_ip_port le N ip port h = TcpListener (Address_ip_port le N ip port) h"

definition TcpListener_port :: "bool \<Rightarrow> u16 \<Rightarrow> int \<Rightarrow> listener" where
  "TcpListener_port le port h = TcpListener (Address_port le port) h"

text \<open>A handler is known by a number; the listener itself never calls it.\<close>

definition registerAcceptHandler :: "nat option \<Rightarrow> listener \<Rightarrow> listener" where
  "registerAcceptHandler h l = l\<lparr>l_acceptHandler := h\<rparr>"

text \<open>\<open>memset\<close> of an object: writing more bytes than it has is a fault.\<close>

definition memset_object :: "nat \<Rightarrow> nat \<Rightarrow> unit res" where
  "memset_object object_size n = (if n \<le> object_size then Inr () else Inl Object_Overrun)"

definition sizeof_socket_t :: nat where "sizeof_socket_t = 8"

definition MAX_RECEIVE_BUFFER :: nat where "MAX_RECEIVE_BUFFER = 10240"

text \<open>\<open>BASE_IO_DATA\<close>, \<open>OVERLAPPED\<close>, \<open>bytes\<close>, \<open>data\<close> and padding on 64-bit Windows.\<close>

definition sizeof_IO_DATA :: nat where "sizeof_IO_DATA = 24 + 32 + 4 + MAX_RECEIVE_BUFFER + 4"

text \<open>
  \<open>accept\<close> for IOCP; \<open>false\<close> becomes the socket 0. The arguments are the results of
  \<open>getNewSocket\<close> and \<open>AcceptEx\<close> and the last error.
\<close>

definition accept_iocp :: "int \<Rightarrow> bool \<Rightarrow> u32 \<Rightarrow> listener \<Rightarrow> (int \<times> listener) res" where
  "accept_iocp socket acceptex err l =
     (if socket = - 1 then Inr (0, l)
      else
        res_bind (memset_object sizeof_socket_t sizeof_IO_DATA) (\<lambda>_.
        let socket = 0;
            l = l\<lparr>l_io := (l_io l)\<lparr>io_type := HANDLE_ACCEPT, io_socket := l_socket l\<rparr>\<rparr> in
        if \<not> acceptex \<and> err \<noteq> ERROR_SUCCESS \<and> err \<noteq> WSA_IO_PENDING then Inr (- 1, l)
        else Inr (socket, l)))"

definition listen_iocp :: "listen_env \<Rightarrow> int \<Rightarrow> bool \<Rightarrow> u32 \<Rightarrow> listener \<Rightarrow> (bool \<times> listener) res" where
  "listen_iocp E socket acceptex err l =
     (let l = l\<lparr>l_socket := le_socket E\<rparr> in
      if le_setsockopt E = - 1 then Inr (False, l)
      else if le_bind E = - 1 then Inr (False, l)
      else if le_listen E = - 1 then Inr (False, l)
      else
        let (_, p) = poller_add IOCP (le_register E) (Some 0) (l_socket l) EVENT_READ (l_poller l);
            l = l\<lparr>l_poller := p\<rparr> in
        res_bind (accept_iocp socket acceptex err l) (\<lambda>(s, l). Inr (s \<noteq> 0, l)))"

text \<open>
  The epoll and kqueue variants; the value is \<open>None\<close> where the function ends without a return.
  \<open>runAcceptProcess\<close> and the \<open>SocketMgr\<close> that registers the acceptor are not in the sources and are
  left out.
\<close>

definition listen_posix :: "platform \<Rightarrow> listen_env \<Rightarrow> listener \<Rightarrow> bool option \<times> listener" where
  "listen_posix pf E l =
     (let l = l\<lparr>l_socket := le_socket E\<rparr> in
      if le_setsockopt E = - 1 then (Some False, l)
      else if le_bind E = - 1 then (Some False, l)
      else if le_listen E = - 1 then (Some False, l)
      else
        let l = l\<lparr>l_listening := True\<rparr> in
        if pf = EPOLL then (Some True, l) else (None, l))"

text \<open>
  \<open>accept\<close> on the other platforms: \<open>ob\<close> is the new socket object. The body of \<open>onAccept\<close> is a TODO;
  \<open>l_accepted\<close> is a log of its calls.
\<close>

definition accept_posix :: "platform \<Rightarrow> int \<Rightarrow> nat \<Rightarrow> int \<Rightarrow> listener \<Rightarrow> int \<times> listener" where
  "accept_posix pf socket ob reg l =
     (if socket < 0 \<or> socket = 0 then (socket, l)
      else
        let (_, p) = poller_add pf reg (Some ob) socket EVENT_READ (l_poller l) in
        (socket, l\<lparr>l_poller := p\<rparr>))"

definition onAccept :: "int \<Rightarrow> listener \<Rightarrow> listener" where
  "onAccept socket l = l\<lparr>l_accepted := l_accepted l @ [socket]\<rparr>"

definition listener_onRead :: "platform \<Rightarrow> int \<Rightarrow> nat \<Rightarrow> int \<Rightarrow> listener \<Rightarrow> listener" where
  "listener_onRead pf socket ob reg l =
     (let (socket, l) = accept_posix pf socket ob reg l in onAccept socket l)"

section \<open>TcpClient\<close>

record 'f tcp_client =
  c_run :: bool
  c_timeout :: u32
  c_engine :: "'f timer_thread"
  c_status :: "int \<rightharpoonup> conn_status"
  c_nonblocking :: "int set"
  c_connected :: "(int \<times> int) list"

text \<open>
  \<open>c_status\<close> is the connection status of the registered sockets, \<open>c_nonblocking\<close> the sockets
  made non-blocking, \<open>c_connected\<close> the calls of \<open>onConnect\<close>. The result of \<open>::connect\<close> is true
  for success.
\<close>

definition set_conn_status :: "int \<Rightarrow> conn_status \<Rightarrow> 'f tcp_client \<Rightarrow> 'f tcp_client" where
  "set_conn_status s v c = c\<lparr>c_status := (c_status c)(s \<mapsto> v)\<rparr>"

definition sock_connect :: "bool \<Rightarrow> int \<Rightarrow> 'f tcp_client \<Rightarrow> (conn_status \<times> 'f tcp_client) res" where
  "sock_connect ok s c =
     (case c_status c s of
        None \<Rightarrow> Inl Null_Deref
      | Some v \<Rightarrow>
          let c = (if \<not> ok
                   then (if v \<noteq> CLIENT_UNCONNECTED then set_conn_status s CLIENT_UNCONNECTED c else c)
                   else set_conn_status s CLIENT_CONNECTED (c\<lparr>c_nonblocking := insert s (c_nonblocking c)\<rparr>)) in
          Inr (the (c_status c s), c))"

text \<open>
  The loop of \<open>_connect\<close> and of \<open>connect(SOCKADDR_IN&, int)\<close>; \<open>attempt n\<close> is the result of the
  \<open>n\<close>-th call of \<open>::connect\<close>, \<open>n\<close> counts them.
\<close>

fun connect_loop :: "nat \<Rightarrow> (nat \<Rightarrow> bool) \<Rightarrow> nat \<Rightarrow> int \<Rightarrow> conn_status \<Rightarrow> int \<Rightarrow> 'f tcp_client
    \<Rightarrow> (int \<times> nat \<times> 'f tcp_client) res" where
  "connect_loop 0 attempt n s status test_times c = Inl Out_Of_Fuel"
| "connect_loop (Suc fuel) attempt n s status test_times c =
     (if status = CLIENT_CONNECTING \<and> test_times > 0
      then res_bind (sock_connect (attempt n) s c) (\<lambda>(status, c).
           if status = CLIENT_UNCONNECTED
           then connect_loop fuel attempt (n + 1) s CLIENT_CONNECTING (test_times - 1) c
           else connect_loop fuel attempt (n + 1) s status test_times c)
      else Inr (test_times, n, c))"

definition connect :: "nat \<Rightarrow> (nat \<Rightarrow> bool) \<Rightarrow> int \<Rightarrow> int \<Rightarrow> 'f tcp_client \<Rightarrow> (bool \<times> nat \<times> 'f tcp_client) res" where
  "connect fuel attempt sock_id serverType c =
     (let c = set_conn_status sock_id CLIENT_CONNECTING c in
      res_bind (connect_loop fuel attempt 0 sock_id CLIENT_CONNECTING 10 c) (\<lambda>(test_times, n, c).
      if test_times \<le> 0 then Inr (False, n, c)
      else Inr (True, n, c\<lparr>c_connected := c_connected c @ [(sock_id, serverType)]\<rparr>)))"

text \<open>
  \<open>connect(SOCKADDR_IN&, int)\<close> has its own copy of the loop and of what follows it; the address
  is the only difference, and enters through \<open>attempt\<close>.
\<close>

definition connect_sockaddr :: "nat \<Rightarrow> (nat \<Rightarrow> bool) \<Rightarrow> int \<Rightarrow> int \<Rightarrow> 'f tcp_client \<Rightarrow> (bool \<times> nat \<times> 'f tcp_client) res" where
  "connect_sockaddr fuel attempt sock_id serverType c =
     (let c = set_conn_status sock_id CLIENT_CONNECTING c in
      res_bind (connect_loop fuel attempt 0 sock_id CLIENT_CONNECTING 10 c) (\<lambda>(test_times, n, c).
      if test_times \<le> 0 then Inr (False, n, c)
      else Inr (True, n, c\<lparr>c_connected := c_connected c @ [(sock_id, serverType)]\<rparr>)))"

definition TcpClient :: "int \<Rightarrow> int \<Rightarrow> 'f tcp_client" where
  "TcpClient ts_l ts_g = \<lparr>c_run = True, c_timeout = 1, c_engine = TimerThread ts_l ts_g,
     c_status = Map.empty, c_nonblocking = {}, c_connected = []\<rparr>"

text \<open>The destructor; \<open>StopPoll\<close> of the socket manager is a parameter.\<close>

definition TcpClient_destroy :: "('m \<Rightarrow> 'm) \<Rightarrow> 'f tcp_client \<times> 'm \<Rightarrow> 'f tcp_client \<times> 'm" where
  "TcpClient_destroy StopPoll = (\<lambda>(c, m). (c\<lparr>c_run := False\<rparr>, StopPoll m))"

definition setTimeout :: "u32 \<Rightarrow> 'f tcp_client \<Rightarrow> 'f tcp_client" where
  "setTimeout t c = c\<lparr>c_timeout := t\<rparr>"

definition stop :: "'f tcp_client \<Rightarrow> 'f tcp_client" where
  "stop c = c\<lparr>c_run := False\<rparr>"

text \<open>
  The main loop: \<open>Update\<close> of the timer engine, then \<open>RunPoll\<close>, which is a parameter: it may run
  handlers that change the client, call \<open>stop\<close> or fault; \<open>i\<close> counts the rounds.
\<close>

fun client_run :: "nat \<Rightarrow> 'f timer_env \<Rightarrow> nat \<Rightarrow> (nat \<Rightarrow> 'f tcp_client \<Rightarrow> 'f tcp_client res) \<Rightarrow> nat
    \<Rightarrow> 'f tcp_client \<Rightarrow> (nat \<times> 'f tcp_client) res" where
  "client_run 0 E ufuel RunPoll i c = Inl Out_Of_Fuel"
| "client_run (Suc fuel) E ufuel RunPoll i c =
     (if c_run c
      then res_bind (Update E ufuel (c_engine c)) (\<lambda>eng.
           res_bind (RunPoll i (c\<lparr>c_engine := eng\<rparr>)) (\<lambda>c.
           client_run fuel E ufuel RunPoll (i + 1) c))
      else Inr (i, c))"

section \<open>Lemmas\<close>

lemma sock_connect_eq:
  assumes "c_status c s \<noteq> None"
  shows "sock_connect ok s c = Inr (if ok then CLIENT_CONNECTED else CLIENT_UNCONNECTED,
    if ok then set_conn_status s CLIENT_CONNECTED (c\<lparr>c_nonblocking := insert s (c_nonblocking c)\<rparr>)
    else set_conn_status s CLIENT_UNCONNECTED c)"
proof -
  obtain v where v: "c_status c s = Some v" using assms by blast
  have "set_conn_status s CLIENT_UNCONNECTED c = c" if "v = CLIENT_UNCONNECTED"
    using v that by (simp add: set_conn_status_def fun_upd_idem)
  then show ?thesis using v by (simp add: sock_connect_def set_conn_status_def)
qed

text \<open>All attempts fail, or the first success ends the loop.\<close>

lemma set_conn_status_twice [simp]:
  "set_conn_status s v (set_conn_status s w c) = set_conn_status s v c"
  by (simp add: set_conn_status_def)

lemma connect_loop_fail:
  "(\<forall>i. n \<le> i \<and> i < n + k \<longrightarrow> \<not> attempt i) \<Longrightarrow> k < fuel \<Longrightarrow> c_status c s \<noteq> None \<Longrightarrow> 0 < k \<Longrightarrow>
   connect_loop fuel attempt n s CLIENT_CONNECTING (int k) c =
     Inr (0, n + k, set_conn_status s CLIENT_UNCONNECTED c)"
proof (induction k arbitrary: n fuel c)
  case (Suc k)
  obtain g where g: "fuel = Suc g" "k < g" using Suc.prems(2) by (cases fuel) auto
  have no: "\<not> attempt n" using Suc.prems(1) by simp
  let ?c = "set_conn_status s CLIENT_UNCONNECTED c"
  show ?case
  proof (cases "k = 0")
    case True
    obtain h where "g = Suc h" using g(2) by (cases g) auto
    then show ?thesis using g(1) no sock_connect_eq [OF Suc.prems(3)] True by simp
  next
    case False
    have "c_status ?c s \<noteq> None" by (simp add: set_conn_status_def)
    moreover have "\<forall>i. n + 1 \<le> i \<and> i < n + 1 + k \<longrightarrow> \<not> attempt i" using Suc.prems(1) by simp
    ultimately have "connect_loop g attempt (n + 1) s CLIENT_CONNECTING (int k) ?c = Inr (0, n + 1 + k, ?c)"
      using Suc.IH [of "n + 1" g ?c] g(2) False by simp
    then show ?thesis using g(1) no sock_connect_eq [OF Suc.prems(3)] by simp
  qed
qed simp

lemma connect_loop_success:
  "attempt (n + j) \<Longrightarrow> (\<forall>i. n \<le> i \<and> i < n + j \<longrightarrow> \<not> attempt i) \<Longrightarrow> j < k \<Longrightarrow> j + 1 < fuel \<Longrightarrow>
   c_status c s \<noteq> None \<Longrightarrow>
   \<exists>left. 0 < left \<and> connect_loop fuel attempt n s CLIENT_CONNECTING (int k) c =
     Inr (left, n + j + 1, set_conn_status s CLIENT_CONNECTED (c\<lparr>c_nonblocking := insert s (c_nonblocking c)\<rparr>))"
proof (induction j arbitrary: n fuel c k)
  case 0
  obtain g where g: "fuel = Suc (Suc g)" using 0(4) by (metis One_nat_def Suc_less_eq2 gr0_conv_Suc plus_1_eq_Suc add_0)
  show ?case using 0 g sock_connect_eq [OF 0(5)] by (intro exI [of _ "int k"]) simp
next
  case (Suc j)
  obtain g where g: "fuel = Suc g" "j + 1 < g" using Suc.prems(4) by (cases fuel) auto
  obtain m where m: "k = Suc m" "j < m" using Suc.prems(3) by (cases k) auto
  have no: "\<not> attempt n" using Suc.prems(2) by simp
  let ?c = "set_conn_status s CLIENT_UNCONNECTED c"
  have upd: "set_conn_status s CLIENT_CONNECTED (?c\<lparr>c_nonblocking := insert s (c_nonblocking ?c)\<rparr>) =
      set_conn_status s CLIENT_CONNECTED (c\<lparr>c_nonblocking := insert s (c_nonblocking c)\<rparr>)"
    by (simp add: set_conn_status_def)
  have "c_status ?c s \<noteq> None" by (simp add: set_conn_status_def)
  moreover have "attempt (n + 1 + j)" "\<forall>i. n + 1 \<le> i \<and> i < n + 1 + j \<longrightarrow> \<not> attempt i"
    using Suc.prems(1,2) by simp_all
  ultimately obtain left where "0 < left" "connect_loop g attempt (n + 1) s CLIENT_CONNECTING (int m) ?c =
      Inr (left, n + 1 + j + 1, set_conn_status s CLIENT_CONNECTED (?c\<lparr>c_nonblocking := insert s (c_nonblocking ?c)\<rparr>))"
    using Suc.IH [of "n + 1" m g ?c] m(2) g(2) by blast
  then show ?case
    using g(1) m(1) no sock_connect_eq [OF Suc.prems(5)] upd by (intro exI [of _ left]) simp
qed

text \<open>After \<open>n\<close> rounds the main loop is where the rounds have led it.\<close>

lemma client_run_rounds:
  assumes "\<And>j. i \<le> j \<Longrightarrow> j < i + n \<Longrightarrow> c_run (st j) \<and> Update E ufuel (c_engine (st j)) = Inr (eng j) \<and>
      RunPoll j ((st j)\<lparr>c_engine := eng j\<rparr>) = Inr (st (j + 1))"
    and "n < fuel"
  shows "client_run fuel E ufuel RunPoll i (st i) = client_run (fuel - n) E ufuel RunPoll (i + n) (st (i + n))"
  using assms
proof (induction n arbitrary: i fuel)
  case (Suc n)
  obtain g where g: "fuel = Suc g" "n < g" using Suc.prems(2) by (cases fuel) auto
  have "client_run g E ufuel RunPoll (i + 1) (st (i + 1)) =
      client_run (g - n) E ufuel RunPoll (i + 1 + n) (st (i + 1 + n))"
    using Suc.prems(1) g(2) by (intro Suc.IH) auto
  then show ?case using g Suc.prems(1) [of i] by simp
qed simp

end
