(* ===== verification/Logger.thy ===== *)
theory Logger
  imports Net_Address
begin

text \<open>
  \<open>src/util/logger.cpp\<close>: \<open>print_log\<close> on the standard output and \<open>print_log_local\<close> on a file per
  level. The message is the text that \<open>vfprintf\<close> makes of the format and the arguments.
\<close>

datatype qlog_level =
    QLOG_LEVEL_DEBUG
  | QLOG_LEVEL_INFO
  | QLOG_LEVEL_WARN
  | QLOG_LEVEL_ERROR
  | QLOG_LEVEL_FATAL

definition newline :: string where "newline = [char_of (10 :: nat)]"

text \<open>\<open>switch\<close> of both functions: the levels without a case take the default.\<close>

definition level_tag :: "qlog_level \<Rightarrow> string" where
  "level_tag level =
     (case level of
        QLOG_LEVEL_DEBUG \<Rightarrow> ''[DEBUG]''
      | QLOG_LEVEL_INFO \<Rightarrow> ''[INFO]''
      | QLOG_LEVEL_WARN \<Rightarrow> ''[WARNING]''
      | QLOG_LEVEL_ERROR \<Rightarrow> ''[ERROR]''
      | _ \<Rightarrow> ''[INFO]'')"

definition print_log :: "qlog_level \<Rightarrow> string \<Rightarrow> nat \<Rightarrow> string \<Rightarrow> string" where
  "print_log level filename line msg =
     level_tag level @ ''['' @ filename @ '':'' @ decimal line @ ''] '' @ msg @ newline"

text \<open>
  The files by name. \<open>fopen\<close> in append mode creates a missing file; when it fails the Windows
  code returns, the other code writes through a null pointer.
\<close>

definition log_name :: "qlog_level \<Rightarrow> string" where
  "log_name level = level_tag level @ ''.log''"

definition print_log_local ::
  "bool \<Rightarrow> (string \<Rightarrow> bool) \<Rightarrow> qlog_level \<Rightarrow> string \<Rightarrow> (string \<rightharpoonup> string) \<Rightarrow> (string \<rightharpoonup> string) res" where
  "print_log_local windows fopen level msg fs =
     (let logname = log_name level in
      if fopen logname
      then Inr (fs(logname \<mapsto> (case fs logname of None \<Rightarrow> '''' | Some text \<Rightarrow> text) @
                  ''[robot]'' @ msg @ newline))
      else if windows then Inr fs else Inl Null_Deref)"

text \<open>Two levels share a file exactly when they share a tag.\<close>

lemma level_tag_eq_iff:
  "level_tag a = level_tag b \<longleftrightarrow>
   a = b \<or> {a, b} = {QLOG_LEVEL_INFO, QLOG_LEVEL_FATAL}"
  by (cases a; cases b) (auto simp: level_tag_def)

end
