(* ===== verification/Net_Properties.thy ===== *)
theory Net_Properties
  imports Net_Endpoints Logger Timer_Thread_Properties
begin

text \<open>
  The properties of the network components: addresses, sizes, pollers, sockets, the listener
  and the client, and of the logger.
\<close>

section \<open>Decimals and sizes\<close>

lemma length_decimal:
  "n < 10 ^ Suc k \<Longrightarrow> length (decimal n) \<le> Suc k"
proof (induction k arbitrary: n)
  case 0
  then show ?case by (simp add: decimal.simps)
next
  case (Suc k)
  have "n div 10 < 10 ^ Suc k" using Suc.prems by simp
  from Suc.IH [OF this] show ?case by (subst decimal.simps) simp
qed

lemma decimal_not_nul:
  "char_of (0 :: nat) \<notin> set (decimal n)"
proof (induction n rule: decimal.induct)
  case (1 n)
  have "char_of (48 + m) \<noteq> char_of (0 :: nat)" if "m < 10" for m :: nat
  proof
    assume "char_of (48 + m) = (char_of (0 :: nat) :: char)"
    then have "of_char (char_of (48 + m) :: char) = (of_char (char_of (0 :: nat) :: char) :: nat)" by simp
    then show False using that by simp
  qed
  then show ?case using 1 by (subst decimal.simps) (auto dest: sym)
qed

lemma byte_of_less: "byte_of k x < 256"
proof -
  have "(0xff :: u32) = 2 ^ 8 - 1" by simp
  then have "byte_of k x = unat (drop_bit (8 * k) x) mod 2 ^ 8"
    unfolding byte_of_def by (simp only: unat_and_pow2_minus_1)
  then show ?thesis by simp
qed

lemma length_inet_ntop: "length (inet_ntop le a) \<le> 15"
proof -
  have L: "length (decimal (byte_of k x)) \<le> 3" for k x
    using length_decimal [of "byte_of k x" 2] byte_of_less [of k x] by simp
  define h where "h = ntohl le a"
  show ?thesis
    using L [of 3 h] L [of 2 h] L [of 1 h] L [of 0 h]
    by (simp add: inet_ntop_def Let_def h_def [symmetric])
qed

lemma inet_ntop_not_nul: "char_of (0 :: nat) \<notin> set (inet_ntop le a)"
proof -
  have "char_of (0 :: nat) \<noteq> CHR ''.''" by (simp add: char_of_def)
  then show ?thesis using decimal_not_nul by (auto simp: inet_ntop_def Let_def)
qed

text \<open>Rounding to the nearest is off by half the divisor at most.\<close>

lemma rne_error:
  assumes "0 < b"
  shows "2 * \<bar>int (rne a b) * int b - int a\<bar> \<le> int b"
proof -
  define d r where "d = a div b" and "r = a mod b"
  have a: "int a = int d * int b + int r" and r: "r < b"
    using assms by (simp_all add: d_def r_def flip: of_nat_mult of_nat_add)
  show ?thesis
  proof (cases "2 * r < b \<or> 2 * r = b \<and> even d")
    case True
    then have "rne a b = d" by (simp add: rne_def d_def r_def Let_def)
    then show ?thesis using True a by auto
  next
    case False
    then have "rne a b = d + 1" by (simp add: rne_def d_def r_def Let_def)
    then have "int (rne a b) * int b - int a = int b - int r" using a by (simp add: algebra_simps)
    then show ?thesis using False r by auto
  qed
qed

lemma float_ulp_bound: "n < 2 ^ (24 + k) \<Longrightarrow> float_ulp fuel n \<le> 2 ^ k \<and> 0 < float_ulp fuel n"
proof (induction fuel arbitrary: n k)
  case (Suc fuel)
  show ?case
  proof (cases "n < 2 ^ 24")
    case False
    then obtain j where k: "k = Suc j" using Suc.prems by (cases k) auto
    have "n div 2 < 2 ^ (24 + j)" using Suc.prems k by (simp add: power_add)
    from Suc.IH [OF this] show ?thesis using False k by simp
  qed simp
qed simp

lemma abs_le_nat: "\<bar>int x - int n\<bar> \<le> 128 \<Longrightarrow> n < m \<Longrightarrow> x \<le> m + 128"
  by simp

lemma half_le: "2 * \<bar>x :: int\<bar> \<le> a \<Longrightarrow> a \<le> 256 \<Longrightarrow> \<bar>x\<bar> \<le> 128"
  by simp

lemma to_float_error: "\<bar>int (to_float w) - int (unat w)\<bar> \<le> 128" and to_float_le: "to_float w \<le> 2 ^ 32 + 128"
proof -
  define u where "u = float_ulp 8 (unat w)"
  have w: "unat w < 2 ^ 32" using unat_less_pow [of w] by simp
  then have "u \<le> 2 ^ 8 \<and> 0 < u" unfolding u_def by (intro float_ulp_bound) simp
  then have u: "u \<le> 256" "0 < u" by simp_all
  then have iu: "int u \<le> 256" by simp
  have "to_float w = rne (unat w) u * u" by (simp add: to_float_def u_def Let_def)
  then have "2 * \<bar>int (to_float w) - int (unat w)\<bar> \<le> int u"
    using rne_error [OF u(2), of "unat w"] by simp
  then show e: "\<bar>int (to_float w) - int (unat w)\<bar> \<le> 128"
    using iu half_le [of "int (to_float w) - int (unat w)" "int u"] by blast
  show "to_float w \<le> 2 ^ 32 + 128" by (rule abs_le_nat [OF e w])
qed

section \<open>Properties of addresses and sizes\<close>

text \<open>
  An address gives back the port it was made with, in every case. Made from a port alone
  its IP is 0; made from a name, the IP is that of the literal when the name is one, else the
  first address the lookup finds, except 255.255.255.255, which counts as a failure; a name
  that is not found becomes 0.0.0.0 with no error.
\<close>
theorem address_spec:
  "Address_get_port le (Address_port le port) = port \<and> Address_ip le (Address_port le port) = 0 \<and>
   Address_get_port le (Address_ip_port le N name port) = port \<and>
   Address_ip le (Address_ip_port le N name port) =
     (case inet_pton N name of
        Some a \<Rightarrow> ntohl le a
      | None \<Rightarrow> (case getaddrinfo N name of
          (ret, a # _) \<Rightarrow> if ret = 0 \<and> a \<noteq> 0xffffffff then ntohl le a else 0
        | (ret, []) \<Rightarrow> 0))"
  by (auto simp: Address_port_def Address_ip_port_def Address_get_port_def Address_ip_def
      getHostByName_def INADDR_ANY_def ntohl_def Let_def split: option.splits prod.splits list.splits)

text \<open>
  \<open>ipString\<close> always has 32 characters: the dotted decimals, at most 15 of them, followed by
  NUL characters. It is therefore never equal to the dotted decimals of the address.
\<close>
theorem ipString_spec:
  "length (ipString le a) = 32 \<and>
   (\<exists>n \<ge> 17. ipString le a = inet_ntop le (s_addr (a_sockAddr a)) @ replicate n (char_of (0 :: nat))) \<and>
   ipString le a \<noteq> inet_ntop le (s_addr (a_sockAddr a))"
proof -
  let ?t = "inet_ntop le (s_addr (a_sockAddr a))"
  have len: "length ?t \<le> 15" by (rule length_inet_ntop)
  then have eq: "ipString le a = ?t @ replicate (32 - length ?t) (char_of (0 :: nat))"
    by (simp add: ipString_def Let_def)
  then have "length (ipString le a) = 32" using len by simp
  moreover have "ipString le a \<noteq> ?t" using calculation len by auto
  moreover have "32 - length ?t \<ge> 17" using len by simp
  ultimately show ?thesis using eq by blast
qed

text \<open>
  The size formatter shows a number of hundredths of a unit that is never TB: the value is
  the float nearest to the size, at most 128 bytes away, divided by the largest of the four
  units that does not exceed it, and is rounded to the nearest hundredth.
\<close>
theorem cenvertBytesToSize_spec:
  "\<exists>u name h bytes. cenvertBytesToSize sz = decimal (h div 100) @ ''.'' @ two_digits (h mod 100) @ '' '' @ name \<and>
     (u, name) \<in> {(1, ''Bytes''), (1024, ''KB''), (1024 * 1024, ''MB''), (1024 * 1024 * 1024, ''GB'')} \<and>
     \<bar>int bytes - int (unat sz)\<bar> \<le> 128 \<and> bytes < 1024 * u \<and> (u \<le> bytes \<or> u = 1) \<and>
     2 * \<bar>int h * int u - 100 * int bytes\<bar> \<le> int u"
proof -
  define b where "b = to_float sz"
  have err: "\<bar>int b - int (unat sz)\<bar> \<le> 128" unfolding b_def by (rule to_float_error)
  have lim: "b < 1099511627776" using to_float_le [of sz] by (simp add: b_def)
  have r: "2 * \<bar>int (rne (100 * b) u) * int u - 100 * int b\<bar> \<le> int u" if "0 < u" for u
    using rne_error [OF that, of "100 * b"] by simp
  note eq = cenvertBytesToSize_def [of sz, folded b_def, unfolded Let_def format2_def]
  consider "b < 1024" | "1024 \<le> b" "b < 1048576" | "1048576 \<le> b" "b < 1073741824" | "1073741824 \<le> b"
    by linarith
  then show ?thesis
  proof cases
    case 1
    then show ?thesis using err r [of 1] eq
      by (intro exI [of _ 1] exI [of _ "''Bytes''"] exI [of _ "rne (100 * b) 1"] exI [of _ b]) simp
  next
    case 2
    then show ?thesis using err r [of 1024] eq
      by (intro exI [of _ 1024] exI [of _ "''KB''"] exI [of _ "rne (100 * b) 1024"] exI [of _ b]) simp
  next
    case 3
    then show ?thesis using err r [of 1048576] eq
      by (intro exI [of _ 1048576] exI [of _ "''MB''"] exI [of _ "rne (100 * b) 1048576"] exI [of _ b]) simp
  next
    case 4
    then show ?thesis using err r [of 1073741824] eq lim
      by (intro exI [of _ 1073741824] exI [of _ "''GB''"] exI [of _ "rne (100 * b) 1073741824"] exI [of _ b]) simp
  qed
qed

section \<open>Properties of the pollers\<close>

lemma unat_minus_1: "unat (- 1 :: u32) = 4294967295"
proof -
  have "(- 1 :: u32) = 4294967295" by simp
  then show ?thesis by (simp only: unat_numeral) simp
qed

text \<open>
  When \<open>epoll_wait\<close> fails with -1, whatever \<open>errno\<close> is, \<open>poll\<close> neither returns true for
  an interrupted call nor reports the error: the result is stored unsigned, the test for a
  negative value is never true, and the loop runs past the end of the array of events.
\<close>
theorem epoll_error_overruns:
  assumes "epoll_wait (poll_timeout timeout) = (- 1, events)" and "length events = MAX_EVENT_SIZE"
  shows "poll_epoll epoll_wait eintr timeout = Inl Out_Of_Bounds"
proof -
  have "unat (word_of_int (- 1) :: u32) = 4294967295" by (simp add: unat_minus_1)
  then have "epoll_loop 0 (unat (word_of_int (- 1) :: u32)) events [] = Inl Out_Of_Bounds"
    using assms(2) by (intro epoll_loop_bounds) (simp_all add: MAX_EVENT_SIZE_def)
  then show ?thesis using assms(1) by (simp add: poll_epoll_def)
qed

theorem epoll_error_overruns_witness:
  "poll_epoll (\<lambda>_. (- 1, replicate 256 \<lparr>ev_ptr = None, ev_events = 0\<rparr>)) True 5 = Inl Out_Of_Bounds"
  by (rule epoll_error_overruns [OF refl]) (simp add: MAX_EVENT_SIZE_def)

text \<open>The masks as bits.\<close>

lemma mask_bits:
  "w AND EPOLLIN \<noteq> 0 \<longleftrightarrow> bit w 0" "w AND EPOLLOUT \<noteq> 0 \<longleftrightarrow> bit w 2"
  "v AND EV_EOF \<noteq> 0 \<longleftrightarrow> bit v 15" "v AND EV_ERROR \<noteq> 0 \<longleftrightarrow> bit v 14"
  by (simp_all only: bit_iff_and_push_bit_not_eq_0) (simp_all add: EPOLLIN_def EPOLLOUT_def EV_EOF_def EV_ERROR_def push_bit_eq_mult)

text \<open>
  C38. What a poll calls, for each event the kernel gives. epoll and kqueue, when the call gives
  \<open>r\<close> events, no more than the array holds: \<open>poll\<close> returns true, and the calls are those of the
  first \<open>r\<close> entries of the array, one entry after the other. An entry with a null pointer calls
  nothing. For epoll an entry of an object calls \<open>onRead\<close> once when it is readable (bit 0), whether or
  not it is also writable; else \<open>onWrite\<close> once when it is writable (bit 2); else nothing. For kqueue the
  read filter (-1) calls \<open>onRead\<close> once and the write filter (-2) \<open>onWrite\<close> once, any other filter nothing;
  when the end-of-file or the error flag is set (bits 15 and 14) one call of \<open>onRead\<close> comes before
  that. A failed \<open>kevent\<close> is returned as false. IOCP gives one packet: \<open>poll\<close> returns true and a
  completed write calls \<open>onWrite\<close>, a completed accept or read \<open>onRead\<close>, once, of the object that the
  pool holds for the socket, with the byte count stored before; a packet of type \<open>HANDLE_COMPLETE\<close> calls
  nothing, and without a packet \<open>poll\<close> returns false.
\<close>
theorem poll_dispatches:
  assumes "0 \<le> r" and "nat r \<le> length events" and "length events = MAX_EVENT_SIZE"
    and "nat r \<le> length kevents" and "length kevents = MAX_EVENT_SIZE"
  shows "(\<exists>calls. poll_epoll (\<lambda>_. (r, events)) eintr timeout = Inr (True, concat calls) \<and> length calls = nat r \<and>
      (\<forall>i < nat r. (ev_ptr (events ! i) = None \<longrightarrow> calls ! i = []) \<and>
        (\<forall>x. ev_ptr (events ! i) = Some x \<longrightarrow>
          (bit (ev_events (events ! i)) 0 \<longrightarrow> calls ! i = [OnRead x]) \<and>
          (\<not> bit (ev_events (events ! i)) 0 \<and> bit (ev_events (events ! i)) 2 \<longrightarrow> calls ! i = [OnWrite x]) \<and>
          (\<not> bit (ev_events (events ! i)) 0 \<and> \<not> bit (ev_events (events ! i)) 2 \<longrightarrow> calls ! i = [])))) \<and>
    (\<exists>calls. poll_kqueue (\<lambda>_. (r, kevents)) timeout = Inr (True, concat calls) \<and> length calls = nat r \<and>
      (\<forall>i < nat r. (kv_udata (kevents ! i) = None \<longrightarrow> calls ! i = []) \<and>
        (\<forall>x. kv_udata (kevents ! i) = Some x \<longrightarrow>
          (let failed = bit (kv_flags (kevents ! i)) 15 \<or> bit (kv_flags (kevents ! i)) 14 in
           (kv_filter (kevents ! i) = - 1 \<longrightarrow> calls ! i = (if failed then [OnRead x, OnRead x] else [OnRead x])) \<and>
           (kv_filter (kevents ! i) = - 2 \<longrightarrow> calls ! i = (if failed then [OnRead x, OnWrite x] else [OnWrite x])) \<and>
           (kv_filter (kevents ! i) \<noteq> - 1 \<and> kv_filter (kevents ! i) \<noteq> - 2 \<longrightarrow>
              calls ! i = (if failed then [OnRead x] else [])))))) \<and>
    poll_kqueue (\<lambda>_. (- 1, kevents)) timeout = Inr (False, []) \<and>
    (\<forall>x. io_type io \<noteq> HANDLE_COMPLETE \<and> socketPool p (io_socket io) = Some (Some x) \<longrightarrow>
      poll_iocp (\<lambda>_. (ret, n, Some io)) timeout p =
        Inr (True, [if io_type io = HANDLE_WRITE then OnWrite x else OnRead x], Some (io\<lparr>io_bytes := n\<rparr>), p)) \<and>
    (io_type io = HANDLE_COMPLETE \<longrightarrow>
      poll_iocp (\<lambda>_. (ret, n, Some io)) timeout p = Inr (True, [], Some (io\<lparr>io_bytes := n\<rparr>), p)) \<and>
    poll_iocp (\<lambda>_. (False, n, None)) timeout p = Inr (False, [], None, p)"
proof (intro conjI)
  have small: "r < 2 ^ LENGTH(32)" using assms(1-3) by (simp add: MAX_EVENT_SIZE_def)
  have u: "unat (word_of_int r :: u32) = nat r" using assms(1) small by (rule unat_of_int_small)
  have z: "(word_of_int r :: u32) = 0 \<longleftrightarrow> nat r = 0" using u by (metis unat_eq_zero)
  have "poll_epoll (\<lambda>_. (r, events)) eintr timeout = Inr (True, concat (map epoll_event_step (take (nat r) events)))"
    using u z epoll_loop_ok [OF assms(2), of 0 "[]"] by (simp add: poll_epoll_def)
  then show "\<exists>calls. poll_epoll (\<lambda>_. (r, events)) eintr timeout = Inr (True, concat calls) \<and> length calls = nat r \<and>
      (\<forall>i < nat r. (ev_ptr (events ! i) = None \<longrightarrow> calls ! i = []) \<and>
        (\<forall>x. ev_ptr (events ! i) = Some x \<longrightarrow>
          (bit (ev_events (events ! i)) 0 \<longrightarrow> calls ! i = [OnRead x]) \<and>
          (\<not> bit (ev_events (events ! i)) 0 \<and> bit (ev_events (events ! i)) 2 \<longrightarrow> calls ! i = [OnWrite x]) \<and>
          (\<not> bit (ev_events (events ! i)) 0 \<and> \<not> bit (ev_events (events ! i)) 2 \<longrightarrow> calls ! i = [])))"
    using assms(2) by (intro exI [of _ "map epoll_event_step (take (nat r) events)"]) (simp add: epoll_event_step_def mask_bits)
  have m: "(word_of_int r :: u32) \<noteq> - 1"
  proof
    assume "(word_of_int r :: u32) = - 1"
    then have "nat r = unat (- 1 :: u32)" using u by simp
    then show False using assms(2,3) by (simp add: MAX_EVENT_SIZE_def unat_minus_1)
  qed
  have "poll_kqueue (\<lambda>_. (r, kevents)) timeout = Inr (True, concat (map kqueue_event_step (take (nat r) kevents)))"
    using u z m kqueue_loop_ok [OF assms(4), of 0 "[]"] by (simp add: poll_kqueue_def)
  then show "\<exists>calls. poll_kqueue (\<lambda>_. (r, kevents)) timeout = Inr (True, concat calls) \<and> length calls = nat r \<and>
      (\<forall>i < nat r. (kv_udata (kevents ! i) = None \<longrightarrow> calls ! i = []) \<and>
        (\<forall>x. kv_udata (kevents ! i) = Some x \<longrightarrow>
          (let failed = bit (kv_flags (kevents ! i)) 15 \<or> bit (kv_flags (kevents ! i)) 14 in
           (kv_filter (kevents ! i) = - 1 \<longrightarrow> calls ! i = (if failed then [OnRead x, OnRead x] else [OnRead x])) \<and>
           (kv_filter (kevents ! i) = - 2 \<longrightarrow> calls ! i = (if failed then [OnRead x, OnWrite x] else [OnWrite x])) \<and>
           (kv_filter (kevents ! i) \<noteq> - 1 \<and> kv_filter (kevents ! i) \<noteq> - 2 \<longrightarrow>
              calls ! i = (if failed then [OnRead x] else [])))))"
    using assms(4) by (intro exI [of _ "map kqueue_event_step (take (nat r) kevents)"])
      (simp add: kqueue_event_step_def mask_bits EVFILT_READ_def EVFILT_WRITE_def Let_def)
qed (auto simp: poll_kqueue_def poll_iocp_def pool_at_def deref_obj_def Let_def split: io_type.splits)

theorem poll_dispatches_witness:
  "poll_epoll (\<lambda>_. (1, \<lparr>ev_ptr = Some 7, ev_events = 5\<rparr> # replicate 255 \<lparr>ev_ptr = None, ev_events = 0\<rparr>)) False 5 =
     Inr (True, [OnRead 7]) \<and>
   poll_kqueue (\<lambda>_. (1, \<lparr>kv_udata = Some 8, kv_flags = 0x8000, kv_filter = - 2\<rparr> #
     replicate 255 \<lparr>kv_udata = None, kv_flags = 0, kv_filter = 0\<rparr>)) 5 = Inr (True, [OnRead 8, OnWrite 8])"
proof -
  define pad where "pad = replicate 255 \<lparr>ev_ptr = None, ev_events = 0\<rparr>"
  define kpad where "kpad = replicate 255 \<lparr>kv_udata = None, kv_flags = 0, kv_filter = 0\<rparr>"
  let ?E = "\<lparr>ev_ptr = Some 7, ev_events = 5\<rparr> # pad"
  let ?K = "\<lparr>kv_udata = Some 8, kv_flags = 0x8000, kv_filter = - 2\<rparr> # kpad"
  have len: "length ?E = MAX_EVENT_SIZE" "length ?K = MAX_EVENT_SIZE" by (simp_all add: MAX_EVENT_SIZE_def pad_def kpad_def)
  have one: "nat 1 \<le> length ?E" "nat 1 \<le> length ?K" by simp_all
  note P = poll_dispatches [of 1 ?E ?K, OF zero_le_one one(1) len(1) one(2) len(2)]
  obtain calls where A: "poll_epoll (\<lambda>_. (1, ?E)) False 5 = Inr (True, concat calls)" "length calls = Suc 0"
      "calls ! 0 = [OnRead 7]"
    using P [where eintr = False and timeout = 5, THEN conjunct1] by auto
  have eof: "bit (0x8000 :: u16) 15" by (simp add: bit_iff_odd)
  obtain kcalls where B: "poll_kqueue (\<lambda>_. (1, ?K)) 5 = Inr (True, concat kcalls)" "length kcalls = nat 1"
      and C: "\<forall>i < nat 1. (kv_udata (?K ! i) = None \<longrightarrow> kcalls ! i = []) \<and>
        (\<forall>x. kv_udata (?K ! i) = Some x \<longrightarrow>
          (let failed = bit (kv_flags (?K ! i)) 15 \<or> bit (kv_flags (?K ! i)) 14 in
           (kv_filter (?K ! i) = - 1 \<longrightarrow> kcalls ! i = (if failed then [OnRead x, OnRead x] else [OnRead x])) \<and>
           (kv_filter (?K ! i) = - 2 \<longrightarrow> kcalls ! i = (if failed then [OnRead x, OnWrite x] else [OnWrite x])) \<and>
           (kv_filter (?K ! i) \<noteq> - 1 \<and> kv_filter (?K ! i) \<noteq> - 2 \<longrightarrow>
              kcalls ! i = (if failed then [OnRead x] else []))))"
    using P [where timeout = 5, THEN conjunct2, THEN conjunct1] by (elim exE conjE) (rule that)
  have "kcalls ! 0 = [OnRead 8, OnWrite 8]"
    using C [THEN spec, of 0] eof by (simp only: nth_Cons_0 kevent.simps Let_def simp_thms if_True zero_less_one nat_one_as_int [symmetric] option.inject)
  note B = B this
  have "concat calls = [OnRead 7]" "concat kcalls = [OnRead 8, OnWrite 8]"
    using A(2,3) B(2,3) by (auto simp: length_Suc_conv)
  then show ?thesis using A(1) B(1) unfolding pad_def [symmetric] kpad_def [symmetric] by simp
qed

text \<open>
  An IOCP poll dispatches a completed accept or read to \<open>onRead\<close> and a completed write to
  \<open>onWrite\<close> of the object that was added for the socket, exactly once; \<open>remove\<close> leaves the
  object in the pool, so a completion that arrives later is still dispatched to it; a socket
  that was never added makes the poll call through a null pointer.
\<close>
theorem iocp_dispatch:
  assumes "t = HANDLE_ACCEPT \<or> t = HANDLE_READ \<or> t = HANDLE_WRITE"
    and "io = \<lparr>io_type = t, io_socket = s, io_bytes = b\<rparr>"
  shows "(\<forall>x p. socketPool p s = Some (Some x) \<longrightarrow>
      poll_iocp (\<lambda>_. (ret, n, Some io)) timeout p =
        Inr (True, [if t = HANDLE_WRITE then OnWrite x else OnRead x], Some (io\<lparr>io_bytes := n\<rparr>), p)) \<and>
    (\<forall>p. socketPool p s = None \<longrightarrow> poll_iocp (\<lambda>_. (ret, n, Some io)) timeout p = Inl Null_Deref) \<and>
    (\<forall>x p k k' e. socketPool (snd (poller_remove IOCP k' s (snd (poller_add IOCP k (Some x) s e p)))) s = Some (Some x))"
  using assms(1)
  by (auto simp: assms(2) poll_iocp_def pool_at_def deref_obj_def Let_def poller_add_def poller_remove_def)

theorem iocp_dispatch_witness:
  "poll_iocp (\<lambda>_. (True, 3, Some \<lparr>io_type = HANDLE_READ, io_socket = 5, io_bytes = 0\<rparr>)) 10
     \<lparr>p_handle = 1, socketPool = [5 \<mapsto> Some 9], p_registered = {}\<rparr> =
   Inr (True, [OnRead 9], Some \<lparr>io_type = HANDLE_READ, io_socket = 5, io_bytes = 3\<rparr>,
     \<lparr>p_handle = 1, socketPool = [5 \<mapsto> Some 9], p_registered = {}\<rparr>)"
  using iocp_dispatch [OF _ refl, where t = HANDLE_READ and s = 5 and b = 0 and ret = True and n = 3 and timeout = 10]
  by simp

text \<open>
  The result of the kernel call that removes a registration is stored unsigned and compared
  with zero: on every platform \<open>remove\<close> returns true, also when the call failed and the
  registration is still there.
\<close>
theorem remove_hides_errors:
  "fst (poller_remove pf k s p) = True \<and>
   (k < 0 \<longrightarrow> p_registered (snd (poller_remove pf k s p)) = p_registered p)"
  by (auto simp: poller_remove_def split: platform.splits)

theorem remove_hides_errors_witness:
  "p_registered (snd (poller_remove EPOLL (- 1) 5 \<lparr>p_handle = 1, socketPool = Map.empty, p_registered = {(5, 1)}\<rparr>)) = {(5, 1)}"
  using remove_hides_errors [of EPOLL "- 1" 5 "\<lparr>p_handle = 1, socketPool = Map.empty, p_registered = {(5, 1)}\<rparr>"]
  by simp

text \<open>
  The masks: epoll's has exactly the bits of the events asked for, with the one-shot bit
  whenever one is a read or a write. kqueue's ORs two filter numbers that are not bit masks:
  a request that includes reading gives the read filter alone, and writing is lost.
\<close>
theorem event_masks:
  "(convertEventMask_epoll e AND EPOLLIN = 0 \<longleftrightarrow> e AND EVENT_READ = 0) \<and>
   (convertEventMask_epoll e AND EPOLLOUT = 0 \<longleftrightarrow> e AND EVENT_WRITE = 0) \<and>
   (convertEventMask_epoll e AND EPOLLERR = 0 \<longleftrightarrow> e AND EVENT_ERROR = 0) \<and>
   (convertEventMask_epoll e AND EPOLLONESHOT = 0 \<longleftrightarrow> e AND EVENT_READ = 0 \<and> e AND EVENT_WRITE = 0) \<and>
   convertEventMask_kqueue e =
     (if e AND EVENT_READ \<noteq> 0 then EVFILT_READ else if e AND EVENT_WRITE \<noteq> 0 then EVFILT_WRITE else 0)"
  by (simp add: convertEventMask_epoll_def convertEventMask_kqueue_def EPOLLIN_def EPOLLOUT_def
      EPOLLERR_def EPOLLONESHOT_def EVFILT_READ_def EVFILT_WRITE_def Let_def)

section \<open>Properties of the socket\<close>

text \<open>
  Whatever sequence of operations a socket goes through, it is ended at most once: when it stops
  being valid one operation closed its handle and called the close handler registered by then,
  in this order, and no other operation did either; on a socket that stays valid, and on one that
  was not valid at the start, neither happens. A socket that is not valid never becomes valid again.
\<close>
theorem socket_closes_once:
  assumes "socket_run ops s = Inr (ev, s')"
  shows "(if valid s \<and> \<not> valid s' then ends_once s ops ev s' else filter closing ev = []) \<and>
    (valid s' \<longrightarrow> valid s)"
  using socket_run_ends [OF assms] ends_once_invalid by (auto simp: valid_def)

theorem socket_closes_once_witness:
  "\<exists>ev s'. socket_run [Set_Close (Some 1), On_Read [], Close, Close] (TcpSocket_socket 0 5 :: nat tcp_socket) = Inr (ev, s') \<and>
     ev = [Closesocket 5, Closed 1] \<and>
     ends_once (TcpSocket_socket 0 5) [Set_Close (Some 1), On_Read [], Close, Close] ev s'"
proof -
  let ?s = "TcpSocket_socket 0 5 :: nat tcp_socket"
  let ?ops = "[Set_Close (Some 1), On_Read [], Close, Close]"
  obtain s' where run: "socket_run ?ops ?s = Inr ([Closesocket 5, Closed 1], s')" and nv: "\<not> valid s'"
    by (auto simp: TcpSocket_socket_def init_io_def fresh_socket_def registerCloseHandler_def
        onRead_def close_def valid_def Let_def zero_io_def)
  have "valid ?s" by (simp add: TcpSocket_socket_def init_io_def fresh_socket_def valid_def)
  then have "ends_once ?s ?ops [Closesocket 5, Closed 1] s'"
    using socket_closes_once [OF run] nv by (auto simp only: if_P simp_thms)
  then show ?thesis using run by blast
qed

text \<open>
  Received data is queued whole and in order: a completed receive of \<open>n > 0\<close> bytes appends
  exactly those bytes, with their length, and emits nothing; one of no bytes closes the socket.
  The queue the data goes to is the one named for writing.
\<close>
theorem onRead_queues:
  assumes "length bytes < 2 ^ 32"
  shows "socket_step (On_Read bytes) s =
    (let t = s\<lparr>readBuffer := bytes, ioData := (ioData s)\<lparr>io_bytes := of_nat (length bytes)\<rparr>\<rparr> in
     if bytes = [] then Inr (close t)
     else Inr ([], t\<lparr>writeQueue := writeQueue s @ [(of_nat (length bytes), bytes)]\<rparr>))"
proof -
  have u: "unat (of_nat (length bytes) :: u32) = length bytes"
    using assms by (intro unat_of_nat_small) simp
  then have z: "(of_nat (length bytes) :: u32) = 0 \<longleftrightarrow> bytes = []"
    by (metis length_0_conv unat_eq_zero)
  show ?thesis using u z by (simp add: onRead_def Let_def)
qed

theorem onRead_queues_witness:
  "socket_step (On_Read [1, 2]) (TcpSocket_socket 0 5 :: nat tcp_socket) =
   Inr ([], (TcpSocket_socket 0 5)\<lparr>readBuffer := [1, 2],
     ioData := (ioData (TcpSocket_socket 0 5 :: nat tcp_socket))\<lparr>io_bytes := 2\<rparr>, writeQueue := [(2, [1, 2])]\<rparr>)"
  using onRead_queues [of "[1, 2]" "TcpSocket_socket 0 5 :: nat tcp_socket"]
  by (simp add: TcpSocket_socket_def init_io_def fresh_socket_def Let_def)

text \<open>
  \<open>read\<close> refuses only when the socket is not valid and its last operation was a completion:
  on a closed socket after an accept, a read or a write it starts a receive on the handle -1
  and returns true when that reports no error. \<open>write\<close> refuses every socket that is not valid
  and never returns a value when it has handed data to the kernel.
\<close>
theorem read_write_guards:
  assumes "\<not> valid s"
  shows "tcp_write send err data len s = (Some False, [], s) \<and>
    (io_type (ioData s) \<noteq> HANDLE_COMPLETE \<longrightarrow> fst (tcp_read 0 err s)) \<and>
    (io_type (ioData s) = HANDLE_COMPLETE \<longrightarrow> tcp_read recv err s = (False, [], s)) \<and>
    (valid t \<and> len \<noteq> 0 \<longrightarrow> fst (tcp_write send err data len t) = None)"
  using assms by (auto simp: tcp_write_def tcp_read_def Let_def split: prod.splits)

theorem read_write_guards_witness:
  "fst (tcp_read 0 0 (snd (close (TcpSocket_socket 0 5 :: nat tcp_socket))))"
  using read_write_guards [of "snd (close (TcpSocket_socket 0 5 :: nat tcp_socket))" 0 0 None 0 0
      "TcpSocket_socket 0 5 :: nat tcp_socket"]
  by (simp add: TcpSocket_socket_def init_io_def fresh_socket_def close_def valid_def Let_def zero_io_def)

section \<open>Properties of the listener and the client\<close>

text \<open>
  The IOCP listener never reports success: when a socket for the next connection can be
  made, \<open>accept\<close> overruns it with the zeros meant for the structure of the operation, and when
  it cannot, the failure \<open>false\<close> becomes the socket 0 and \<open>listen\<close> returns false.
\<close>
theorem listen_iocp_never_true:
  "listen_iocp E socket acceptex err l \<noteq> Inr (True, l') \<and>
   (socket \<noteq> - 1 \<and> le_setsockopt E \<noteq> - 1 \<and> le_bind E \<noteq> - 1 \<and> le_listen E \<noteq> - 1 \<longrightarrow>
      listen_iocp E socket acceptex err l = Inl Object_Overrun)"
  by (auto simp: listen_iocp_def accept_iocp_def memset_object_def sizeof_IO_DATA_def
      MAX_RECEIVE_BUFFER_def sizeof_socket_t_def Let_def split: prod.splits)

theorem listen_iocp_never_true_witness:
  "listen_iocp \<lparr>le_socket = 3, le_setsockopt = 0, le_bind = 0, le_listen = 0, le_register = 1\<rparr> 4 True 0
     (TcpListener (Address_port True 80) 1) = Inl Object_Overrun"
  using listen_iocp_never_true [of "\<lparr>le_socket = 3, le_setsockopt = 0, le_bind = 0, le_listen = 0, le_register = 1\<rparr>"
      4 True 0 "TcpListener (Address_port True 80) 1"] by simp

text \<open>
  C37. The client tries to connect at most ten times and always returns: it returns true exactly
  when one of the first ten attempts succeeds, after the first success and with no attempt
  beyond it, the socket marked connected and made non-blocking and \<open>onConnect\<close> called once;
  otherwise it returns false after ten attempts, the socket marked unconnected and \<open>onConnect\<close>
  not called.
\<close>
theorem connect_spec:
  assumes "12 \<le> fuel"
  shows "(if \<exists>j < 10. attempt j
    then let j = (LEAST j. attempt j) in
      connect fuel attempt s serverType c = Inr (True, j + 1,
        c\<lparr>c_status := (c_status c)(s \<mapsto> CLIENT_CONNECTED), c_nonblocking := insert s (c_nonblocking c),
          c_connected := c_connected c @ [(s, serverType)]\<rparr>)
    else connect fuel attempt s serverType c = Inr (False, 10,
      c\<lparr>c_status := (c_status c)(s \<mapsto> CLIENT_UNCONNECTED)\<rparr>))"
proof (cases "\<exists>j < 10. attempt j")
  case True
  define j where "j = (LEAST j. attempt j)"
  obtain i where "i < 10" "attempt i" using True by blast
  then have j: "attempt j" "j < 10" unfolding j_def by (metis LeastI, metis Least_le le_less_trans)
  have before: "\<forall>i. 0 \<le> i \<and> i < 0 + j \<longrightarrow> \<not> attempt i" using not_less_Least by (auto simp: j_def)
  let ?c = "set_conn_status s CLIENT_CONNECTING c"
  have "c_status ?c s \<noteq> None" by (simp add: set_conn_status_def)
  then obtain left where "0 < left" "connect_loop fuel attempt 0 s CLIENT_CONNECTING 10 ?c =
      Inr (left, 0 + j + 1, set_conn_status s CLIENT_CONNECTED (?c\<lparr>c_nonblocking := insert s (c_nonblocking ?c)\<rparr>))"
    using connect_loop_success [of attempt 0 j 10 fuel ?c s] j before assms by auto
  then show ?thesis
    using True by (simp add: connect_def Let_def j_def [symmetric] set_conn_status_def)
next
  case False
  let ?c = "set_conn_status s CLIENT_CONNECTING c"
  have "c_status ?c s \<noteq> None" by (simp add: set_conn_status_def)
  then have "connect_loop fuel attempt 0 s CLIENT_CONNECTING 10 ?c =
      Inr (0, 10, set_conn_status s CLIENT_UNCONNECTED ?c)"
    using connect_loop_fail [of 0 10 attempt fuel ?c s] False assms by simp
  then show ?thesis
    using False by (simp add: connect_def Let_def set_conn_status_def)
qed

theorem connect_spec_witness:
  "\<exists>c' :: nat tcp_client. connect 12 (\<lambda>n. 3 \<le> n) 7 1
     \<lparr>c_run = True, c_timeout = 1, c_engine = TimerThread 43200 43200, c_status = Map.empty, c_nonblocking = {}, c_connected = []\<rparr> =
     Inr (True, 4, c') \<and> c_connected c' = [(7, 1)]"
proof -
  have "\<exists>j < 10. (3 :: nat) \<le> j" by (intro exI [of _ 3]) simp
  moreover have "(LEAST j. (3 :: nat) \<le> j) = 3" by (rule Least_equality) simp_all
  ultimately show ?thesis
    using connect_spec [of 12 "\<lambda>n. 3 \<le> n" 7 1 "\<lparr>c_run = True, c_timeout = 1, c_engine = TimerThread 43200 43200,
        c_status = Map.empty, c_nonblocking = {}, c_connected = []\<rparr> :: nat tcp_client"]
    by simp
qed

section \<open>Properties of the logger\<close>

text \<open>
  A log line carries the tag of its level, and two levels share a tag, and a log file, only
  if they are the same or are INFO and FATAL: a fatal message is logged as information. The
  file only grows: a local log appends one line to the file of the level and changes no other
  file; when the file cannot be opened the Windows code logs nothing and the other code writes
  through a null pointer.
\<close>
theorem logger_spec:
  "((level_tag a = level_tag b) = (a = b \<or> {a, b} = {QLOG_LEVEL_INFO, QLOG_LEVEL_FATAL})) \<and>
   (\<exists>rest. print_log a file line msg = level_tag a @ rest) \<and>
   (case print_log_local win fopen a msg fs of
      Inl e \<Rightarrow> e = Null_Deref \<and> \<not> win \<and> \<not> fopen (log_name a)
    | Inr fs' \<Rightarrow>
        if fopen (log_name a)
        then \<exists>line. fs' = fs(log_name a \<mapsto> (case fs (log_name a) of None \<Rightarrow> line | Some text \<Rightarrow> text @ line))
        else fs' = fs)"
proof -
  have "case print_log_local win fopen a msg fs of
      Inl e \<Rightarrow> e = Null_Deref \<and> \<not> win \<and> \<not> fopen (log_name a)
    | Inr fs' \<Rightarrow>
        if fopen (log_name a)
        then \<exists>line. fs' = fs(log_name a \<mapsto> (case fs (log_name a) of None \<Rightarrow> line | Some text \<Rightarrow> text @ line))
        else fs' = fs"
    by (cases "fs (log_name a)") (auto simp: print_log_local_def Let_def)
  then show ?thesis by (simp add: level_tag_eq_iff print_log_def)
qed

end
