(* ===== verification/Net_Handlers.thy ===== *)
theory Net_Handlers
  imports Net_Properties
begin

text \<open>
  Handlers of a socket that call back into it. \<open>close\<close>, \<open>writeFinished\<close> and \<open>readFinished\<close> call
  their handler as the last thing they do, and so, through \<open>close\<close>, do \<open>write\<close>, \<open>read\<close> and \<open>onRead\<close>:
  a handler that calls the socket again does so in the state that the operation leaves behind,
  and the operation that called it does nothing more when it returns.
\<close>

section \<open>Runs with handlers\<close>

text \<open>\<open>H e\<close>: the calls into the socket of the handler whose call is the event \<open>e\<close>.\<close>

definition handler_calls :: "('h socket_event \<Rightarrow> 'h socket_op list) \<Rightarrow> 'h socket_event list \<Rightarrow> 'h socket_op list" where
  "handler_calls H ev = concat (map (\<lambda>e. case e of Closesocket _ \<Rightarrow> [] | _ \<Rightarrow> H e) ev)"

fun nested_run :: "nat \<Rightarrow> ('h socket_event \<Rightarrow> 'h socket_op list) \<Rightarrow> 'h socket_op list \<Rightarrow> 'h tcp_socket
    \<Rightarrow> ('h socket_event list \<times> 'h tcp_socket) res" where
  "nested_run 0 H ops s = Inl Out_Of_Fuel"
| "nested_run (Suc fuel) H [] s = Inr ([], s)"
| "nested_run (Suc fuel) H (op # ops) s =
     res_bind (socket_step op s) (\<lambda>(ev, s).
     res_bind (nested_run fuel H (handler_calls H ev) s) (\<lambda>(ev', s).
     res_bind (nested_run fuel H ops s) (\<lambda>(ev'', s). Inr (ev @ ev' @ ev'', s))))"

text \<open>The operations of such a run in the order in which they happen, those of the handlers included.\<close>

fun nested_ops :: "nat \<Rightarrow> ('h socket_event \<Rightarrow> 'h socket_op list) \<Rightarrow> 'h socket_op list \<Rightarrow> 'h tcp_socket \<Rightarrow> 'h socket_op list" where
  "nested_ops 0 H ops s = []"
| "nested_ops (Suc fuel) H [] s = []"
| "nested_ops (Suc fuel) H (op # ops) s =
     op # (case socket_step op s of
             Inl _ \<Rightarrow> []
           | Inr (ev, s) \<Rightarrow> nested_ops fuel H (handler_calls H ev) s @
               (case nested_run fuel H (handler_calls H ev) s of
                  Inl _ \<Rightarrow> []
                | Inr (_, s) \<Rightarrow> nested_ops fuel H ops s))"

section \<open>Lemmas\<close>

lemma socket_run_append:
  "socket_run ops s = Inr (ev, t) \<Longrightarrow> socket_run ops' t = Inr (ev', u) \<Longrightarrow>
   socket_run (ops @ ops') s = Inr (ev @ ev', u)"
proof (induction ops arbitrary: s ev)
  case (Cons op ops)
  then obtain e1 s1 e2 where "socket_step op s = Inr (e1, s1)" "socket_run ops s1 = Inr (e2, t)" "ev = e1 @ e2"
    by auto
  then show ?case using Cons.IH Cons.prems(2) by simp
qed simp

text \<open>A run with handlers is a run of the operations in the order in which they happen.\<close>

lemma nested_flat:
  "nested_run fuel H ops s = Inr (ev, t) \<Longrightarrow> socket_run (nested_ops fuel H ops s) s = Inr (ev, t)"
proof (induction fuel H ops s arbitrary: ev t rule: nested_run.induct)
  case (3 fuel H op ops s)
  obtain e1 s1 e2 s2 e3 where st: "socket_step op s = Inr (e1, s1)"
    and 1: "nested_run fuel H (handler_calls H e1) s1 = Inr (e2, s2)"
    and 2: "nested_run fuel H ops s2 = Inr (e3, t)" and ev: "ev = e1 @ e2 @ e3"
    using "3.prems" by (auto simp: res_bind_eq_Inr)
  have "socket_run (nested_ops fuel H (handler_calls H e1) s1) s1 = Inr (e2, s2)"
    using "3.IH"(1) [OF st _ 1] by simp
  moreover have "socket_run (nested_ops fuel H ops s2) s2 = Inr (e3, t)" using "3.IH"(2) [OF st _ 1 _ 2] by simp
  ultimately have "socket_run (nested_ops fuel H (handler_calls H e1) s1 @ nested_ops fuel H ops s2) s1 = Inr (e2 @ e3, t)"
    by (rule socket_run_append)
  then show ?case using st ev 1 by simp
qed simp_all

text \<open>The operations that call no handler but that of \<open>close\<close>.\<close>

fun plain_op :: "'h socket_op \<Rightarrow> bool" where
  "plain_op (Write_Finished _ _ _) = False"
| "plain_op (Read_Finished _) = False"
| "plain_op _ = True"

lemma plain_closing:
  assumes "plain_op op" and "socket_step op s = Inr (ev, t)"
  shows "filter closing ev = ev"
proof -
  have c: "filter closing ev' = ev'" if "close s' = (ev', t')" for s' t' :: "'a tcp_socket" and ev'
    using that by (auto simp: close_def closing_def Let_def split: if_splits option.splits)
  show ?thesis
  proof (cases op)
    case (Write send err data len)
    then show ?thesis using assms(2) by (auto simp: tcp_write_def Let_def split: if_splits prod.splits dest: c)
  next
    case (Read recv err)
    then show ?thesis using assms(2) by (auto simp: tcp_read_def Let_def split: if_splits prod.splits dest: c)
  next
    case (On_Read bytes)
    then show ?thesis using assms(2) by (auto simp: onRead_def Let_def split: if_splits dest: c)
  next
    case Close
    then show ?thesis using assms(2) by (auto dest: c)
  qed (use assms in auto)
qed

lemma plain_step:
  assumes "plain_op op" and "socket_step op s = Inr (ev, t)"
  shows "handler_calls H ev = [] \<and> valid t = valid s \<or>
    valid s \<and> \<not> valid t \<and> (handler_calls H ev = [] \<or> (\<exists>h. handler_calls H ev = H (Closed h)))"
proof -
  have "filter closing ev = [] \<and> ts_socket t = ts_socket s \<or>
      valid s \<and> \<not> valid t \<and> filter closing ev = (if ts_handle s \<noteq> - 1 then [Closesocket (ts_handle s)] else []) @
        (case closeHandler s of None \<Rightarrow> [] | Some h \<Rightarrow> [Closed h])"
    using socket_step_ends [OF assms(2)] by (simp add: step_ends_def)
  then show ?thesis
    unfolding plain_closing [OF assms] by (auto simp: handler_calls_def valid_def split: option.splits if_splits)
qed

lemma socket_step_fuel: "socket_step op s \<noteq> Inl Out_Of_Fuel"
  by (cases op) (auto simp: onRead_def Let_def split: prod.splits if_splits)

text \<open>On a socket that is not valid such operations call no handler at all.\<close>

lemma nested_invalid:
  "\<lbrakk> \<not> valid s; \<forall>op \<in> set ops. plain_op op; length ops + 2 \<le> fuel \<rbrakk> \<Longrightarrow>
   nested_run fuel H ops s \<noteq> Inl Out_Of_Fuel \<and>
   (\<forall>ev t. nested_run fuel H ops s = Inr (ev, t) \<longrightarrow> \<not> valid t)"
proof (induction ops arbitrary: s fuel)
  case Nil
  then obtain n where "fuel = Suc n" by (cases fuel) auto
  then show ?case using Nil by simp
next
  case (Cons op ops)
  obtain n where n: "fuel = Suc (Suc n)" "length ops + 2 \<le> Suc n"
    using Cons.prems(3) by (cases fuel; cases "fuel - 1") auto
  show ?case
  proof (cases "socket_step op s")
    case (Inl e)
    then show ?thesis using socket_step_fuel [of op s] by (simp add: n)
  next
    case (Inr r)
    obtain ev t where st: "socket_step op s = Inr (ev, t)" using Inr by (cases r) auto
    have p: "plain_op op" using Cons.prems(2) by simp
    then have "handler_calls H ev = []" "\<not> valid t" using plain_step [OF p st, of H] Cons.prems(1) by auto
    then show ?thesis
      using Cons.IH [of t "Suc n"] Cons.prems(2) n st by (cases "nested_run (Suc n) H ops t") auto
  qed
qed

lemma nested_plain:
  assumes H: "\<forall>e. length (H e) \<le> m \<and> (\<forall>op \<in> set (H e). plain_op op)"
  shows "\<lbrakk> \<forall>op \<in> set ops. plain_op op; length ops + m + 3 \<le> fuel \<rbrakk> \<Longrightarrow> nested_run fuel H ops s \<noteq> Inl Out_Of_Fuel"
proof (induction ops arbitrary: s fuel)
  case Nil
  then obtain n where "fuel = Suc n" by (cases fuel) auto
  then show ?case by simp
next
  case (Cons op ops)
  obtain n where n: "fuel = Suc (Suc n)" "length ops + m + 3 \<le> Suc n"
    using Cons.prems(2) by (cases fuel; cases "fuel - 1") auto
  have rest: "nested_run (Suc n) H ops t \<noteq> Inl Out_Of_Fuel" for t
    using Cons.IH [of "Suc n" t] Cons.prems(1) n(2) by simp
  show ?case
  proof (cases "socket_step op s")
    case (Inl e)
    then show ?thesis using socket_step_fuel [of op s] by (simp add: n)
  next
    case (Inr r)
    obtain ev t where st: "socket_step op s = Inr (ev, t)" using Inr by (cases r) auto
    have p: "plain_op op" using Cons.prems(1) by simp
    have "nested_run (Suc n) H (handler_calls H ev) t \<noteq> Inl Out_Of_Fuel"
      using plain_step [OF p st, of H]
    proof (elim disjE conjE exE)
      fix h assume t: "\<not> valid t" and h: "handler_calls H ev = H (Closed h)"
      have m: "length (H (Closed h)) \<le> m" "\<forall>op \<in> set (H (Closed h)). plain_op op" using H by blast+
      then have "length (H (Closed h)) + 2 \<le> Suc n" using n(2) by linarith
      then show ?thesis unfolding h using nested_invalid [OF t m(2)] by blast
    qed simp_all
    then show ?thesis
      using rest st by (cases "nested_run (Suc n) H (handler_calls H ev) t")
        (auto simp: n split: sum.splits simp: res_bind_def)
  qed
qed

section \<open>Properties\<close>

text \<open>
  C35. Whatever a socket goes through, and whatever its handlers do to it when they are called, it is
  ended at most once. When it stops being valid, one of the operations, taken in the order in which
  they happen, ended it: that operation closed the handle of the socket and then called the close
  handler that was registered last before it (by an operation or by a handler; the one the socket
  had at the start when there was none), and no operation before or after it closes the handle or
  calls a close handler. When the socket stays valid, or was not valid at the start, neither happens at
  all, and a socket that is not valid never becomes valid again.
\<close>
theorem handlers_close_once:
  assumes "nested_run fuel H ops s = Inr (ev, t)"
  shows "(if valid s \<and> \<not> valid t
      then \<exists>before op after e1 u e2 v e3.
        nested_ops fuel H ops s = before @ op # after \<and> ev = e1 @ e2 @ e3 \<and>
        socket_run before s = Inr (e1, u) \<and> valid u \<and> filter closing e1 = [] \<and>
        socket_step op u = Inr (e2, v) \<and> \<not> valid v \<and>
        filter closing e2 = (if ts_handle s \<noteq> - 1 then [Closesocket (ts_handle s)] else []) @
          (case registered_close before (closeHandler s) of None \<Rightarrow> [] | Some h \<Rightarrow> [Closed h]) \<and>
        socket_run after v = Inr (e3, t) \<and> filter closing e3 = []
      else filter closing ev = []) \<and> (valid t \<longrightarrow> valid s)"
proof -
  have "ts_handle t = ts_handle s \<and> (filter closing ev = [] \<and> ts_socket t = ts_socket s \<or>
      valid s \<and> ends_once s (nested_ops fuel H ops s) ev t)"
    by (rule socket_run_ends [OF nested_flat [OF assms]])
  then consider "filter closing ev = []" "ts_socket t = ts_socket s"
    | "valid s" "ends_once s (nested_ops fuel H ops s) ev t" by blast
  then show ?thesis
  proof cases
    case 1
    then have "valid t = valid s" by (simp add: valid_def)
    then show ?thesis using 1 by simp
  next
    case 2
    then have c: "valid s \<and> \<not> valid t" using ends_once_invalid by blast
    show ?thesis unfolding if_P [OF c] using 2 c unfolding ends_once_def by blast
  qed
qed

text \<open>
  A handler that closes and writes whenever it is called, and first registers another one for the
  closing when data was sent.
\<close>

definition closing_handler :: "nat socket_event \<Rightarrow> nat socket_op list" where
  "closing_handler e = (case e of Sent _ _ _ _ \<Rightarrow> [Set_Close (Some 2)] | _ \<Rightarrow> [Close, Write 0 0 None 4, Close])"

theorem handlers_close_once_witness:
  "\<exists>t before op after e1 u e2 v e3.
     nested_run 9 closing_handler [Set_Close (Some 1), Set_Send (Some 7), Write_Finished CODE_SUCCESS 1 None, On_Read [], Close]
       (TcpSocket_socket 0 5) = Inr ([Sent 7 CODE_SUCCESS 1 None, Closesocket 5, Closed 2], t) \<and>
     nested_ops 9 closing_handler [Set_Close (Some 1), Set_Send (Some 7), Write_Finished CODE_SUCCESS 1 None, On_Read [], Close]
       (TcpSocket_socket 0 5) = before @ op # after \<and>
     [Sent 7 CODE_SUCCESS 1 None, Closesocket 5, Closed 2] = e1 @ e2 @ e3 \<and>
     socket_run before (TcpSocket_socket 0 5) = Inr (e1, u) \<and> valid u \<and> socket_step op u = Inr (e2, v) \<and> \<not> valid v \<and>
     registered_close before None = Some 2"
proof -
  let ?s = "TcpSocket_socket 0 5 :: nat tcp_socket"
  let ?ops = "[Set_Close (Some 1), Set_Send (Some 7), Write_Finished CODE_SUCCESS 1 None, On_Read [], Close]"
  let ?ev = "[Sent 7 CODE_SUCCESS 1 None, Closesocket 5, Closed 2]"
  obtain t where run: "nested_run 9 closing_handler ?ops ?s = Inr (?ev, t)" and nv: "\<not> valid t"
    by (auto simp: eval_nat_numeral TcpSocket_socket_def init_io_def fresh_socket_def registerCloseHandler_def
        registerSendHandler_def writeFinished_def onRead_def close_def valid_def Let_def zero_io_def handler_calls_def
        closing_handler_def tcp_write_def)
  have s: "valid ?s" "closeHandler ?s = None" "ts_handle ?s = 5"
    by (simp_all add: TcpSocket_socket_def init_io_def fresh_socket_def valid_def)
  have c: "valid ?s \<and> \<not> valid t" using s nv by blast
  obtain before op after e1 u e2 v e3 where A:
      "nested_ops 9 closing_handler ?ops ?s = before @ op # after" "?ev = e1 @ e2 @ e3"
      "socket_run before ?s = Inr (e1, u)" "valid u" "filter closing e1 = []" "socket_step op u = Inr (e2, v)" "\<not> valid v"
      "filter closing e2 = (if ts_handle ?s \<noteq> - 1 then [Closesocket (ts_handle ?s)] else []) @
          (case registered_close before (closeHandler ?s) of None \<Rightarrow> [] | Some h \<Rightarrow> [Closed h])"
      "socket_run after v = Inr (e3, t)" "filter closing e3 = []"
    using handlers_close_once [OF run] unfolding if_P [OF c] by (elim exE conjE) (rule that)
  have "[Closesocket 5, Closed 2] = filter closing (e1 @ e2 @ e3)" unfolding A(2) [symmetric] by (simp add: closing_def)
  also have "\<dots> = filter closing e2" using A(5,10) by simp
  finally have "registered_close before None = Some 2" using A(8) s by (auto split: option.splits)
  then show ?thesis using run A by blast
qed

text \<open>
  C36. Handlers that close, write or read in turn do not recurse without end: the close handler is
  called once, and no handler is called by an operation on the socket after that. So a run of \<open>n\<close>
  operations, with handlers that make at most \<open>m\<close> calls each, comes to an end.
\<close>
theorem handlers_return:
  assumes "\<forall>e. length (H e) \<le> m \<and> (\<forall>op \<in> set (H e). plain_op op)" and "\<forall>op \<in> set ops. plain_op op"
    and "length ops + m + 3 \<le> fuel"
  shows "nested_run fuel H ops s \<noteq> Inl Out_Of_Fuel"
  using nested_plain [OF assms(1)] assms(2,3) by blast

theorem handlers_return_witness:
  "nested_run 9 closing_handler [Set_Close (Some 1), On_Read [], Close] (TcpSocket_socket 0 5) \<noteq> Inl Out_Of_Fuel"
  by (rule handlers_return [of closing_handler 3]) (auto simp: closing_handler_def split: socket_event.splits)

end
