(* ===== verification/Net_Client_Loop.thy ===== *)
theory Net_Client_Loop
  imports Net_Endpoints Timer_Properties
begin

text \<open>
  The main loop of the client (\<open>TcpClient::run\<close>) and its timers: rounds of \<open>Update\<close> and
  \<open>RunPoll\<close>. \<open>RunPoll\<close> is not in the sources; the handlers it runs reach the engine through
  \<open>timer_engine()\<close>, and the members of the engine are private. \<open>calls j u\<close> are the registrations
  and cancellations that they make in round \<open>j\<close> on the client \<open>u\<close>; that they do not call \<open>Update\<close>
  themselves is an assumption.
\<close>

section \<open>Lemmas\<close>










section \<open>Properties\<close>











end
