(* ===== verification/Platform.thy ===== *)
theory Platform
  imports Main
begin

text \<open>
  The configuration by the preprocessor: \<open>include/qing/define.hpp\<close> turns the macros of the
  compiler into the system's, \<open>include/qing/net/define.hpp\<close> these into the poller's, and the
  sources choose their variants by the latter. The macros are an association list from names to
  the text they stand for; an \<open>#error\<close> line, and a condition that is none, end the compilation.
\<close>

section \<open>The preprocessor\<close>

type_synonym macros = "(string \<times> string) list"

definition defd :: "macros \<Rightarrow> string \<Rightarrow> bool" where
  "defd ds m \<longleftrightarrow> map_of ds m \<noteq> None"

definition def_if :: "bool \<Rightarrow> string \<Rightarrow> string \<Rightarrow> macros \<Rightarrow> macros" where
  "def_if c m v ds = (if c then (m, v) # ds else ds)"

text \<open>
  \<open>#elif M\<close> for a macro \<open>M\<close>: a name that is not defined is 0, one that stands for nothing leaves
  the condition empty, which is an error, and a number other than 0 is true.
\<close>

datatype pp_error = Error_Directive string | No_Expression

definition macro_true :: "macros \<Rightarrow> string \<Rightarrow> pp_error + bool" where
  "macro_true ds m = (case map_of ds m of
     None \<Rightarrow> Inr False
   | Some v \<Rightarrow> if v = '''' then Inl No_Expression else Inr (v \<noteq> ''0''))"

section \<open>The headers\<close>

text \<open>\<open>define.hpp\<close>: each system, and the end of the compilation if there is none.\<close>

definition systems :: "(string \<times> string) list" where
  "systems = [(''__FreeBSD__'', ''HAVE_FREEBSD''), (''__FreeBSD_kernel__'', ''HAVE_KFREEBSD''),
     (''__NetBSD__'', ''HAVE_NETBSD''), (''__OpenBSD__'', ''HAVE_OPENBSD''), (''__APPLE__'', ''HAVE_DARWIN''),
     (''ANDROID'', ''HAVE_ANDROID'')]"

definition supported :: "string list" where
  "supported = [''HAVE_WINDOWS'', ''HAVE_LINUX'', ''HAVE_FREEBSD'', ''HAVE_KFREEBSD'', ''HAVE_NETBSD'', ''HAVE_OPENBSD'',
     ''HAVE_DARWIN'', ''HAVE_ANDROID'']"

definition qing_define_hpp :: "macros \<Rightarrow> pp_error + macros" where
  "qing_define_hpp ds =
     (let ds = def_if (defd ds ''_WIN32'' \<or> defd ds ''_WINDOWS_'') ''HAVE_WINDOWS'' ''1'' ds in
      if defd ds ''__linux__'' then Inl (Error_Directive ''LINUX.'')
      else
        let ds = fold (\<lambda>(sys, have_sys) ds. def_if (defd ds sys) have_sys ''1'' ds) systems ds in
        if \<forall>m \<in> set supported. \<not> defd ds m then Inl (Error_Directive ''Operating system does not support.'')
        else Inr ds)"

text \<open>\<open>net/define.hpp\<close>: the poller of the system. Its macros stand for nothing.\<close>

definition bsd :: "string list" where
  "bsd = [''HAVE_FREEBSD'', ''HAVE_KFREEBSD'', ''HAVE_NETBSD'', ''HAVE_OPENBSD'', ''HAVE_DARWIN'']"

definition net_define_hpp :: "macros \<Rightarrow> pp_error + macros" where
  "net_define_hpp ds =
     (let ds = def_if (defd ds ''HAVE_WINDOWS'') ''HAVE_IOCP'' '''' ds;
          ds = def_if ((defd ds ''HAVE_LINUX'' \<or> defd ds ''HAVE_ANDROID'') \<and> \<not> defd ds ''HAVE_EPOLL'') ''HAVE_EPOLL'' '''' ds;
          ds = def_if (\<exists>m \<in> set bsd. defd ds m) ''HAVE_KQUEUE'' '''' ds in
      if \<not> defd ds ''HAVE_IOCP'' \<and> \<not> defd ds ''HAVE_EPOLL'' \<and> \<not> defd ds ''HAVE_KQUEUE''
      then Inl (Error_Directive ''Operating system does not support(qing/net/define.hpp).'')
      else Inr ds)"

definition configure :: "macros \<Rightarrow> pp_error + macros" where
  "configure ds = (case qing_define_hpp ds of Inl e \<Rightarrow> Inl e | Inr ds \<Rightarrow> net_define_hpp ds)"

section \<open>The variants of the sources\<close>

datatype poller_kind = IOCP | EPOLL | KQUEUE

text \<open>\<open>poller.cpp\<close> asks for each poller by itself: these variants of \<open>poll\<close> are compiled.\<close>

definition poll_variants :: "macros \<Rightarrow> poller_kind list" where
  "poll_variants ds =
     (if defd ds ''HAVE_IOCP'' then [IOCP] else []) @
     (if defd ds ''HAVE_EPOLL'' then [EPOLL] else []) @
     (if defd ds ''HAVE_KQUEUE'' then [KQUEUE] else [])"

text \<open>\<open>tcp_client.cpp\<close> asks in turn, with \<open>defined\<close>.\<close>

definition client_variant :: "macros \<Rightarrow> poller_kind option" where
  "client_variant ds =
     (if defd ds ''HAVE_IOCP'' then Some IOCP
      else if defd ds ''HAVE_KQUEUE'' then Some KQUEUE
      else if defd ds ''HAVE_EPOLL'' then Some EPOLL
      else None)"

text \<open>\<open>tcp_listener.cpp\<close> asks in turn, for the value of the macro.\<close>

definition listener_variant :: "macros \<Rightarrow> pp_error + poller_kind option" where
  "listener_variant ds =
     (if defd ds ''HAVE_IOCP'' then Inr (Some IOCP)
      else case macro_true ds ''HAVE_EPOLL'' of
        Inl e \<Rightarrow> Inl e
      | Inr True \<Rightarrow> Inr (Some EPOLL)
      | Inr False \<Rightarrow> (case macro_true ds ''HAVE_KQUEUE'' of
            Inl e \<Rightarrow> Inl e
          | Inr True \<Rightarrow> Inr (Some KQUEUE)
          | Inr False \<Rightarrow> Inr None))"

section \<open>Lemmas\<close>

text \<open>The macros that the compiler and the user define: none of the library's own.\<close>

definition plain_macros :: "macros \<Rightarrow> bool" where
  "plain_macros ds \<longleftrightarrow> (\<forall>m \<in> set (supported @ [''HAVE_IOCP'', ''HAVE_EPOLL'', ''HAVE_KQUEUE'']). \<not> defd ds m)"

lemma defd_def_if [simp]: "defd (def_if c m v ds) n \<longleftrightarrow> c \<and> n = m \<or> defd ds n"
  by (simp add: defd_def def_if_def)

lemma map_of_def_if: "map_of (def_if c m v ds) n = (if c \<and> n = m then Some v else map_of ds n)"
  by (simp add: def_if_def)

text \<open>What the first header defines, system by system.\<close>

lemma qing_define_cases:
  assumes "qing_define_hpp ds = Inr es" and "plain_macros ds"
  shows "\<not> defd ds ''__linux__''"
    and "defd es ''HAVE_WINDOWS'' \<longleftrightarrow> defd ds ''_WIN32'' \<or> defd ds ''_WINDOWS_''"
    and "\<not> defd es ''HAVE_LINUX'' \<and> \<not> defd es ''HAVE_IOCP'' \<and> \<not> defd es ''HAVE_EPOLL'' \<and> \<not> defd es ''HAVE_KQUEUE''"
    and "defd es ''HAVE_WINDOWS'' \<or> defd es ''HAVE_ANDROID'' \<or> (\<exists>m \<in> set bsd. defd es m)"
  using assms
  by (auto simp: qing_define_hpp_def systems_def supported_def bsd_def plain_macros_def Let_def split: if_splits)

lemma net_define_cases:
  assumes net: "net_define_hpp es = Inr fs" and "\<not> defd es ''HAVE_IOCP''" and "\<not> defd es ''HAVE_EPOLL''"
    and "\<not> defd es ''HAVE_KQUEUE''"
  shows "defd fs ''HAVE_IOCP'' \<longleftrightarrow> defd es ''HAVE_WINDOWS''"
    and "map_of fs ''HAVE_EPOLL'' = None \<or> map_of fs ''HAVE_EPOLL'' = Some ''''"
    and "map_of fs ''HAVE_KQUEUE'' = None \<or> map_of fs ''HAVE_KQUEUE'' = Some ''''"
    and "defd fs ''HAVE_IOCP'' \<or> defd fs ''HAVE_EPOLL'' \<or> defd fs ''HAVE_KQUEUE''"
proof -
  define e k where "e \<longleftrightarrow> defd es ''HAVE_LINUX'' \<or> defd es ''HAVE_ANDROID''" and "k \<longleftrightarrow> (\<exists>m \<in> set bsd. defd es m)"
  have "''HAVE_IOCP'' \<notin> set bsd \<and> ''HAVE_EPOLL'' \<notin> set bsd" by (simp add: bsd_def)
  then have k: "(\<exists>m \<in> set bsd. defd (def_if c ''HAVE_EPOLL'' v (def_if d ''HAVE_IOCP'' w es)) m) \<longleftrightarrow> k" for c d v w
    by (auto simp: k_def)
  have fs: "fs = def_if k ''HAVE_KQUEUE'' [] (def_if e ''HAVE_EPOLL'' [] (def_if (defd es ''HAVE_WINDOWS'') ''HAVE_IOCP'' [] es))"
    and some: "defd fs ''HAVE_IOCP'' \<or> defd fs ''HAVE_EPOLL'' \<or> defd fs ''HAVE_KQUEUE''"
    using net assms(2-4) unfolding net_define_hpp_def Let_def k by (auto simp: e_def split: if_splits)
  show "defd fs ''HAVE_IOCP'' \<longleftrightarrow> defd es ''HAVE_WINDOWS''" using assms(2) by (simp add: fs)
  show "map_of fs ''HAVE_EPOLL'' = None \<or> map_of fs ''HAVE_EPOLL'' = Some ''''"
    "map_of fs ''HAVE_KQUEUE'' = None \<or> map_of fs ''HAVE_KQUEUE'' = Some ''''"
    using assms(2-4) by (simp_all add: fs map_of_def_if defd_def)
  show "defd fs ''HAVE_IOCP'' \<or> defd fs ''HAVE_EPOLL'' \<or> defd fs ''HAVE_KQUEUE''" by (rule some)
qed

section \<open>Properties\<close>

text \<open>
  C40. Of all systems that the headers name the preprocessor gets through the library on Windows
  only: on Linux an \<open>#error\<close> line is in the way, and everywhere else the listener asks for the
  value of a macro that stands for nothing. (What the compiler does after that is another
  matter: \<open>registerAcceptHandler\<close> and \<open>accept\<close> are each defined twice in \<open>tcp_listener.cpp\<close>.)
\<close>
theorem builds_on_windows_only:
  assumes "plain_macros ds"
  shows "(\<exists>es v. configure ds = Inr es \<and> listener_variant es = Inr v) \<longleftrightarrow>
    (defd ds ''_WIN32'' \<or> defd ds ''_WINDOWS_'') \<and> \<not> defd ds ''__linux__''"
proof
  assume "\<exists>es v. configure ds = Inr es \<and> listener_variant es = Inr v"
  then obtain es fs v where q: "qing_define_hpp ds = Inr es" and n: "net_define_hpp es = Inr fs" and v: "listener_variant fs = Inr v"
    by (auto simp: configure_def split: sum.splits)
  note Q = qing_define_cases [OF q assms]
  have "\<not> defd es ''HAVE_IOCP''" "\<not> defd es ''HAVE_EPOLL''" "\<not> defd es ''HAVE_KQUEUE''" using Q(3) by simp_all
  note N = net_define_cases [OF n this]
  have "defd fs ''HAVE_IOCP''"
    using v N(2-4) by (auto simp: listener_variant_def macro_true_def defd_def split: if_splits)
  then show "(defd ds ''_WIN32'' \<or> defd ds ''_WINDOWS_'') \<and> \<not> defd ds ''__linux__''" using N(1) Q(1,2) by simp
next
  assume w: "(defd ds ''_WIN32'' \<or> defd ds ''_WINDOWS_'') \<and> \<not> defd ds ''__linux__''"
  obtain es where q: "qing_define_hpp ds = Inr es"
    using w by (simp add: qing_define_hpp_def Let_def systems_def supported_def)
  have "defd es ''HAVE_WINDOWS''" using qing_define_cases(2) [OF q assms] w by simp
  then obtain fs where "net_define_hpp es = Inr fs" "defd fs ''HAVE_IOCP''"
    by (simp add: net_define_hpp_def Let_def)
  then show "\<exists>es v. configure ds = Inr es \<and> listener_variant es = Inr v"
    using q by (auto simp: configure_def listener_variant_def)
qed

theorem builds_on_windows_only_witness:
  "(\<exists>es v. configure [(''_WIN32'', ''1''), (''_MSC_VER'', ''1900'')] = Inr es \<and> listener_variant es = Inr v) \<and>
   \<not> (\<exists>es v. configure [(''__APPLE__'', ''1''), (''__GNUC__'', ''4'')] = Inr es \<and> listener_variant es = Inr v)"
proof -
  have "plain_macros [(''_WIN32'', ''1''), (''_MSC_VER'', ''1900'')]" "plain_macros [(''__APPLE__'', ''1''), (''__GNUC__'', ''4'')]"
    by code_simp+
  then show ?thesis
    using builds_on_windows_only [of "[(''_WIN32'', ''1''), (''_MSC_VER'', ''1900'')]"]
      builds_on_windows_only [of "[(''__APPLE__'', ''1''), (''__GNUC__'', ''4'')]"]
    by (simp add: defd_def)
qed

text \<open>
  Where the headers find a poller, the client takes one of the variants that the poller has; on
  a system with two, the first in an order of its own.
\<close>
theorem variants_agree:
  assumes "configure ds = Inr es"
  shows "\<exists>k. client_variant es = Some k \<and> k \<in> set (poll_variants es)"
proof -
  obtain fs where "net_define_hpp fs = Inr es" using assms by (auto simp: configure_def split: sum.splits)
  then have "defd es ''HAVE_IOCP'' \<or> defd es ''HAVE_EPOLL'' \<or> defd es ''HAVE_KQUEUE''"
    by (auto simp: net_define_hpp_def Let_def split: if_splits)
  then show ?thesis by (auto simp: client_variant_def poll_variants_def)
qed

end
