(* ===== verification/Spec2Isabelle.thy ===== *)
theory Spec2Isabelle
  imports Timer_Properties Timer_Nested Timer_Updater_Properties Task_Timer Base64 Byte_Buffer RW_Conc_Properties RW_TSO_Properties RW_Size_Properties Atomicops
    Net_Handlers Net_Client_Loop Platform
begin

text \<open>
  \<^bold>\<open>qing: an asynchronous network library\<close>

  \<^bold>\<open>The program.\<close> qing (C++ under \<open>src/src\<close> and \<open>src/include/qing\<close>) is a library for TCP clients
  and servers. Its own logic is in these parts:

  \<^item> a timer engine (\<open>util/time_engine\<close>): timers kept in two \<open>std::map\<close>s, each with a mutex;
    \<open>Update\<close> walks both maps and calls what is due, on one thread or on several; any thread
    registers and cancels timers; and a test of calendar moments;
  \<^item> a lock-free queue for one producer and one consumer (\<open>util/readerwriterqueue.h\<close>): a ring of
    blocks, each a ring buffer, that grows when it is full, over the fences and atomics of
    \<open>util/atomicops.h\<close>;
  \<^item> utilities: Base64 (\<open>util/base64\<close>), a byte buffer (\<open>net/buffer\<close>), one-shot tasks
    (\<open>util/timer\<close>), a logger (\<open>util/logger\<close>);
  \<^item> the network layer: addresses and socket creation (\<open>net/address\<close>, \<open>net/util\<close>), a poller over
    IOCP, epoll or kqueue (\<open>net/poller\<close>), sockets (\<open>net/tcp_socket\<close>), the listener and the client
    (\<open>net/tcp_listener\<close>, \<open>net/tcp_client\<close>).

  They meet in few places. A poller dispatches kernel events to the handlers of sockets; a
  socket reports to its handlers and to the poller; the client connects a socket, then alternates
  \<open>Update\<close> of its timer engine with polling until \<open>stop\<close>. Everything else (the kernel, the clock,
  the allocator, callbacks, the socket manager \<open>GetSockMgr\<close>, which is not in the sources) is a
  parameter of the model, with the behaviour the code relies on stated where it is used.

  \<^bold>\<open>How code becomes definitions.\<close> A class is a record, an operation a function on it. What C++
  leaves undefined, and exceptions and aborts, are values: \<open>'a res\<close> is \<open>fault + 'a\<close>
  (\<open>Qing_Prelude\<close>), so that a theorem about an \<open>Inr\<close> is also one about the absence of faults.
  Fixed-width unsigned integers are words; \<open>int\<close>s are integers with the overflow as a fault.
  Loops recurse on their data where that is evident, have a measure where it is not (\<open>function\<close>
  with \<open>termination\<close>: Base64 and the event loops), and otherwise have fuel, \<open>Out_Of_Fuel\<close>
  being a loop that has not returned yet.

  \<^bold>\<open>The theories.\<close>

  \<^item> \<open>Qing_Prelude\<close>: machine types, faults, results, lemmas on words and lists.
    \<open>Schedule\<close>: runs of threads, and the locale \<open>paced\<close> of calls that others delay by a bounded
    number of steps, with \<open>wait_free\<close>, a \<open>sublocale\<close> of it, for those that nobody delays.
    \<open>Store_Buffers\<close>: the locale \<open>delayed\<close>, two threads whose effects on a shared state take place
    later, which is a \<open>sublocale\<close> of itself with the threads exchanged.
    \<open>Std_Map\<close>: \<open>std::map\<close> and \<open>std::unordered_map\<close> as the sources use them; the locales
    \<open>keyed_map\<close> and \<open>ordered_map\<close> (which extends it by iteration), interpreted as \<open>um\<close> on partial
    functions and as \<open>sm\<close> on ascending association lists.
    \<open>Fifo\<close>: the locale \<open>fifo\<close>, a queue that may refuse, with its lemma on arbitrary sequences of
    operations, and \<open>byte_stream\<close>, a \<open>sublocale\<close> of it.
  \<^item> \<open>Timer_Clock\<close>: the arithmetic of \<open>time_engine.cpp\<close> (unit conversions, elapsed time, time
    zone, calendar test). \<open>Timer_Engine\<close>: \<open>ETimer\<close> and \<open>TimerThread\<close> with \<open>Register\<close>,
    \<open>RegisterByMilSec\<close>, \<open>UnRegister\<close>, \<open>Update\<close> and the profiling operations, the callbacks being
    programs of calls into the engine. \<open>Timer_Update\<close>: lemmas on a whole \<open>Update\<close>.
    \<open>Timer_Properties\<close>: reachable states, their invariant, the properties. \<open>Timer_Nested\<close>:
    callbacks that call \<open>Update\<close>; without such calls it is \<open>Update\<close> of \<open>Timer_Engine\<close>.
    \<open>Timer_Calls\<close>: the calls into the engine in steps; \<open>Timer_Threads\<close>: one updating thread with
    its callbacks and any number of clients, and their invariant; \<open>Timer_Alone\<close>: an \<open>Update\<close> that is
    not interrupted is the sequential one; \<open>Timer_Thread_Properties\<close>: the properties.
    \<open>Timer_Updaters\<close>: any number of updating threads and clients, and their invariant;
    \<open>Timer_Updater_Torn\<close>: what holds of them when increments of the counter are torn;
    \<open>Timer_Updater_Progress\<close>: which thread is not blocked, and what the updates have left to do;
    \<open>Timer_Updater_Properties\<close>: with one updating thread this is the model of \<open>Timer_Threads\<close>; the
    properties.
  \<^item> \<open>RW_Queue\<close>: the queue's code run by one thread, assertions and guards included.
    \<open>RW_Memory\<close>, \<open>RW_Block\<close>: the layout \<open>make_block\<close> makes, one block as a list.
    \<open>RW_Refine\<close>, \<open>RW_Consume\<close>: the ring of blocks as a list, the two sides' operations on it.
    \<open>RW_Properties\<close>: the specification of each operation, and the interpretation \<open>rwq\<close> of \<open>fifo\<close>.
  \<^item> \<open>RW_Concurrent\<close>: the same code as steps of a producer and a consumer, and the atomic queue
    that specifies them. \<open>RW_Conc_Block\<close>, \<open>RW_Conc_Inv\<close>: the invariant. \<open>RW_Conc_Producer\<close>,
    \<open>RW_Conc_Consumer\<close>: one lemma per program point. \<open>RW_Conc_Steps\<close>: the steps put together and
    the interpretations \<open>producer_thread\<close> and \<open>consumer_thread\<close> of \<open>wait_free\<close>. \<open>RW_Conc_Alone\<close>:
    a call that is not interrupted is the sequential one. \<open>RW_Conc_Properties\<close>: the properties.
  \<^item> \<open>RW_TSO\<close>: the stores each of these steps makes (\<open>p_stores\<close>, \<open>c_stores\<close>, shown to be all its
    writes), and a machine that runs the steps with a store buffer per thread. \<open>RW_TSO_Inv\<close>: its
    invariant, by what each buffer still has to bring about. \<open>RW_TSO_Commute\<close>: the steps of the two
    threads commute, the interpretation \<open>buffers\<close> of \<open>delayed\<close>. \<open>RW_TSO_Steps\<close>,
    \<open>RW_TSO_Properties\<close>: every step and every store that takes effect, the interpretation
    \<open>buffered_producer\<close> of \<open>wait_free\<close>, the properties. \<open>Atomicops\<close>: \<open>util/atomicops.h\<close> and the
    fences that the steps pass.
  \<^item> \<open>RW_Size\<close>: \<open>size_approx\<close> in steps, and the locale \<open>size_call\<close> of its surroundings, interpreted
    as \<open>consumer_calls\<close>, \<open>producer_calls\<close> and \<open>third_calls\<close>; each is \<open>paced\<close>.
    \<open>RW_Size_Properties\<close>: what it returns.
  \<^item> \<open>Base64\<close>, \<open>Byte_Buffer\<close> (with the interpretation \<open>bs\<close> of \<open>byte_stream\<close>), \<open>Task_Timer\<close>,
    \<open>Logger\<close>: one file each, model and properties.
  \<^item> \<open>Net_Address\<close>, \<open>Net_Poller\<close>, \<open>Net_Socket\<close>, \<open>Net_Endpoints\<close>: the network classes.
    \<open>Net_Properties\<close>: their properties, and those of the logger. \<open>Net_Handlers\<close>: handlers of a socket
    that call back into it. \<open>Net_Client_Loop\<close>: the rounds of the client's main loop and its timers.
  \<^item> \<open>Platform\<close>: the conditions of the preprocessor by which the headers find the system and the
    poller, and the sources their variants.

  \<^bold>\<open>What is shown.\<close>

  \<^item> Queue. One thread: every operation keeps the invariant and is the queue operation on the
    list of elements, \<open>try_enqueue\<close> never allocates, allocation failure leaves the queue as it
    was, construction and destruction balance. Two threads, in every interleaving: no step
    faults (no assertion, no null or dead object, no read of what the other thread is writing),
    the queue is an atomic first-in first-out queue, whose states record the answers of the calls: \<open>false\<close>
    is returned only if the queue was empty when the call began, a peeked pointer stays valid, each call returns within four or five
    steps of its own thread, and with both threads at rest the sequential theorems apply.
    \<open>size_approx\<close> returns, and called by either thread it returns a number between what the queue
    held at the call and at the return; from a third thread it may return 0 though the queue was
    never empty. On processors that buffer stores nothing faults either, elements
    get into the queue in their order, at most delayed, and with empty buffers the sequential
    theorems apply; a consumer may miss an element whose enqueue has returned.
  \<^item> Fences. Whatever compiler and processor reorder, each fence keeps in order what its memory order
    asks for, on every build: the barriers hold the compiler, the instruction the processor. Those that the
    queue passes are no instructions on x86, where the header has fences of its own.
  \<^item> Timers. Every reachable state is well formed; one \<open>Update\<close> fires exactly the due timers, in
    order, re-arms or removes them, and never a cancelled one; unless a callback calls \<open>Update\<close>, it
    calls each at most once; it returns when
    the callbacks do nothing but cancel, and a callback can keep it from returning; the limits of the
    elapsed-time arithmetic; the calendar test east and west of Greenwich. Several threads: the
    maps and the iterator of \<open>Update\<close> stay valid in every order of steps, and an uninterrupted \<open>Update\<close>
    is the sequential one; if increments of the id counter are not torn, which nothing ensures, the maps
    stay disjoint and a registration takes effect once; \<open>Register\<close> may starve, and
    there are two ways in which the unguarded counter goes wrong. Several threads may be in
    \<open>Update\<close>: no two are in one map, and they make progress unless callbacks cancel timers, which may
    deadlock two of them. A callback may call \<open>Update\<close> if every timer lasts; if the inner call erases
    the timer whose callback it is, the outer one uses what has been freed.
  \<^item> Base64 equals RFC 3548 encoding and both round trips hold; decoding is total. The buffer is a
    byte stream. The pollers dispatch what the kernel returned, in order. A socket is closed at
    most once, whatever its handlers do to it, and calls the close handler registered by then.
    Connecting makes at most ten attempts; the main loop is an \<open>Update\<close> and then a poll per round until
    \<open>stop\<close>, and a timer cancelled by a handler is not called in a later round.
    Each task created runs once and never early. The library passes the preprocessor on Windows
    only.

  \<^bold>\<open>Bounds and fuel.\<close> \<open>Update\<close> has fuel because a callback may register timers faster than they are
  visited: \<open>Update_returns\<close> gives the fuel that is enough when callbacks only cancel timers, and
  \<open>zero_interval_reregistration_diverges\<close> a program for which none is. Twelve units
  are enough for the connection loop, which makes ten attempts at most. The
  main loop needs one unit more than it has rounds. In \<open>Timer_Nested\<close> there is fuel for the depth of the calls too:
  a callback that always calls \<open>Update\<close> uses up any depth (\<open>nested_update_recurses\<close>). The loops over the ring (\<open>free_loop\<close>,
  \<open>destroy_loop\<close>, \<open>size_approx\<close>) are given as much fuel as there are blocks and slots; the
  specifications state that they return; so does \<open>size_approx_returns\<close>, without fuel, for the steps.
  Sizes: the queue is constructed for 1 to \<open>2^63 - 1\<close>
  elements whose block fits into the 64-bit address space.

  \<^bold>\<open>Limits of the concurrent models.\<close> In \<open>RW_Concurrent\<close> and \<open>RW_Size\<close> the threads interleave, and
  each sees the other's writes in the order they were made, at once. In \<open>RW_TSO\<close> the writes of a
  thread reach the other in their order, at any later time; this is what x86 processors do, and
  the compiler is taken to keep the order of the accesses at the fences, which \<open>fence_orders\<close> shows
  from its rules for the barriers. Processors that reorder
  other accesses are not covered, beyond \<open>fence_orders\<close>. A step of the queue's threads makes at
  most one access to a variable that the other thread writes and whose value may change under
  it; the writes that initialise a new block are one store, since no other thread can reach the
  block before. In \<open>Timer_Threads\<close> and \<open>Timer_Updaters\<close> the body of \<open>Update\<close>'s
  loop up to the callback, and from its return on, is one step, and so is every section of a call
  that runs under a mutex; a callback decides on its calls when it starts.

  \<^bold>\<open>Not modelled.\<close> \<open>qing::Thread\<close>, whose bodies are
  empty, and \<open>print_all_fun_time\<close>, which prints; the macros of \<open>util/atomicops.h\<close> for inlining,
  alignment and warnings; headers that only include, export or declare
  (\<open>util/macros.h\<close>, \<open>net/net.hpp\<close>, \<open>net/tcp_server.hpp\<close>); the samples, which use classes
  that the sources do not have (\<open>TCPConnection\<close>, \<open>MessageWorker\<close>).
  \<open>BaseSocket\<close>, \<open>SocketMgr\<close>, \<open>Util::setNonblocking\<close> and \<open>runAcceptProcess\<close> have no bodies in the
  sources. \<open>SocketMgr::RunPoll\<close>, which the main loop calls, is taken to act on the timer engine by
  registrations and cancellations only (\<open>Net_Client_Loop\<close>), and the timer callbacks to act on
  the engine only, not on the client.

  \<^bold>\<open>Open.\<close> Processors with weaker orders than x86.
\<close>

end
